(* ===== verification/Finalis_Prelude.thy ===== *)
theory Finalis_Prelude
  imports
    Main
    "HOL-Library.Word"
    "HOL-Library.List_Lexorder"
    "HOL-Library.Product_Lexorder"
    "HOL-Library.Monad_Syntax"
    "HOL-Library.Multiset"
begin

text \<open>
  Shared material of the development: the names of the machine types of
  \<^verbatim>\<open>src/src/common/types.hpp\<close>, the word lemmas the arithmetic proofs use, the model of
  \<^verbatim>\<open>std::map\<close> as an association list sorted by key, and the model of a stable sort followed by
  \<^verbatim>\<open>std::unique\<close>.

  A \<^verbatim>\<open>std::array<uint8_t, N>\<close> is a list of bytes; that its length is \<open>N\<close> is part of the
  well-formedness predicate of every structure that holds one. The lexicographic order of such
  arrays is the list order of \<open>HOL-Library.List_Lexorder\<close>.
\<close>

subsection \<open>Machine types\<close>

type_synonym u8 = "8 word"
type_synonym u16 = "16 word"
type_synonym u32 = "32 word"
type_synonym u64 = "64 word"
type_synonym bytes = "8 word list"
type_synonym hash32 = "8 word list"
type_synonym pubkey32 = "8 word list"
type_synonym sig64 = "8 word list"

abbreviation u64_max :: u64 where "u64_max \<equiv> - 1"

text \<open>The ASCII bytes of a domain-separation string.\<close>

definition ascii :: "string \<Rightarrow> bytes" where
  "ascii s = map (\<lambda>c. word_of_nat (of_char c)) s"

lemma length_ascii [simp]: "length (ascii s) = length s"
  by (simp add: ascii_def)

definition zero_hash :: hash32 where
  "zero_hash = replicate 32 0"

lemma length_zero_hash [simp]: "length zero_hash = 32"
  by (simp add: zero_hash_def)

subsection \<open>Reading words as naturals\<close>

named_theorems unat_simps \<open>rules that move word arithmetic to the naturals\<close>

lemma unat_u64_less [simp]: "unat (a :: u64) < 18446744073709551616"
  using unsigned_less [of a] by simp

lemma unat_u32_less [simp]: "unat (a :: u32) < 4294967296"
  using unsigned_less [of a] by simp

lemma unat_u8_less [simp]: "unat (a :: u8) < 256"
  using unsigned_less [of a] by simp

lemma unat_add_u64 [unat_simps]:
  "unat (a :: u64) + unat b < 18446744073709551616 \<Longrightarrow> unat (a + b) = unat a + unat b"
  by (simp add: unat_word_ariths)

lemma unat_mult_u64 [unat_simps]:
  "unat (a :: u64) * unat b < 18446744073709551616 \<Longrightarrow> unat (a * b) = unat a * unat b"
  by (simp add: unat_word_ariths)

lemma unat_sub_u64 [unat_simps]:
  "unat (b :: u64) \<le> unat a \<Longrightarrow> unat (a - b) = unat a - unat b"
  by (simp add: unat_sub_if_size)

lemma unat_div_u64 [unat_simps]: "unat ((a :: u64) div b) = unat a div unat b"
  by (rule unat_div_distrib)

lemma unat_mod_u64 [unat_simps]: "unat ((a :: u64) mod b) = unat a mod unat b"
  by (rule unat_mod_distrib)

lemma unat_min_u64 [unat_simps]: "unat (min (a :: u64) b) = min (unat a) (unat b)"
  by (simp add: min_def word_le_nat_alt)

lemma unat_max_u64 [unat_simps]: "unat (max (a :: u64) b) = max (unat a) (unat b)"
  by (simp add: max_def word_le_nat_alt)

lemma unat_of_nat_u64: "n < 18446744073709551616 \<Longrightarrow> unat (word_of_nat n :: u64) = n"
  by (simp add: unsigned_of_nat take_bit_nat_eq_self)

lemma unat_of_nat_u32: "n < 4294967296 \<Longrightarrow> unat (word_of_nat n :: u32) = n"
  by (simp add: unsigned_of_nat take_bit_nat_eq_self)

lemma unat_ucast_u32_u64 [unat_simps]: "unat (ucast (x :: u32) :: u64) = unat x"
  using less_trans [OF unat_u32_less [of x], of 18446744073709551616]
  by (simp add: unsigned_ucast_eq take_bit_nat_eq_self)

lemma unat_eq_iff: "a = b \<longleftrightarrow> unat (a :: 'a::len word) = unat b"
  by (simp add: word_unat_eq_iff)

lemmas u64_cmp [unat_simps] = word_le_nat_alt word_less_nat_alt

subsection \<open>Ordered maps\<close>

text \<open>
  \<^verbatim>\<open>std::map<K, V>\<close>: its entries in iteration order, that is sorted by key. \<open>omap_upd\<close> is
  \<^verbatim>\<open>m[k] = v\<close>, \<open>omap_del\<close> is \<^verbatim>\<open>m.erase(k)\<close>, and \<^verbatim>\<open>m.find(k)\<close> is \<^const>\<open>map_of\<close>.
\<close>

type_synonym ('k, 'v) omap = "('k \<times> 'v) list"

fun omap_upd :: "'k::linorder \<Rightarrow> 'v \<Rightarrow> ('k, 'v) omap \<Rightarrow> ('k, 'v) omap" where
  "omap_upd k v [] = [(k, v)]"
| "omap_upd k v ((a, b) # m) =
     (if k < a then (k, v) # (a, b) # m
      else if k = a then (k, v) # m
      else (a, b) # omap_upd k v m)"

definition omap_del :: "'k \<Rightarrow> ('k, 'v) omap \<Rightarrow> ('k, 'v) omap" where
  "omap_del k m = filter (\<lambda>e. fst e \<noteq> k) m"

definition omap_ok :: "('k::linorder, 'v) omap \<Rightarrow> bool" where
  "omap_ok m \<longleftrightarrow> sorted_wrt (<) (map fst m)"

text \<open>The contract of a finite map; every client of \<^verbatim>\<open>std::map\<close> uses these laws only.\<close>

locale finite_map =
  fixes empty :: "'m"
    and upd :: "'k \<Rightarrow> 'v \<Rightarrow> 'm \<Rightarrow> 'm"
    and del :: "'k \<Rightarrow> 'm \<Rightarrow> 'm"
    and lookup :: "'m \<Rightarrow> 'k \<Rightarrow> 'v option"
    and ok :: "'m \<Rightarrow> bool"
  assumes lookup_empty: "lookup empty k = None"
    and lookup_upd: "ok m \<Longrightarrow> lookup (upd k v m) a = (if a = k then Some v else lookup m a)"
    and lookup_del: "ok m \<Longrightarrow> lookup (del k m) a = (if a = k then None else lookup m a)"
    and ok_empty: "ok empty"
    and ok_upd: "ok m \<Longrightarrow> ok (upd k v m)"
    and ok_del: "ok m \<Longrightarrow> ok (del k m)"
begin

lemma upd_overwrites: "ok m \<Longrightarrow> lookup (upd k v (upd k w m)) a = lookup (upd k v m) a"
  by (simp add: lookup_upd ok_upd)

lemma upd_commutes:
  "ok m \<Longrightarrow> j \<noteq> k \<Longrightarrow> lookup (upd j v (upd k w m)) a = lookup (upd k w (upd j v m)) a"
  by (simp add: lookup_upd ok_upd)

lemma del_upd: "ok m \<Longrightarrow> lookup (del k (upd k v m)) a = lookup (del k m) a"
  by (simp add: lookup_upd lookup_del ok_upd)

end

lemma omap_ok_Nil [simp]: "omap_ok []"
  by (simp add: omap_ok_def)

lemma omap_ok_Cons: "omap_ok ((a, b) # m) \<longleftrightarrow> (\<forall>k \<in> fst ` set m. a < k) \<and> omap_ok m"
  by (auto simp: omap_ok_def)

lemma omap_ok_distinct: "omap_ok m \<Longrightarrow> distinct (map fst m)"
  by (simp add: omap_ok_def strict_sorted_iff)

lemma fst_set_omap_upd: "fst ` set (omap_upd k v m) = insert k (fst ` set m)"
  by (induction k v m rule: omap_upd.induct) auto

lemma omap_ok_upd [simp]: "omap_ok m \<Longrightarrow> omap_ok (omap_upd k v m)"
  by (induction k v m rule: omap_upd.induct)
     (auto simp: omap_ok_Cons fst_set_omap_upd image_iff split: if_splits)

lemma omap_ok_filter [simp]: "omap_ok m \<Longrightarrow> omap_ok (filter P m)"
  by (induction m) (auto simp: omap_ok_Cons)

lemma omap_ok_del [simp]: "omap_ok m \<Longrightarrow> omap_ok (omap_del k m)"
  by (simp add: omap_del_def)

lemma map_of_omap_upd [simp]: "map_of (omap_upd k v m) a = (if a = k then Some v else map_of m a)"
  by (induction k v m rule: omap_upd.induct) auto

lemma map_of_omap_del [simp]: "map_of (omap_del k m) a = (if a = k then None else map_of m a)"
  by (induction m) (auto simp: omap_del_def)

interpretation om: finite_map "[]" omap_upd omap_del map_of omap_ok
  by unfold_locales auto

lemma omap_in_set: "omap_ok m \<Longrightarrow> (k, v) \<in> set m \<longleftrightarrow> map_of m k = Some v"
  by (simp add: omap_ok_distinct)

lemma map_of_omap_filter_keys:
  "map_of (filter (\<lambda>e. P (fst e)) m) k = (if P k then map_of m k else None)"
  by (induction m) auto

lemma length_omap_upd:
  "omap_ok m \<Longrightarrow> length (omap_upd k v m) = (if map_of m k = None then Suc (length m) else length m)"
proof (induction k v m rule: omap_upd.induct)
  case (2 k v a b m)
  then have "k < a \<Longrightarrow> map_of ((a, b) # m) k = None"
    by (auto simp: omap_ok_Cons map_of_eq_None_iff)
  with 2 show ?case by (auto simp: omap_ok_Cons)
qed simp

text \<open>Two ordered maps with the same lookups are the same list.\<close>

lemma omap_rebuild:
  assumes "distinct (map fst m)"
  shows "map (\<lambda>k. (k, the (map_of m k))) (map fst m) = m"
  unfolding map_map by (rule map_idI) (use assms in auto)

lemma omap_ext:
  assumes "omap_ok m" and "omap_ok n" and same: "\<And>k. map_of m k = map_of n k"
  shows "m = n"
proof -
  have "fst ` set m = fst ` set n"
    using same by (simp add: dom_map_of_conv_image_fst [symmetric] dom_def)
  then have keys: "map fst m = map fst n"
    using assms(1,2) unfolding omap_ok_def by (intro strict_sorted_equal) auto
  have "m = map (\<lambda>k. (k, the (map_of m k))) (map fst m)"
    by (rule omap_rebuild [OF omap_ok_distinct [OF assms(1)], symmetric])
  also have "\<dots> = map (\<lambda>k. (k, the (map_of n k))) (map fst n)"
    by (simp only: keys same)
  also have "\<dots> = n"
    by (rule omap_rebuild [OF omap_ok_distinct [OF assms(2)]])
  finally show ?thesis .
qed

subsection \<open>Sums over the values of a map\<close>

abbreviation omap_sum :: "('k, u64) omap \<Rightarrow> nat" where
  "omap_sum m \<equiv> sum_list (map (\<lambda>e. unat (snd e)) m)"

text \<open>\<^verbatim>\<open>m[k] += s\<close>: a missing entry starts at zero.\<close>

definition omap_add :: "'k::linorder \<Rightarrow> u64 \<Rightarrow> ('k, u64) omap \<Rightarrow> ('k, u64) omap" where
  "omap_add k s m = omap_upd k ((case map_of m k of None \<Rightarrow> 0 | Some v \<Rightarrow> v) + s) m"

lemma omap_ok_add [simp]: "omap_ok m \<Longrightarrow> omap_ok (omap_add k s m)"
  by (simp add: omap_add_def)

lemma omap_sum_upd:
  "omap_ok m \<Longrightarrow> omap_sum (omap_upd k v m) + unat (case map_of m k of None \<Rightarrow> 0 | Some w \<Rightarrow> w)
     = omap_sum m + unat v"
proof (induction k v m rule: omap_upd.induct)
  case (2 k v a b m)
  then have "k < a \<Longrightarrow> map_of ((a, b) # m) k = None"
    by (auto simp: omap_ok_Cons map_of_eq_None_iff)
  with 2 show ?case by (auto simp: omap_ok_Cons)
qed simp

lemma omap_lookup_le_sum: "map_of m k = Some w \<Longrightarrow> unat w \<le> omap_sum m"
  by (induction m) (auto split: if_splits)

lemma omap_sum_add:
  assumes ok: "omap_ok m" and room: "omap_sum m + unat s < 18446744073709551616"
  shows "omap_sum (omap_add k s m) = omap_sum m + unat s"
proof -
  let ?old = "case map_of m k of None \<Rightarrow> 0 | Some w \<Rightarrow> w"
  have "unat ?old \<le> omap_sum m" by (auto split: option.split dest: omap_lookup_le_sum)
  then have "unat (?old + s) = unat ?old + unat s"
    using room by (intro unat_add_u64) linarith
  with omap_sum_upd [OF ok, of k "?old + s"] show ?thesis by (simp add: omap_add_def)
qed

subsection \<open>Removing adjacent duplicates\<close>

text \<open>
  \<^verbatim>\<open>std::unique\<close> with a key: of every run of neighbours with the same key the first stays. After a
  stable sort by that key one element per key stays, the one that came first in the input.
\<close>

fun unique_by :: "('a \<Rightarrow> 'k) \<Rightarrow> 'a list \<Rightarrow> 'a list" where
  "unique_by f [] = []"
| "unique_by f [x] = [x]"
| "unique_by f (x # y # xs) = (if f x = f y then unique_by f (x # xs) else x # unique_by f (y # xs))"

lemma unique_by_hd: "unique_by f (x # xs) \<noteq> [] \<and> hd (unique_by f (x # xs)) = x"
  by (induction f "x # xs" arbitrary: x xs rule: unique_by.induct) auto

lemma unique_by_keys: "f ` set (unique_by f xs) = f ` set xs"
  by (induction f xs rule: unique_by.induct) auto

lemma unique_by_subset: "set (unique_by f xs) \<subseteq> set xs"
  by (induction f xs rule: unique_by.induct) auto

lemma unique_by_strict_sorted:
  "sorted (map f xs) \<Longrightarrow> sorted_wrt (<) (map f (unique_by f xs))"
proof (induction f xs rule: unique_by.induct)
  case (3 f x y xs)
  show ?case
  proof (cases "f x = f y")
    case False
    have "f x < f z" if "z \<in> set (unique_by f (y # xs))" for z
      using that "3.prems" False unique_by_subset [of f "y # xs"] by fastforce
    with 3 False show ?thesis by auto
  qed (use 3 in auto)
qed auto

end
