(* ===== verification/Codec.thy ===== *)
theory Codec
  imports Finalis_Prelude
begin

text \<open>
  The byte codec of \<^verbatim>\<open>src/src/codec/varint.cpp\<close>, \<^verbatim>\<open>src/src/codec/bytes.cpp\<close> and the hex
  functions of \<^verbatim>\<open>src/src/common/types.cpp\<close>.

  A \<^verbatim>\<open>ByteWriter\<close> method is the function from its argument to the bytes it appends; a
  serializer is the concatenation of what it writes. A \<^verbatim>\<open>ByteReader\<close> is the record of its
  input and its offset; a method returns \<open>None\<close> where the code returns \<^verbatim>\<open>std::nullopt\<close> (it
  then leaves the reader as it was) and otherwise the value and the reader it leaves behind.

  The locale \<open>wire_codec\<close> is the contract between a writer and its reader: reading what was
  written gives the value back and consumes exactly its bytes, and whatever the reader accepts is
  exactly what the writer produces. Every wire structure of the program is an interpretation of it.
\<close>

unbundle bit_operations_syntax

subsection \<open>varint.cpp\<close>

lemma unat_drop_bit_7: "unat (drop_bit 7 (v :: u64)) = unat v div 128"
  by (simp add: drop_bit_eq_div unat_div_distrib)

function encode_uleb128 :: "u64 \<Rightarrow> bytes" where
  "encode_uleb128 v =
     (let byte = ucast (v AND 0x7F) :: u8;
          v' = drop_bit 7 v
      in if v' \<noteq> 0 then (byte OR 0x80) # encode_uleb128 v' else [byte])"
  by pat_completeness auto
termination
proof (relation "measure unat")
  fix v :: u64 and byte :: u8 and v' :: u64
  assume "v' = drop_bit 7 v" and "v' \<noteq> 0"
  from \<open>v' \<noteq> 0\<close> have "unat v' \<noteq> 0" by (simp add: unat_eq_0)
  moreover have "unat v' = unat v div 128"
    by (simp only: \<open>v' = drop_bit 7 v\<close> unat_drop_bit_7)
  ultimately show "(v', v) \<in> measure unat" by simp
qed simp

declare encode_uleb128.simps [simp del]

function decode_loop :: "bytes \<Rightarrow> nat \<Rightarrow> bool \<Rightarrow> nat \<Rightarrow> nat \<Rightarrow> u64 \<Rightarrow> u64 option \<times> nat" where
  "decode_loop inp start minimal off shift result =
     (if off < length inp \<and> shift \<le> 63 then
        let byte = inp ! off;
            off = off + 1;
            chunk = ucast (byte AND 0x7F) :: u64
        in if shift = 63 \<and> chunk > 1 then (None, off)
           else let result = result OR push_bit shift chunk
                in if byte AND 0x80 = 0
                   then (if minimal \<and> encode_uleb128 result \<noteq> drop start (take off inp)
                         then (None, off) else (Some result, off))
                   else decode_loop inp start minimal off (shift + 7) result
      else (None, off))"
  by pat_completeness auto
termination
  by (relation "measure (\<lambda>(inp, start, minimal, off, shift, result). 64 - shift)") auto

declare decode_loop.simps [simp del]

definition decode_uleb128 :: "bytes \<Rightarrow> nat \<Rightarrow> bool \<Rightarrow> u64 option \<times> nat" where
  "decode_uleb128 inp off minimal = decode_loop inp off minimal off 0 0"

definition is_minimal_uleb128_encoding :: "bytes \<Rightarrow> bool" where
  "is_minimal_uleb128_encoding enc =
     (if enc = [] then False
      else case decode_uleb128 enc 0 False of
             (None, off) \<Rightarrow> False
           | (Some v, off) \<Rightarrow> if off \<noteq> length enc then False else encode_uleb128 v = enc)"

subsection \<open>bytes.cpp: ByteWriter\<close>

definition wr_u8 :: "u8 \<Rightarrow> bytes" where
  "wr_u8 v = [v]"

definition wr_u16le :: "u16 \<Rightarrow> bytes" where
  "wr_u16le v = [ucast (v AND 0xFF), ucast (drop_bit 8 v AND 0xFF)]"

definition wr_u32le :: "u32 \<Rightarrow> bytes" where
  "wr_u32le v = map (\<lambda>i. ucast (drop_bit (8 * i) v AND 0xFF)) [0..<4]"

definition wr_u64le :: "u64 \<Rightarrow> bytes" where
  "wr_u64le v = map (\<lambda>i. ucast (drop_bit (8 * i) v AND 0xFF)) [0..<8]"

definition wr_bytes :: "bytes \<Rightarrow> bytes" where
  "wr_bytes b = b"

definition wr_bytes_fixed :: "bytes \<Rightarrow> bytes" where
  "wr_bytes_fixed b = b"

definition wr_varint :: "u64 \<Rightarrow> bytes" where
  "wr_varint v = encode_uleb128 v"

definition wr_varbytes :: "bytes \<Rightarrow> bytes" where
  "wr_varbytes b = wr_varint (word_of_nat (length b)) @ wr_bytes b"

subsection \<open>bytes.cpp: ByteReader\<close>

record byte_reader =
  rd_in :: bytes
  rd_off :: nat

type_synonym 'a parser = "byte_reader \<Rightarrow> ('a \<times> byte_reader) option"

definition rd_u8 :: "u8 parser" where
  "rd_u8 r =
     (if rd_off r + 1 > length (rd_in r) then None
      else Some (rd_in r ! rd_off r, r\<lparr>rd_off := rd_off r + 1\<rparr>))"

definition rd_u16le :: "u16 parser" where
  "rd_u16le r =
     (if rd_off r + 2 > length (rd_in r) then None
      else Some (ucast (rd_in r ! rd_off r) OR push_bit 8 (ucast (rd_in r ! (rd_off r + 1))),
                 r\<lparr>rd_off := rd_off r + 2\<rparr>))"

definition rd_u32le :: "u32 parser" where
  "rd_u32le r =
     (if rd_off r + 4 > length (rd_in r) then None
      else Some (foldl (\<lambda>v i. v OR push_bit (8 * i) (ucast (rd_in r ! (rd_off r + i)))) 0 [0..<4],
                 r\<lparr>rd_off := rd_off r + 4\<rparr>))"

definition rd_u64le :: "u64 parser" where
  "rd_u64le r =
     (if rd_off r + 8 > length (rd_in r) then None
      else Some (foldl (\<lambda>v i. v OR push_bit (8 * i) (ucast (rd_in r ! (rd_off r + i)))) 0 [0..<8],
                 r\<lparr>rd_off := rd_off r + 8\<rparr>))"

definition rd_bytes :: "nat \<Rightarrow> bytes parser" where
  "rd_bytes n r =
     (if n > length (rd_in r) - rd_off r then None
      else Some (take n (drop (rd_off r) (rd_in r)), r\<lparr>rd_off := rd_off r + n\<rparr>))"

definition rd_bytes_fixed :: "nat \<Rightarrow> bytes parser" where
  "rd_bytes_fixed n r =
     (if rd_off r + n > length (rd_in r) then None
      else Some (map (\<lambda>i. rd_in r ! (rd_off r + i)) [0..<n], r\<lparr>rd_off := rd_off r + n\<rparr>))"

definition rd_varint :: "bool \<Rightarrow> u64 parser" where
  "rd_varint minimal r =
     (case decode_uleb128 (rd_in r) (rd_off r) minimal of
        (None, off) \<Rightarrow> None
      | (Some v, off) \<Rightarrow> Some (v, r\<lparr>rd_off := off\<rparr>))"

definition rd_varbytes :: "bytes parser" where
  "rd_varbytes r = do { (n, r) \<leftarrow> rd_varint True r; rd_bytes (unat n) r }"

definition rd_eof :: "byte_reader \<Rightarrow> bool" where
  "rd_eof r \<longleftrightarrow> rd_off r = length (rd_in r)"

definition rd_remaining :: "byte_reader \<Rightarrow> nat" where
  "rd_remaining r = length (rd_in r) - rd_off r"

definition parse_exact :: "bytes \<Rightarrow> 'a parser \<Rightarrow> 'a option" where
  "parse_exact inp fn =
     (case fn \<lparr>rd_in = inp, rd_off = 0\<rparr> of
        None \<Rightarrow> None
      | Some (x, r) \<Rightarrow> if rd_eof r then Some x else None)"

text \<open>
  The loops \<^verbatim>\<open>for (i = 0; i < n; ++i) { auto x = read(r); if (!x) return false; out.push_back(x); }\<close>
  of the parsers.
\<close>

fun rd_repeat :: "nat \<Rightarrow> 'a parser \<Rightarrow> 'a list parser" where
  "rd_repeat 0 p r = Some ([], r)"
| "rd_repeat (Suc n) p r = do { (x, r) \<leftarrow> p r; (xs, r) \<leftarrow> rd_repeat n p r; Some (x # xs, r) }"

text \<open>
  A vector on the wire is its length as a varint and then its elements. Many readers bound the length
  before they enter the loop; a reader without a bound passes the greatest 64-bit value.
\<close>

definition wr_vec :: "('a \<Rightarrow> bytes) \<Rightarrow> 'a list \<Rightarrow> bytes" where
  "wr_vec enc xs = wr_varint (word_of_nat (length xs)) @ concat (map enc xs)"

definition rd_vec :: "u64 \<Rightarrow> 'a parser \<Rightarrow> 'a list parser" where
  "rd_vec bound p r = do {
     (n, r) \<leftarrow> rd_varint True r;
     if n > bound then None else rd_repeat (unat n) p r }"

subsection \<open>types.cpp: hexadecimal strings\<close>

definition hex_encode :: "bytes \<Rightarrow> string" where
  "hex_encode d =
     concat (map (\<lambda>b. [''0123456789abcdef'' ! unat (drop_bit 4 b AND 0xF),
                        ''0123456789abcdef'' ! unat (b AND 0xF)]) d)"

definition nibble :: "char \<Rightarrow> int" where
  "nibble c =
     (let n = of_char c :: int in
      if 48 \<le> n \<and> n \<le> 57 then n - 48
      else if 97 \<le> n \<and> n \<le> 102 then n - 97 + 10
      else if 65 \<le> n \<and> n \<le> 70 then n - 65 + 10
      else - 1)"

fun hex_decode_loop :: "string \<Rightarrow> bytes option" where
  "hex_decode_loop (a # b # s) =
     (let hi = nibble a; lo = nibble b in
      if hi < 0 \<or> lo < 0 then None
      else do { out \<leftarrow> hex_decode_loop s; Some (word_of_int (push_bit 4 hi OR lo) # out) })"
| "hex_decode_loop s = Some []"

definition hex_decode :: "string \<Rightarrow> bytes option" where
  "hex_decode s = (if length s mod 2 \<noteq> 0 then None else hex_decode_loop s)"

subsection \<open>The reader in a normal form\<close>

text \<open>\<open>mk_reader pre rest\<close>: the bytes \<open>pre\<close> have been consumed and \<open>rest\<close> is left.\<close>

definition mk_reader :: "bytes \<Rightarrow> bytes \<Rightarrow> byte_reader" where
  "mk_reader pre rest = \<lparr>rd_in = pre @ rest, rd_off = length pre\<rparr>"

lemma mk_reader_sel [simp]:
  "rd_in (mk_reader pre rest) = pre @ rest" "rd_off (mk_reader pre rest) = length pre"
  by (simp_all add: mk_reader_def)

lemma rd_eof_mk_reader [simp]: "rd_eof (mk_reader pre rest) \<longleftrightarrow> rest = []"
  by (simp add: rd_eof_def)

lemma mk_reader_inject [simp]:
  "mk_reader (pre @ a) rest = mk_reader (pre @ a') rest' \<longleftrightarrow> a @ rest = a' @ rest' \<and> length a = length a'"
  by (auto simp: mk_reader_def)

lemma mk_reader_advance:
  "(mk_reader pre (a @ rest))\<lparr>rd_off := length pre + length a\<rparr> = mk_reader (pre @ a) rest"
  by (simp add: mk_reader_def)

lemma parse_exact_mk_reader:
  "parse_exact inp fn =
     (case fn (mk_reader [] inp) of None \<Rightarrow> None | Some (x, r) \<Rightarrow> if rd_eof r then Some x else None)"
  by (simp add: parse_exact_def mk_reader_def)

subsection \<open>The contract of a wire codec\<close>

locale wire_enc =
  fixes enc :: "'a \<Rightarrow> bytes"
    and dec :: "'a parser"
    and wf :: "'a \<Rightarrow> bool"
  assumes dec_enc [simp]:
    "wf x \<Longrightarrow> dec (mk_reader pre (enc x @ rest)) = Some (x, mk_reader (pre @ enc x) rest)"
begin

lemma dec_enc_last [simp]:
  "wf x \<Longrightarrow> dec (mk_reader pre (enc x)) = Some (x, mk_reader (pre @ enc x) [])"
  using dec_enc [of x pre "[]"] by simp

lemma enc_prefix_free:
  assumes "wf x" and "wf y" and "enc x @ a = enc y @ b"
  shows "x = y \<and> a = b"
proof -
  have "Some (x, mk_reader (enc x) a) = Some (y, mk_reader (enc y) b)"
    using dec_enc [OF assms(1), of "[]" a] dec_enc [OF assms(2), of "[]" b] assms(3) by simp
  then show ?thesis by (auto simp: mk_reader_def)
qed

lemma enc_inject: "wf x \<Longrightarrow> wf y \<Longrightarrow> enc x = enc y \<longleftrightarrow> x = y"
  using enc_prefix_free [of x y "[]" "[]"] by auto

lemma parse_exact_enc: "wf x \<Longrightarrow> parse_exact (enc x) dec = Some x"
  by (simp add: parse_exact_mk_reader)

lemma rd_repeat_enc [simp]:
  "\<forall>x \<in> set xs. wf x \<Longrightarrow>
   rd_repeat (length xs) dec (mk_reader pre (concat (map enc xs) @ rest))
     = Some (xs, mk_reader (pre @ concat (map enc xs)) rest)"
  by (induction xs arbitrary: pre) simp_all

lemma rd_repeat_enc_last [simp]:
  "\<forall>x \<in> set xs. wf x \<Longrightarrow>
   rd_repeat (length xs) dec (mk_reader pre (concat (map enc xs)))
     = Some (xs, mk_reader (pre @ concat (map enc xs)) [])"
  using rd_repeat_enc [of xs pre "[]"] by simp

end

locale wire_codec = wire_enc +
  assumes dec_inv:
    "dec (mk_reader pre bs) = Some (x, r) \<Longrightarrow>
     \<exists>rest. wf x \<and> bs = enc x @ rest \<and> r = mk_reader (pre @ enc x) rest"
begin

lemma dec_invE:
  assumes "dec (mk_reader pre bs) = Some (x, r)"
  obtains rest where "wf x" and "bs = enc x @ rest" and "r = mk_reader (pre @ enc x) rest"
  using dec_inv [OF assms] by blast

lemma parse_exact_inv: "parse_exact bs dec = Some x \<Longrightarrow> bs = enc x \<and> wf x"
  by (auto simp: parse_exact_mk_reader split: option.splits if_splits elim!: dec_invE)

lemma parse_exact_iff: "parse_exact bs dec = Some x \<longleftrightarrow> wf x \<and> bs = enc x"
  using parse_exact_inv parse_exact_enc by blast

lemma rd_repeat_inv:
  "rd_repeat n dec (mk_reader pre bs) = Some (xs, r) \<Longrightarrow>
   \<exists>rest. length xs = n \<and> (\<forall>x \<in> set xs. wf x) \<and> bs = concat (map enc xs) @ rest
     \<and> r = mk_reader (pre @ concat (map enc xs)) rest"
proof (induction n arbitrary: pre bs xs)
  case (Suc n)
  from Suc.prems obtain x r1 ys where x: "dec (mk_reader pre bs) = Some (x, r1)"
    and ys: "rd_repeat n dec r1 = Some (ys, r)" and xs: "xs = x # ys"
    by (auto simp: bind_eq_Some_conv)
  from x obtain rest where "wf x" and "bs = enc x @ rest" and "r1 = mk_reader (pre @ enc x) rest"
    by (rule dec_invE)
  with Suc.IH [of "pre @ enc x" rest ys] ys xs show ?case by auto
qed auto

lemma rd_repeat_invE:
  assumes "rd_repeat n dec (mk_reader pre bs) = Some (xs, r)"
  obtains rest where "length xs = n" and "\<forall>x \<in> set xs. wf x"
    and "bs = concat (map enc xs) @ rest" and "r = mk_reader (pre @ concat (map enc xs)) rest"
  using rd_repeat_inv [OF assms] by blast

end

subsection \<open>The scalar codecs\<close>

interpretation c_u8: wire_codec wr_u8 rd_u8 "\<lambda>_. True"
proof
  show "\<exists>rest. True \<and> bs = wr_u8 x @ rest \<and> r = mk_reader (pre @ wr_u8 x) rest"
    if "rd_u8 (mk_reader pre bs) = Some (x, r)" for pre bs x r
    using that by (cases bs) (auto simp: rd_u8_def wr_u8_def mk_reader_def split: if_splits)
qed (simp add: rd_u8_def wr_u8_def mk_reader_def)

lemma and_FF: "x AND 0xFF = take_bit 8 (x :: 'a::len word)"
  by (simp add: take_bit_eq_mask mask_eq_exp_minus_1)

lemma and_7F: "x AND 0x7F = take_bit 7 (x :: 'a::len word)"
  by (simp add: take_bit_eq_mask mask_eq_exp_minus_1)

text \<open>The bits of a little-endian join, for every width that is a multiple of eight.\<close>

lemma bit_le_join:
  fixes f :: "nat \<Rightarrow> u8"
  assumes "8 * k \<le> LENGTH('a::len)"
  shows "bit (foldl (\<lambda>v i. v OR push_bit (8 * i) (ucast (f i))) (0 :: 'a word) [0..<k]) n
           \<longleftrightarrow> n < 8 * k \<and> bit (f (n div 8)) (n mod 8)"
  using assms
proof (induction k)
  case (Suc k)
  have "8 * k \<le> n \<and> n < LENGTH('a) \<and> bit (f k) (n - 8 * k)
          \<longleftrightarrow> 8 * k \<le> n \<and> n < 8 * Suc k \<and> bit (f (n div 8)) (n mod 8)"
  proof (cases "8 * k \<le> n \<and> n < 8 * Suc k")
    case True
    then have "n div 8 = k" by (intro div_nat_eqI) auto
    then have "n mod 8 = n - 8 * k" by (simp add: minus_mult_div_eq_mod [symmetric] mult.commute)
    with True Suc.prems \<open>n div 8 = k\<close> show ?thesis by simp
  next
    case False
    then have "\<not> (8 * k \<le> n \<and> bit (f k) (n - 8 * k))"
      using bit_imp_le_length [of "f k" "n - 8 * k"] by auto
    with False show ?thesis by blast
  qed
  with Suc show ?case by (auto simp: bit_simps)
qed simp

definition le_bytes :: "nat \<Rightarrow> 'a::len word \<Rightarrow> bytes" where
  "le_bytes k v = map (\<lambda>i. ucast (drop_bit (8 * i) v AND 0xFF)) [0..<k]"

definition le_join :: "nat \<Rightarrow> (nat \<Rightarrow> u8) \<Rightarrow> 'a::len word" where
  "le_join k f = foldl (\<lambda>v i. v OR push_bit (8 * i) (ucast (f i))) 0 [0..<k]"

lemma length_le_bytes [simp]: "length (le_bytes k v) = k"
  by (simp add: le_bytes_def)

lemma bit_le_bytes_nth:
  "i < k \<Longrightarrow> bit (le_bytes k v ! i) m \<longleftrightarrow> m < 8 \<and> bit v (8 * i + m)"
  by (auto simp: le_bytes_def and_FF bit_simps)

lemma le_join_cong: "(\<And>i. i < k \<Longrightarrow> f i = g i) \<Longrightarrow> le_join k f = le_join k g"
  unfolding le_join_def by (rule foldl_cong) auto

lemma le_join_bytes:
  assumes "8 * k = LENGTH('a::len)"
  shows "le_join k (\<lambda>i. le_bytes k v ! i) = (v :: 'a word)"
proof (rule bit_word_eqI)
  fix n assume "n < LENGTH('a)"
  then have "n div 8 < k" using assms by auto
  then show "bit (le_join k (\<lambda>i. le_bytes k v ! i) :: 'a word) n = bit v n"
    using assms \<open>n < LENGTH('a)\<close> bit_le_join [of k "\<lambda>i. le_bytes k v ! i" n, where 'a = 'a]
    by (simp add: le_join_def bit_le_bytes_nth)
qed

lemma le_bytes_join:
  assumes "8 * k = LENGTH('a::len)"
  shows "le_bytes k (le_join k f :: 'a word) = map f [0..<k]"
proof (rule nth_equalityI)
  fix i assume "i < length (le_bytes k (le_join k f :: 'a word))"
  then have i: "i < k" by simp
  have "le_bytes k (le_join k f :: 'a word) ! i = f i"
  proof (rule bit_word_eqI)
    fix m assume "m < LENGTH(8)"
    with i assms bit_le_join [of k f "8 * i + m", where 'a = 'a]
    show "bit (le_bytes k (le_join k f :: 'a word) ! i) m = bit (f i) m"
      by (simp add: le_join_def bit_le_bytes_nth)
  qed
  with i show "le_bytes k (le_join k f :: 'a word) ! i = map f [0..<k] ! i" by simp
qed simp

text \<open>One law for the three fixed-width little-endian codecs.\<close>

lemma le_codec:
  assumes width: "8 * k = LENGTH('a::len)"
    and enc: "\<And>v. enc v = le_bytes k (v :: 'a word)"
    and dec: "\<And>r. dec r = (if rd_off r + k > length (rd_in r) then None
                else Some (le_join k (\<lambda>i. rd_in r ! (rd_off r + i)), r\<lparr>rd_off := rd_off r + k\<rparr>))"
  shows "wire_codec enc dec (\<lambda>_. True)"
proof
  fix x pre rest
  show "dec (mk_reader pre (enc x @ rest)) = Some (x, mk_reader (pre @ enc x) rest)"
    using width mk_reader_advance [of pre "le_bytes k x" rest]
      le_join_cong [of k "\<lambda>i. (le_bytes k x @ rest) ! i" "\<lambda>i. le_bytes k x ! i", where 'a = 'a]
    by (simp add: dec enc le_join_bytes nth_append)
next
  fix pre bs x r
  assume "dec (mk_reader pre bs) = Some (x, r)"
  then have k: "k \<le> length bs" and x: "x = le_join k (\<lambda>i. bs ! i)"
    and r: "r = (mk_reader pre bs)\<lparr>rd_off := length pre + k\<rparr>"
    by (auto simp: dec split: if_splits)
  have "enc x = take k bs"
    using k by (simp add: x enc le_bytes_join [OF width] list_eq_iff_nth_eq)
  with k r show "\<exists>rest. True \<and> bs = enc x @ rest \<and> r = mk_reader (pre @ enc x) rest"
    by (intro exI [of _ "drop k bs"]) (simp add: mk_reader_def)
qed

lemma wr_u16le_le: "wr_u16le v = le_bytes 2 v"
  by (simp add: wr_u16le_def le_bytes_def upt_rec)

interpretation c_u16le: wire_codec wr_u16le rd_u16le "\<lambda>_. True"
  by (rule le_codec [where k = 2]) (simp_all add: wr_u16le_le rd_u16le_def le_join_def upt_rec)

interpretation c_u32le: wire_codec wr_u32le rd_u32le "\<lambda>_. True"
  by (rule le_codec [where k = 4]) (simp_all add: wr_u32le_def le_bytes_def rd_u32le_def le_join_def)

interpretation c_u64le: wire_codec wr_u64le rd_u64le "\<lambda>_. True"
  by (rule le_codec [where k = 8]) (simp_all add: wr_u64le_def le_bytes_def rd_u64le_def le_join_def)

interpretation c_fixed: wire_codec wr_bytes_fixed "rd_bytes_fixed n" "\<lambda>b. length b = n" for n
proof
  fix x pre rest :: bytes
  assume "length x = n"
  then show "rd_bytes_fixed n (mk_reader pre (wr_bytes_fixed x @ rest))
               = Some (x, mk_reader (pre @ wr_bytes_fixed x) rest)"
    by (auto simp: rd_bytes_fixed_def wr_bytes_fixed_def mk_reader_def list_eq_iff_nth_eq nth_append)
next
  fix pre bs x r
  assume "rd_bytes_fixed n (mk_reader pre bs) = Some (x, r)"
  then have "n \<le> length bs" and "x = take n bs" and "r = (mk_reader pre bs)\<lparr>rd_off := length pre + n\<rparr>"
    by (auto simp: rd_bytes_fixed_def list_eq_iff_nth_eq split: if_splits)
  then show "\<exists>rest. length x = n \<and> bs = wr_bytes_fixed x @ rest
               \<and> r = mk_reader (pre @ wr_bytes_fixed x) rest"
    by (intro exI [of _ "drop n bs"]) (simp add: mk_reader_def wr_bytes_fixed_def)
qed

subsection \<open>Variable-length integers\<close>

lemma bit_0x80: "bit (0x80 :: 'a::len word) n \<longleftrightarrow> n = 7 \<and> 7 < LENGTH('a)"
  using bit_exp_iff [of 7 n, where 'a = "'a word"] by (auto simp: possible_bit_word)

lemma uleb_chunk_more:
  "ucast ((ucast (w AND 0x7F) OR 0x80 :: u8) AND 0x7F) = take_bit 7 (w :: u64)"
  by (rule bit_word_eqI) (auto simp: and_7F bit_simps bit_0x80)

lemma uleb_chunk_last:
  "ucast ((ucast (w AND 0x7F) :: u8) AND 0x7F) = take_bit 7 (w :: u64)"
  by (rule bit_word_eqI) (auto simp: and_7F bit_simps)

lemma uleb_more_flag: "(b OR 0x80 :: u8) AND 0x80 \<noteq> 0"
proof
  assume "(b OR 0x80 :: u8) AND 0x80 = 0"
  then have "bit ((b OR 0x80 :: u8) AND 0x80) 7 = bit (0 :: u8) 7" by (rule arg_cong)
  then show False by (simp add: bit_simps bit_0x80)
qed

lemma uleb_last_flag: "(ucast (w AND 0x7F :: u64) :: u8) AND 0x80 = 0"
proof (rule bit_word_eqI)
  fix n
  show "bit ((ucast (w AND 0x7F :: u64) :: u8) AND 0x80) n \<longleftrightarrow> bit (0 :: u8) n"
    by (cases "n = 7") (simp_all only: bit_and_iff bit_0x80 bit_unsigned_iff and_7F bit_take_bit_iff, simp_all)
qed

lemma uleb_accumulate:
  "take_bit s v OR push_bit s (take_bit 7 (drop_bit s v)) = take_bit (s + 7) (v :: u64)"
  by (rule bit_word_eqI) (auto simp: bit_simps)

lemma drop_bit_63_le: "take_bit 7 (drop_bit 63 (v :: u64)) \<le> 1"
proof -
  have "unat (drop_bit 63 v) \<le> 1"
    using less_mult_imp_div_less [of "unat v" 2 "2 ^ 63"] unat_u64_less [of v]
    by (simp add: drop_bit_eq_div unat_div_distrib)
  then show ?thesis
    using order_trans [OF take_bit_nat_less_eq_self [of 7 "unat (drop_bit 63 v)"]]
    by (simp add: word_le_nat_alt unsigned_take_bit_eq)
qed

lemma drop_bit_nonzero_less: "drop_bit n (v :: u64) \<noteq> 0 \<Longrightarrow> n < 64"
  by (rule ccontr) (auto intro!: bit_word_eqI simp: bit_simps bit_imp_le_length)

lemma decode_loop_encode:
  assumes "s \<le> 63" and "done @ encode_uleb128 (drop_bit s v) = encode_uleb128 v"
  shows "decode_loop (pre @ encode_uleb128 v @ rest) (length pre) minimal (length pre + length done) s
           (take_bit s v) = (Some v, length pre + length (encode_uleb128 v))"
  using assms
proof (induction "drop_bit s v" arbitrary: s "done" rule: encode_uleb128.induct)
  case 1
  let ?w = "drop_bit s v"
  let ?inp = "pre @ encode_uleb128 v @ rest"
  have guard: "\<not> (s = 63 \<and> take_bit 7 ?w > 1)"
    using drop_bit_63_le [of v] by auto
  have inp: "?inp = (pre @ done) @ encode_uleb128 ?w @ rest"
    using 1(3) by simp
  show ?case
  proof (cases "drop_bit 7 ?w = 0")
    case True
    have enc: "encode_uleb128 ?w = [ucast (?w AND 0x7F)]"
      using True by (simp add: encode_uleb128.simps [of ?w] Let_def)
    have byte: "(encode_uleb128 v @ rest) ! length done = ucast (?w AND 0x7F)"
      unfolding 1(3) [symmetric] enc by (simp add: nth_append)
    have v: "take_bit (s + 7) v = v"
      using True by (simp add: take_bit_eq_self_iff_drop_bit_eq_0 add.commute)
    have len: "length (encode_uleb128 v) = length done + 1"
      using 1(3) enc by (metis length_append length_Cons list.size(3) One_nat_def)
    have canon: "drop (length pre) (take (length pre + length (encode_uleb128 v)) ?inp) = encode_uleb128 v"
      by simp
    show ?thesis
      using 1(2) guard len canon
      by (subst decode_loop.simps)
         (simp add: byte Let_def uleb_chunk_last uleb_last_flag uleb_accumulate v)
  next
    case False
    have enc: "encode_uleb128 ?w = (ucast (?w AND 0x7F) OR 0x80) # encode_uleb128 (drop_bit 7 ?w)"
      using False by (simp add: encode_uleb128.simps [of ?w] Let_def)
    have byte: "(encode_uleb128 v @ rest) ! length done = ucast (?w AND 0x7F) OR 0x80"
      unfolding 1(3) [symmetric] enc by (simp add: nth_append)
    have room: "length pre + length done < length ?inp"
      using inp enc by simp
    have s: "s + 7 \<le> 63"
      using False drop_bit_nonzero_less [of "7 + s" v] by simp
    have next_w: "drop_bit 7 ?w = drop_bit (s + 7) v" by (simp add: add.commute)
    have "decode_loop ?inp (length pre) minimal (length pre + length (done @ [ucast (?w AND 0x7F) OR 0x80]))
            (s + 7) (take_bit (s + 7) v) = (Some v, length pre + length (encode_uleb128 v))"
      by (rule 1(1) [OF refl next_w [symmetric] _ s]) (use 1(3) enc next_w False in simp_all)
    with room 1(2) guard show ?thesis
      by (subst decode_loop.simps)
         (simp add: byte Let_def uleb_chunk_more uleb_more_flag uleb_accumulate)
  qed
qed

lemma decode_uleb128_encode:
  "decode_uleb128 (pre @ encode_uleb128 v @ rest) (length pre) minimal
     = (Some v, length pre + length (encode_uleb128 v))"
  using decode_loop_encode [of 0 "[]" v pre rest minimal] by (simp add: decode_uleb128_def)

lemma decode_loop_canonical:
  "decode_loop inp start True off shift result = (Some v, off') \<Longrightarrow>
   off < off' \<and> off' \<le> length inp \<and> encode_uleb128 v = drop start (take off' inp)"
proof (induction inp start True off shift result rule: decode_loop.induct)
  case (1 inp start off shift result)
  from "1.prems" show ?case
    by (subst (asm) decode_loop.simps)
       (auto simp: Let_def split: if_splits dest!: "1.hyps" [rotated -1])
qed

interpretation c_varint: wire_codec wr_varint "rd_varint True" "\<lambda>_. True"
proof
  fix x pre rest
  show "rd_varint True (mk_reader pre (wr_varint x @ rest)) = Some (x, mk_reader (pre @ wr_varint x) rest)"
    by (simp add: rd_varint_def wr_varint_def decode_uleb128_encode mk_reader_def)
next
  fix pre bs x r
  assume "rd_varint True (mk_reader pre bs) = Some (x, r)"
  then obtain off where d: "decode_uleb128 (pre @ bs) (length pre) True = (Some x, off)"
    and r: "r = (mk_reader pre bs)\<lparr>rd_off := off\<rparr>"
    by (auto simp: rd_varint_def split: prod.splits option.splits)
  from decode_loop_canonical [OF d [unfolded decode_uleb128_def]]
  have "length pre < off" and "off \<le> length pre + length bs"
    and "wr_varint x = take (off - length pre) bs"
    by (auto simp: wr_varint_def)
  with r show "\<exists>rest. True \<and> bs = wr_varint x @ rest \<and> r = mk_reader (pre @ wr_varint x) rest"
    by (intro exI [of _ "drop (off - length pre) bs"]) (simp add: mk_reader_def)
qed

interpretation c_varbytes: wire_codec wr_varbytes rd_varbytes "\<lambda>b. length b < 18446744073709551616"
proof
  fix x pre rest :: bytes
  assume "length x < 18446744073709551616"
  then show "rd_varbytes (mk_reader pre (wr_varbytes x @ rest))
               = Some (x, mk_reader (pre @ wr_varbytes x) rest)"
    using mk_reader_advance [of "pre @ wr_varint (word_of_nat (length x))" x rest]
    by (simp add: rd_varbytes_def wr_varbytes_def wr_bytes_def rd_bytes_def unat_of_nat_u64 add.assoc)
next
  fix pre bs x r
  assume "rd_varbytes (mk_reader pre bs) = Some (x, r)"
  then obtain n rest where bs: "bs = wr_varint n @ rest"
    and b: "rd_bytes (unat n) (mk_reader (pre @ wr_varint n) rest) = Some (x, r)"
    by (auto simp: rd_varbytes_def bind_eq_Some_conv elim!: c_varint.dec_invE)
  from b have le: "unat n \<le> length rest" and x: "x = take (unat n) rest"
    and r: "r = (mk_reader (pre @ wr_varint n) rest)\<lparr>rd_off := length (pre @ wr_varint n) + unat n\<rparr>"
    by (auto simp: rd_bytes_def split: if_splits)
  then have "length x = unat n" by simp
  then have "wr_varbytes x = wr_varint n @ x" by (simp add: wr_varbytes_def wr_bytes_def)
  with bs x r le show "\<exists>rest. length x < 18446744073709551616 \<and> bs = wr_varbytes x @ rest
                          \<and> r = mk_reader (pre @ wr_varbytes x) rest"
    by (intro exI [of _ "drop (unat n) rest"]) (simp add: mk_reader_def \<open>length x = unat n\<close>)
qed

subsection \<open>Vectors\<close>

context wire_codec
begin

lemma vec_codec:
  "wire_codec (wr_vec enc) (rd_vec bound dec) (\<lambda>xs. length xs \<le> unat bound \<and> (\<forall>x \<in> set xs. wf x))"
proof
  fix xs pre rest
  assume a: "length xs \<le> unat bound \<and> (\<forall>x \<in> set xs. wf x)"
  then have "length xs < 18446744073709551616" using le_less_trans [OF _ unat_u64_less] by blast
  then have "unat (word_of_nat (length xs) :: u64) = length xs" by (rule unat_of_nat_u64)
  with a show "rd_vec bound dec (mk_reader pre (wr_vec enc xs @ rest)) = Some (xs, mk_reader (pre @ wr_vec enc xs) rest)"
    using rd_repeat_enc [of xs "pre @ wr_varint (word_of_nat (length xs))" rest]
    by (simp add: rd_vec_def wr_vec_def word_less_nat_alt)
next
  fix pre bs xs r
  assume "rd_vec bound dec (mk_reader pre bs) = Some (xs, r)"
  then obtain n rest where n: "\<not> bound < n" and bs: "bs = wr_varint n @ rest"
    and xs: "rd_repeat (unat n) dec (mk_reader (pre @ wr_varint n) rest) = Some (xs, r)"
    by (auto simp: rd_vec_def bind_eq_Some_conv split: if_splits elim!: c_varint.dec_invE)
  from xs obtain rest' where "length xs = unat n" and "\<forall>x \<in> set xs. wf x"
    and "rest = concat (map enc xs) @ rest'" and "r = mk_reader ((pre @ wr_varint n) @ concat (map enc xs)) rest'"
    by (rule rd_repeat_invE)
  with n bs show "\<exists>rest. (length xs \<le> unat bound \<and> (\<forall>x \<in> set xs. wf x)) \<and> bs = wr_vec enc xs @ rest
      \<and> r = mk_reader (pre @ wr_vec enc xs) rest"
    by (auto simp: wr_vec_def word_le_nat_alt not_less)
qed

end

subsection \<open>Hexadecimal strings\<close>

lemma nibble_digit: "n < 16 \<Longrightarrow> nibble (''0123456789abcdef'' ! n) = int n"
proof -
  have "list_all (\<lambda>n. nibble (''0123456789abcdef'' ! n) = int n) [0..<16]" by code_simp
  then show "n < 16 \<Longrightarrow> nibble (''0123456789abcdef'' ! n) = int n" by (simp add: list_all_iff)
qed

lemma unat_and_F: "unat ((x :: u8) AND 0xF) < 16"
proof -
  have "x AND 0xF = take_bit 4 x" by (simp add: take_bit_eq_mask mask_eq_exp_minus_1)
  then show ?thesis by (simp add: unsigned_take_bit_eq take_bit_nat_less_exp [of 4, simplified])
qed

lemma join_nibbles:
  "word_of_int (push_bit 4 (uint (drop_bit 4 b AND 0xF)) OR uint (b AND 0xF)) = (b :: u8)"
proof -
  have F: "\<And>x :: u8. x AND 0xF = take_bit 4 x" by (simp add: take_bit_eq_mask mask_eq_exp_minus_1)
  show ?thesis by (rule bit_word_eqI) (auto simp: F bit_simps)
qed

lemma hex_decode_loop_encode: "hex_decode_loop (hex_encode d) = Some d"
proof (induction d)
  case (Cons b d)
  have "hex_encode (b # d) = ''0123456789abcdef'' ! unat (drop_bit 4 b AND 0xF)
          # ''0123456789abcdef'' ! unat (b AND 0xF) # hex_encode d"
    by (simp add: hex_encode_def)
  then show ?case
    using Cons join_nibbles [of b] by (simp only: hex_decode_loop.simps nibble_digit unat_and_F Let_def) simp
qed (simp add: hex_encode_def)

lemma length_hex_encode [simp]: "length (hex_encode d) = 2 * length d"
  by (induction d) (simp_all add: hex_encode_def)

lemma hex_decode_encode: "hex_decode (hex_encode d) = Some d"
  by (simp add: hex_decode_def hex_decode_loop_encode)

text \<open>What \<^verbatim>\<open>hex_decode\<close> accepts, and which byte each pair of digits gives.\<close>

lemma hex_decode_loop_length: "hex_decode_loop s = Some d \<Longrightarrow> even (length s) \<Longrightarrow> length s = 2 * length d"
  by (induction s arbitrary: d rule: hex_decode_loop.induct)
     (auto simp: Let_def bind_eq_Some_conv split: if_splits)

lemma hex_decode_loop_defined:
  "even (length s) \<Longrightarrow> (\<exists>d. hex_decode_loop s = Some d) \<longleftrightarrow> (\<forall>c \<in> set s. 0 \<le> nibble c)"
  by (induction s rule: hex_decode_loop.induct) (auto simp: Let_def bind_eq_Some_conv not_less)

subsection \<open>Properties of the codec\<close>

text \<open>
  C8. The strict varint reader accepts exactly the bytes the writer produces: it returns \<open>v\<close> at an
  offset if and only if the input continues there with the encoding of \<open>v\<close>, and it then consumes
  that encoding and nothing else. So every 64-bit value has one accepted encoding.
\<close>

theorem varint_strict_iff:
  "rd_varint True (mk_reader pre bs) = Some (v, r) \<longleftrightarrow>
     (\<exists>rest. bs = encode_uleb128 v @ rest \<and> r = mk_reader (pre @ encode_uleb128 v) rest)"
  using c_varint.dec_inv [of pre bs v r] c_varint.dec_enc [of pre v] by (auto simp: wr_varint_def)

text \<open>
  \<^verbatim>\<open>is_minimal_uleb128_encoding\<close> holds of exactly the byte strings that are the encoding of some
  64-bit value.
\<close>

theorem is_minimal_uleb128_encoding_iff:
  "is_minimal_uleb128_encoding enc \<longleftrightarrow> (\<exists>v. enc = encode_uleb128 v)"
proof
  assume "is_minimal_uleb128_encoding enc"
  then show "\<exists>v. enc = encode_uleb128 v"
    by (auto simp: is_minimal_uleb128_encoding_def split: if_splits prod.splits option.splits)
next
  assume "\<exists>v. enc = encode_uleb128 v"
  then obtain v where v: "enc = encode_uleb128 v" ..
  then have "enc \<noteq> []" by (simp add: encode_uleb128.simps [of v] Let_def)
  then show "is_minimal_uleb128_encoding enc"
    using decode_uleb128_encode [of "[]" v "[]" False] v by (simp add: is_minimal_uleb128_encoding_def)
qed


end
