(* ===== verification/Wide_Arith.thy ===== *)
theory Wide_Arith
  imports Finalis_Prelude
begin

text \<open>
  The 128-bit arithmetic of \<^verbatim>\<open>src/src/common/wide_arith.hpp\<close>: unsigned values and a two's
  complement accumulator on two 64-bit limbs. The consensus code does every product of amounts
  with it, so that all platforms derive the same number.

  \<open>u128_val\<close> and \<open>i128_val\<close> read a pair of limbs as a number; the lemmas show that every
  operation is the operation of \<^verbatim>\<open>unsigned __int128\<close> or \<^verbatim>\<open>__int128\<close> that the comments of the file
  promise. A division by zero traps in the source; \<^verbatim>\<open>div_u64\<close> is used and specified for a divisor
  that is not zero, and a caller whose divisor is computed tests it.
\<close>

unbundle bit_operations_syntax

subsection \<open>U128\<close>

record U128 =
  u_hi :: u64
  u_lo :: u64

definition from_u64 :: "u64 \<Rightarrow> U128" where
  "from_u64 v = \<lparr>u_hi = 0, u_lo = v\<rparr>"

definition mul_u64 :: "u64 \<Rightarrow> u64 \<Rightarrow> U128" where
  "mul_u64 a b =
     (let a_lo = a AND 0xFFFFFFFF; a_hi = drop_bit 32 a;
          b_lo = b AND 0xFFFFFFFF; b_hi = drop_bit 32 b;
          p0 = a_lo * b_lo; p1 = a_lo * b_hi; p2 = a_hi * b_lo; p3 = a_hi * b_hi;
          mid = drop_bit 32 p0 + (p1 AND 0xFFFFFFFF) + (p2 AND 0xFFFFFFFF)
      in \<lparr>u_hi = p3 + drop_bit 32 p1 + drop_bit 32 p2 + drop_bit 32 mid,
          u_lo = (p0 AND 0xFFFFFFFF) OR push_bit 32 mid\<rparr>)"

definition mul :: "U128 \<Rightarrow> u64 \<Rightarrow> U128" where
  "mul v factor =
     (let out = mul_u64 (u_lo v) factor
      in out\<lparr>u_hi := u_hi out + u_hi v * factor\<rparr>)"

definition cmp :: "U128 \<Rightarrow> U128 \<Rightarrow> int" where
  "cmp a b =
     (if u_hi a \<noteq> u_hi b then (if u_hi a < u_hi b then - 1 else 1)
      else if u_lo a \<noteq> u_lo b then (if u_lo a < u_lo b then - 1 else 1)
      else 0)"

definition fits_u64 :: "U128 \<Rightarrow> bool" where
  "fits_u64 v \<longleftrightarrow> u_hi v = 0"

text \<open>The loop of \<^verbatim>\<open>div_u64\<close> with a number of iterations left: when \<open>k + 1\<close> are left, \<^verbatim>\<open>bit\<close> is \<open>k\<close>.\<close>

fun div_loop :: "u64 \<Rightarrow> u64 \<Rightarrow> nat \<Rightarrow> u64 \<Rightarrow> u64 \<Rightarrow> u64 \<times> u64" where
  "div_loop lo divisor 0 r q = (r, q)"
| "div_loop lo divisor (Suc k) r q =
     (let carry = drop_bit 63 r \<noteq> 0;
          r = push_bit 1 r OR (drop_bit k lo AND 1);
          q = push_bit 1 q
      in if carry \<or> r \<ge> divisor then div_loop lo divisor k (r - divisor) (q OR 1)
         else div_loop lo divisor k r q)"

definition div_u64 :: "U128 \<Rightarrow> u64 \<Rightarrow> u64" where
  "div_u64 v divisor = snd (div_loop (u_lo v) divisor 64 (u_hi v mod divisor) 0)"

definition compare_mul_u64 :: "u64 \<Rightarrow> u64 \<Rightarrow> u64 \<Rightarrow> u64 \<Rightarrow> int" where
  "compare_mul_u64 a b c d = cmp (mul_u64 a b) (mul_u64 c d)"

definition compare_mul3_u64 :: "u64 \<Rightarrow> u64 \<Rightarrow> u64 \<Rightarrow> u64 \<Rightarrow> u64 \<Rightarrow> u64 \<Rightarrow> int" where
  "compare_mul3_u64 a b c x y z = cmp (mul (mul_u64 a b) c) (mul (mul_u64 x y) z)"

definition mul_div_u64 :: "u64 \<Rightarrow> u64 \<Rightarrow> u64 \<Rightarrow> u64" where
  "mul_div_u64 a b divisor = div_u64 (mul_u64 a b) divisor"

definition mul3_div_u64 :: "u64 \<Rightarrow> u64 \<Rightarrow> u64 \<Rightarrow> u64 \<Rightarrow> u64" where
  "mul3_div_u64 a b c divisor = div_u64 (mul (mul_u64 a b) c) divisor"

definition mul_u64_exceeds_u64 :: "u64 \<Rightarrow> u64 \<Rightarrow> bool" where
  "mul_u64_exceeds_u64 a b \<longleftrightarrow> \<not> fits_u64 (mul_u64 a b)"

subsection \<open>I128\<close>

record I128 =
  i_hi :: u64
  i_lo :: u64

definition i128_from_u64 :: "u64 \<Rightarrow> I128" where
  "i128_from_u64 v = \<lparr>i_hi = 0, i_lo = v\<rparr>"

text \<open>An \<^verbatim>\<open>int64_t\<close> is the 64-bit word with its two's complement bits; \<^term>\<open>sint\<close> is its value.\<close>

definition i128_from_i64 :: "u64 \<Rightarrow> I128" where
  "i128_from_i64 v = \<lparr>i_hi = if sint v < 0 then u64_max else 0, i_lo = v\<rparr>"

definition i128_add :: "I128 \<Rightarrow> I128 \<Rightarrow> I128" where
  "i128_add a b =
     (let lo = i_lo a + i_lo b
      in \<lparr>i_hi = i_hi a + i_hi b + (if lo < i_lo a then 1 else 0), i_lo = lo\<rparr>)"

definition i128_add_u64 :: "I128 \<Rightarrow> u64 \<Rightarrow> I128" where
  "i128_add_u64 a v = i128_add a (i128_from_u64 v)"

definition i128_sub_u64 :: "I128 \<Rightarrow> u64 \<Rightarrow> I128" where
  "i128_sub_u64 a v = \<lparr>i_hi = i_hi a - (if i_lo a < v then 1 else 0), i_lo = i_lo a - v\<rparr>"

definition i128_is_negative :: "I128 \<Rightarrow> bool" where
  "i128_is_negative v \<longleftrightarrow> drop_bit 63 (i_hi v) \<noteq> 0"

definition i128_fits_u64 :: "I128 \<Rightarrow> bool" where
  "i128_fits_u64 v \<longleftrightarrow> i_hi v = 0"

definition i128_fits_i64 :: "I128 \<Rightarrow> bool" where
  "i128_fits_i64 v \<longleftrightarrow>
     i_hi v = 0 \<and> i_lo v < push_bit 63 1 \<or> i_hi v = u64_max \<and> i_lo v \<ge> push_bit 63 1"

definition i128_to_u64 :: "I128 \<Rightarrow> u64" where
  "i128_to_u64 v = i_lo v"

definition i128_to_i64 :: "I128 \<Rightarrow> u64" where
  "i128_to_i64 v = i_lo v"

subsection \<open>The numbers the limbs stand for\<close>

definition u128_val :: "U128 \<Rightarrow> nat" where
  "u128_val v = unat (u_hi v) * 2 ^ 64 + unat (u_lo v)"

definition i128_val :: "I128 \<Rightarrow> int" where
  "i128_val v = sint (i_hi v) * 18446744073709551616 + uint (i_lo v)"

lemma and_mask32: "a AND 0xFFFFFFFF = take_bit 32 (a :: u64)"
  by (simp add: take_bit_eq_mask mask_eq_exp_minus_1)

lemma unat_take_bit32: "unat (take_bit 32 a :: u64) = unat a mod 4294967296"
  by (simp add: unsigned_take_bit_eq take_bit_eq_mod [of 32 "unat a"])

lemmas unat_and_mask32 = unat_take_bit32 [folded and_mask32]

lemma unat_drop_bit32: "unat (drop_bit 32 a :: u64) = unat a div 4294967296"
  by (simp add: drop_bit_eq_div unat_div_distrib)

lemma unat_low_or_high:
  "unat ((a AND 0xFFFFFFFF) OR push_bit 32 m :: u64)
     = unat a mod 4294967296 + unat m mod 4294967296 * 4294967296"
proof -
  have zero: "take_bit 32 a AND push_bit 32 m = 0"
    by (rule bit_word_eqI) (auto simp: bit_simps)
  have high: "unat (push_bit 32 m) = unat m mod 4294967296 * 4294967296"
    by (simp add: push_bit_eq_mult unat_word_ariths mult_mod_left)
  have "(a AND 0xFFFFFFFF) OR push_bit 32 m = take_bit 32 a + push_bit 32 m"
    using word_plus_and_or [of "take_bit 32 a" "push_bit 32 m"] by (simp add: and_mask32 zero)
  moreover have "unat a mod 4294967296 + unat m mod 4294967296 * 4294967296 < 18446744073709551616"
  proof -
    have "unat a mod 4294967296 < 4294967296" "unat m mod 4294967296 \<le> 4294967295" by simp_all
    then show ?thesis by linarith
  qed
  ultimately show ?thesis by (simp only: unat_add_u64 high unat_take_bit32)
qed

text \<open>Schoolbook multiplication in base \<open>2 ^ 32\<close>, on naturals.\<close>

lemma limb_mult:
  fixes x0 x1 y0 y1 B :: nat
  assumes "p0 = x0 * y0" and "p1 = x0 * y1" and "p2 = x1 * y0" and "p3 = x1 * y1" and "0 < B"
    and mid: "mid = p0 div B + p1 mod B + p2 mod B"
  shows "(x1 * B + x0) * (y1 * B + y0)
           = (p3 + p1 div B + p2 div B + mid div B) * (B * B) + (p0 mod B + mid mod B * B)"
proof -
  have up: "x * B = x div B * (B * B) + x mod B * B" for x
    by (metis div_mult_mod_eq add_mult_distrib mult.assoc)
  have "(x1 * B + x0) * (y1 * B + y0) = p3 * (B * B) + (p1 + p2) * B + p0"
    by (simp add: assms algebra_simps)
  also have "\<dots> = p3 * (B * B) + (p1 div B + p2 div B) * (B * B) + mid * B + p0 mod B"
    using up [of p1] up [of p2] by (simp add: mid add_mult_distrib)
  finally show ?thesis
    using up [of mid] by (simp add: add_mult_distrib)
qed

lemma mul_u64_val: "u128_val (mul_u64 a b) = unat a * unat b"
proof -
  let ?B = "4294967296 :: nat"
  define x0 x1 y0 y1 where defs: "x0 = unat a mod ?B" "x1 = unat a div ?B"
    "y0 = unat b mod ?B" "y1 = unat b div ?B"
  have x0: "x0 \<le> ?B - 1" and y0: "y0 \<le> ?B - 1" by (simp_all add: defs)
  have x1: "x1 \<le> ?B - 1" and y1: "y1 \<le> ?B - 1"
    using less_mult_imp_div_less [of "unat a" ?B ?B] less_mult_imp_div_less [of "unat b" ?B ?B]
    by (simp_all add: defs flip: less_Suc_eq_le)
  have small: "x * y \<le> (?B - 1) * (?B - 1)" if "x \<le> ?B - 1" "y \<le> ?B - 1" for x y
    using that by (rule mult_le_mono)
  define p0 p1 p2 p3 where p: "p0 = x0 * y0" "p1 = x0 * y1" "p2 = x1 * y0" "p3 = x1 * y1"
  have ps: "p0 \<le> (?B - 1) * (?B - 1)" "p1 \<le> (?B - 1) * (?B - 1)" "p2 \<le> (?B - 1) * (?B - 1)"
    "p3 \<le> (?B - 1) * (?B - 1)"
    unfolding p by (intro small x0 x1 y0 y1)+
  define mid where mid: "mid = p0 div ?B + p1 mod ?B + p2 mod ?B"
  have eq: "unat a * unat b
      = (p3 + p1 div ?B + p2 div ?B + mid div ?B) * (?B * ?B) + (p0 mod ?B + mid mod ?B * ?B)"
    using limb_mult [OF p _ mid] by (simp add: defs)
  have wp: "unat ((a AND 0xFFFFFFFF) * (b AND 0xFFFFFFFF)) = p0"
      "unat ((a AND 0xFFFFFFFF) * drop_bit 32 b) = p1"
      "unat (drop_bit 32 a * (b AND 0xFFFFFFFF)) = p2" "unat (drop_bit 32 a * drop_bit 32 b) = p3"
    using ps unfolding p defs
    by (simp_all add: unat_mult_u64 unat_and_mask32 unat_drop_bit32)
  have m0: "p0 div ?B \<le> ?B - 1" "p1 mod ?B \<le> ?B - 1" "p2 mod ?B \<le> ?B - 1"
    using ps by simp_all
  have h: "p1 div ?B \<le> ?B - 2" "p2 div ?B \<le> ?B - 2" "mid div ?B \<le> 2"
    using ps m0 by (simp_all add: mid)
  have wmid: "unat (drop_bit 32 ((a AND 0xFFFFFFFF) * (b AND 0xFFFFFFFF))
       + ((a AND 0xFFFFFFFF) * drop_bit 32 b AND 0xFFFFFFFF)
       + (drop_bit 32 a * (b AND 0xFFFFFFFF) AND 0xFFFFFFFF)) = mid"
    using m0 by (simp add: mid unat_add_u64 unat_and_mask32 unat_drop_bit32 wp)
  show ?thesis
    unfolding eq using ps h
    by (simp add: u128_val_def mul_u64_def Let_def unat_low_or_high unat_add_u64 unat_drop_bit32 wp wmid)
qed

lemma u128_val_less: "u128_val v < 2 ^ 128"
proof -
  have "unat (u_hi v) \<le> 18446744073709551615" "unat (u_lo v) \<le> 18446744073709551615"
    using unat_u64_less [of "u_hi v"] unat_u64_less [of "u_lo v"] by linarith+
  then show ?thesis by (simp add: u128_val_def)
qed

lemma two_limbs_mod: "lo < (B :: nat) \<Longrightarrow> (lo + B * h) mod (B * B) = B * (h mod B) + lo"
  by (simp add: mod_mult2_eq)

lemma mul_val: "u128_val (mul v factor) = u128_val v * unat factor mod 2 ^ 128"
proof -
  let ?B = "18446744073709551616 :: nat"
  let ?m = "mul_u64 (u_lo v) factor"
  have "u128_val v * unat factor = unat (u_hi v) * unat factor * ?B + u128_val ?m"
    by (simp add: mul_u64_val) (simp add: u128_val_def algebra_simps)
  also have "\<dots> = (unat (u_hi ?m) + unat (u_hi v) * unat factor) * ?B + unat (u_lo ?m)"
    by (simp add: u128_val_def algebra_simps)
  finally have eq: "u128_val v * unat factor
      = unat (u_lo ?m) + ?B * (unat (u_hi ?m) + unat (u_hi v) * unat factor)" by simp
  have "u128_val v * unat factor mod (?B * ?B)
      = ?B * ((unat (u_hi ?m) + unat (u_hi v) * unat factor) mod ?B) + unat (u_lo ?m)"
    unfolding eq by (rule two_limbs_mod) simp
  then show ?thesis
    by (simp add: mul_def Let_def u128_val_def unat_word_ariths mod_add_right_eq)
qed

lemma fits_u64_iff: "fits_u64 v \<longleftrightarrow> u128_val v < 2 ^ 64"
proof (cases "u_hi v = 0")
  case False
  then have "1 \<le> unat (u_hi v)" by (simp add: unat_gt_0 Suc_le_eq)
  with False show ?thesis by (simp add: fits_u64_def u128_val_def)
qed (simp add: fits_u64_def u128_val_def)

lemma mul_u64_exceeds_u64_iff: "mul_u64_exceeds_u64 a b \<longleftrightarrow> unat a * unat b \<ge> 2 ^ 64"
  by (auto simp: mul_u64_exceeds_u64_def fits_u64_iff mul_u64_val)

lemma two_limbs_cmp:
  fixes h l h' l' :: nat
  assumes "l < 18446744073709551616" and "l' < 18446744073709551616"
  shows "h * 18446744073709551616 + l < h' * 18446744073709551616 + l' \<longleftrightarrow> h < h' \<or> h = h' \<and> l < l'"
    and "h * 18446744073709551616 + l = h' * 18446744073709551616 + l' \<longleftrightarrow> h = h' \<and> l = l'"
  using assms by (cases h h' rule: linorder_cases; linarith)+

lemma cmp_val:
  "cmp a b = (if u128_val a < u128_val b then - 1 else if u128_val a = u128_val b then 0 else 1)"
  by (auto simp: cmp_def u128_val_def two_limbs_cmp word_less_nat_alt unat_eq_iff)

subsection \<open>Division\<close>

lemma shift_in_bit: "b = 0 \<or> b = 1 \<Longrightarrow> push_bit 1 (x :: u64) OR b = 2 * x + b"
proof -
  assume b: "b = 0 \<or> b = 1"
  have "push_bit 1 x AND b = 0"
    using b by (auto simp: and_one_eq push_bit_eq_mult even_iff_mod_2_eq_zero [symmetric])
  then show ?thesis
    using word_plus_and_or [of "push_bit 1 x" b] by (simp add: push_bit_eq_mult mult.commute)
qed

lemma carry_iff: "drop_bit 63 (r :: u64) \<noteq> 0 \<longleftrightarrow> 2 ^ 63 \<le> unat r"
proof -
  have "drop_bit 63 r = 0 \<longleftrightarrow> unat r div 2 ^ 63 = 0"
    by (simp add: unat_eq_iff drop_bit_eq_div unat_div_distrib)
  then show ?thesis by (simp add: div_eq_0_iff not_less)
qed

lemma unat_twice_plus: "unat (2 * x + b :: u64) = (2 * unat x + unat b) mod 2 ^ 64"
  by (simp add: unat_word_ariths mod_add_left_eq)

text \<open>One step of the long division: the partial remainder doubles, takes the next bit and is reduced once.\<close>

lemma div_step:
  fixes r b d :: u64
  assumes r: "unat r < unat d" and b: "b = 0 \<or> b = 1"
  defines "r1 \<equiv> push_bit 1 r OR b" and "R \<equiv> 2 * unat r + unat b"
  shows "drop_bit 63 r \<noteq> 0 \<or> r1 \<ge> d \<longleftrightarrow> unat d \<le> R"
    and "unat d \<le> R \<Longrightarrow> unat (r1 - d) = R - unat d"
    and "\<not> unat d \<le> R \<Longrightarrow> unat r1 = R"
proof -
  have b1: "unat b \<le> 1" using b by auto
  have d: "unat d < 18446744073709551616" by simp
  have r1: "unat r1 = R mod 18446744073709551616"
    using shift_in_bit [OF b] by (simp add: r1_def R_def unat_twice_plus)
  show cond: "drop_bit 63 r \<noteq> 0 \<or> r1 \<ge> d \<longleftrightarrow> unat d \<le> R"
  proof (cases "R < 18446744073709551616")
    case True
    then have "\<not> 2 ^ 63 \<le> unat r" and "unat r1 = R" by (simp_all add: R_def r1)
    then show ?thesis by (simp add: carry_iff word_le_nat_alt)
  next
    case False
    then have "2 ^ 63 \<le> unat r" using b1 unfolding R_def by simp
    moreover have "unat d \<le> R" using False d by linarith
    ultimately show ?thesis by (simp add: carry_iff)
  qed
  show "unat r1 = R" if "\<not> unat d \<le> R"
    using that d unfolding r1 by (intro mod_less) linarith
  show "unat (r1 - d) = R - unat d" if le: "unat d \<le> R"
  proof (cases "R < 18446744073709551616")
    case True
    then show ?thesis using le by (simp add: unat_sub_u64 r1)
  next
    case False
    have R2: "R < 2 * unat d" using r b1 by (simp add: R_def)
    have "R - 18446744073709551616 < 18446744073709551616" using R2 d by linarith
    then have "R mod 18446744073709551616 = R - 18446744073709551616"
      using False le_mod_geq [of 18446744073709551616 R] by (simp only: not_less mod_less)
    then have "unat r1 < unat d" and "unat r1 + 18446744073709551616 = R"
      using False R2 d r1 by linarith+
    then show ?thesis by (simp add: unat_sub_if_size size_word_def)
  qed
qed

lemma mod_power_Suc: "(n :: nat) mod 2 ^ Suc k = n div 2 ^ k mod 2 * 2 ^ k + n mod 2 ^ k"
  by (simp add: mod_mult2_eq mult.commute [of 2] add.commute)

lemma div_loop_val:
  assumes "unat r < unat d" and "unat q < 2 ^ (64 - k)" and "k \<le> 64"
  shows "unat (snd (div_loop lo d k r q)) * unat d + unat (fst (div_loop lo d k r q))
           = (unat q * unat d + unat r) * 2 ^ k + unat lo mod 2 ^ k
         \<and> unat (fst (div_loop lo d k r q)) < unat d"
  using assms
proof (induction k arbitrary: r q)
  case (Suc k)
  define b where "b = drop_bit k lo AND 1"
  have b: "b = 0 \<or> b = 1" by (simp add: b_def and_one_eq) (metis parity_cases even_iff_mod_2_eq_zero odd_iff_mod_2_eq_one)
  have ub: "unat b = unat lo div 2 ^ k mod 2"
    by (simp add: b_def and_one_eq unat_mod_distrib unat_drop_bit_eq) (simp add: drop_bit_eq_div)
  define r1 where "r1 = push_bit 1 r OR b"
  define R where "R = 2 * unat r + unat b"
  note step = div_step [OF Suc.prems(1) b, folded r1_def R_def]
  have R: "R < 2 * unat d" using Suc.prems(1) b by (auto simp: R_def)
  have q: "unat q < 2 ^ (63 - k)" using Suc.prems(2) by simp
  have q2: "2 * unat q + 1 < 2 ^ (64 - k)"
  proof -
    have "64 - k = Suc (63 - k)" using Suc.prems(3) by simp
    with q show ?thesis by simp
  qed
  have "(2 :: nat) ^ (64 - k) \<le> 2 ^ 64" by (rule power_increasing) auto
  with q2 have q64: "2 * unat q + 1 < 2 ^ 64" by linarith
  have uq: "unat (push_bit 1 q) = 2 * unat q" "unat (push_bit 1 q OR 1) = 2 * unat q + 1"
    using q64 unat_twice_plus [of q 0] unat_twice_plus [of q 1] shift_in_bit [of 0 q] shift_in_bit [of 1 q]
    by (simp_all add: mult.commute [of q])
  have eq: "(unat q * unat d + unat r) * 2 ^ Suc k + unat lo mod 2 ^ Suc k
      = ((2 * unat q) * unat d + R) * 2 ^ k + unat lo mod 2 ^ k"
    unfolding mod_power_Suc ub [symmetric] by (simp add: R_def algebra_simps)
  show ?case
  proof (cases "unat d \<le> R")
    case True
    then have "div_loop lo d (Suc k) r q = div_loop lo d k (r1 - d) (push_bit 1 q OR 1)"
      using step(1) by (simp add: Let_def r1_def b_def)
    moreover have "unat (r1 - d) = R - unat d" using step(2) True .
    moreover have "((2 * unat q + 1) * unat d + (R - unat d)) = 2 * unat q * unat d + R"
      using True by simp
    ultimately show ?thesis
      unfolding eq using Suc.IH [of "r1 - d" "push_bit 1 q OR 1", unfolded uq] R True q2 Suc.prems(3)
      by (simp del: div_loop.simps)
  next
    case False
    then have "div_loop lo d (Suc k) r q = div_loop lo d k r1 (push_bit 1 q)"
      using step(1) by (simp add: Let_def r1_def b_def)
    then show ?thesis
      unfolding eq using Suc.IH [of r1 "push_bit 1 q", unfolded uq] False q2 Suc.prems(3)
      by (simp add: step(3) del: div_loop.simps)
  qed
qed simp

lemma div_u64_val:
  assumes "d \<noteq> 0"
  shows "unat (div_u64 v d) = u128_val v div unat d mod 2 ^ 64"
proof -
  let ?h = "unat (u_hi v)" and ?l = "unat (u_lo v)" and ?d = "unat d"
  define q r where qr: "q = unat (div_u64 v d)" "r = unat (fst (div_loop (u_lo v) d 64 (u_hi v mod d) 0))"
  have "0 < ?d" using assms by (simp add: unat_gt_0)
  then have eq: "q * ?d + r = ?h mod ?d * 2 ^ 64 + ?l" and r: "r < ?d"
    using div_loop_val [of "u_hi v mod d" d 0 64 "u_lo v"]
    by (simp_all add: qr div_u64_def unat_mod_distrib del: div_loop.simps)
  have "u128_val v = (?h div ?d * ?d + ?h mod ?d) * 2 ^ 64 + ?l"
    by (simp add: u128_val_def)
  also have "\<dots> = ?h div ?d * ?d * 2 ^ 64 + (?h mod ?d * 2 ^ 64 + ?l)"
    by (simp only: add_mult_distrib add.assoc)
  also have "\<dots> = (?h div ?d * 2 ^ 64 + q) * ?d + r"
    unfolding eq [symmetric] by (simp add: algebra_simps)
  finally have "u128_val v div ?d = ?h div ?d * 2 ^ 64 + q"
    using r by simp
  then show ?thesis by (simp add: qr)
qed

lemma mul_div_u64_val:
  "d \<noteq> 0 \<Longrightarrow> unat (mul_div_u64 a b d) = unat a * unat b div unat d mod 2 ^ 64"
  by (simp add: mul_div_u64_def div_u64_val mul_u64_val)

subsection \<open>The signed accumulator\<close>

lemma uint_u64_less: "uint (a :: u64) < 18446744073709551616"
  using uint_lt2p [of a] by simp

lemma uint_u64_ge: "0 \<le> uint (a :: u64)"
  by simp

lemmas uint_u64_bounds = uint_u64_less uint_u64_ge

lemma mod_wrap: "\<exists>k. (x :: int) mod m = x + k * m"
  by (rule exI [of _ "- (x div m)"]) (simp add: minus_div_mult_eq_mod [symmetric])

lemma uint_add_wrap: "\<exists>k. uint (a + b :: u64) = uint a + uint b + k * 2 ^ 64"
  by (simp add: uint_word_ariths mod_wrap)

lemma uint_diff_wrap: "\<exists>k. uint (a - b :: u64) = uint a - uint b + k * 2 ^ 64"
  by (simp add: uint_word_ariths mod_wrap)

lemma sint_wrap: "\<exists>k. sint (a :: u64) = uint a + k * 2 ^ 64"
proof -
  have "uint a = sint a mod 2 ^ 64" by (simp add: uint_sint take_bit_eq_mod)
  then have "sint a = uint a + sint a div 2 ^ 64 * 2 ^ 64" by simp
  then show ?thesis ..
qed

lemma sint_u64_range: "- 9223372036854775808 \<le> sint (a :: u64)" "sint (a :: u64) < 9223372036854775808"
  using sint_range_size [of a] by (simp_all add: size_word_def)

lemma sint_eq_uint:
  "sint (a :: u64) = (if uint a < 9223372036854775808 then uint a else uint a - 18446744073709551616)"
proof -
  obtain k where k: "sint a = uint a + k * 18446744073709551616" using sint_wrap [of a] by auto
  note facts = k sint_u64_range [of a] uint_u64_bounds [of a]
  have "uint a < 9223372036854775808 \<Longrightarrow> k = 0" using facts by linarith
  moreover have "\<not> uint a < 9223372036854775808 \<Longrightarrow> k = - 1" using facts by linarith
  ultimately show ?thesis using k by simp
qed

lemma i128_range: "- (2 ^ 127) \<le> i128_val v" "i128_val v < 2 ^ 127"
proof -
  have "- 170141183460469231731687303715884105728 \<le> i128_val v \<and> i128_val v < 170141183460469231731687303715884105728"
    using sint_u64_range [of "i_hi v"] uint_u64_bounds [of "i_lo v"]
    unfolding i128_val_def by (intro conjI) linarith+
  then show "- (2 ^ 127) \<le> i128_val v" "i128_val v < 2 ^ 127" by simp_all
qed

text \<open>Two values of the accumulator that differ by a multiple of \<open>2 ^ 128\<close> are equal.\<close>

lemma i128_no_wrap:
  assumes "i128_val v = x + k * 2 ^ 128" and "- (2 ^ 127) \<le> x" and "x < 2 ^ 127"
  shows "i128_val v = x"
proof -
  have "k < 1" and "- 1 < k" using assms i128_range [of v] by simp_all
  then show ?thesis using assms(1) by simp
qed

lemma carry_out:
  fixes x y z k :: int
  assumes "z = x + y + k * 18446744073709551616" and "0 \<le> x" "x < 18446744073709551616"
    and "0 \<le> y" "y < 18446744073709551616" and "0 \<le> z" "z < 18446744073709551616"
  shows "(if z < x then 1 else 0) = - k"
proof (cases "z < x")
  case True
  then have "k = - 1" using assms by linarith
  with True show ?thesis by simp
next
  case False
  then have "k = 0" using assms by linarith
  with False show ?thesis by simp
qed

lemma borrow_out:
  fixes x y z k :: int
  assumes "z = x - y + k * 18446744073709551616" and "0 \<le> x" "x < 18446744073709551616"
    and "0 \<le> y" "y < 18446744073709551616" and "0 \<le> z" "z < 18446744073709551616"
  shows "(if x < y then 1 else 0) = k"
proof (cases "x < y")
  case True
  then have "k = 1" using assms by linarith
  with True show ?thesis by simp
next
  case False
  then have "k = 0" using assms by linarith
  with False show ?thesis by simp
qed

lemma i128_add_wrap: "\<exists>k. i128_val (i128_add a b) = i128_val a + i128_val b + k * 2 ^ 128"
proof -
  let ?lo = "i_lo a + i_lo b" and ?c = "if i_lo a + i_lo b < i_lo a then 1 else 0 :: u64"
  obtain k0 where k0: "uint ?lo = uint (i_lo a) + uint (i_lo b) + k0 * 2 ^ 64"
    using uint_add_wrap by blast
  have "(if uint ?lo < uint (i_lo a) then 1 else 0) = - k0"
    by (rule carry_out [OF _ uint_u64_ge uint_u64_less uint_u64_ge uint_u64_less uint_u64_ge uint_u64_less])
       (simp add: k0)
  then have c: "uint ?c = - k0" by (simp only: word_less_def split: if_splits) simp_all
  obtain kr where "sint (i_hi a + i_hi b + ?c) = uint (i_hi a + i_hi b + ?c) + kr * 2 ^ 64"
    using sint_wrap by blast
  moreover obtain k1 where "uint (i_hi a + i_hi b + ?c) = uint (i_hi a + i_hi b) + uint ?c + k1 * 2 ^ 64"
    using uint_add_wrap by blast
  moreover obtain k2 where "uint (i_hi a + i_hi b) = uint (i_hi a) + uint (i_hi b) + k2 * 2 ^ 64"
    using uint_add_wrap by blast
  moreover obtain ka where "sint (i_hi a) = uint (i_hi a) + ka * 2 ^ 64" using sint_wrap by blast
  moreover obtain kb where "sint (i_hi b) = uint (i_hi b) + kb * 2 ^ 64" using sint_wrap by blast
  ultimately have "i128_val (i128_add a b) = i128_val a + i128_val b + (k1 + k2 + kr - ka - kb) * 2 ^ 128"
    unfolding i128_val_def i128_add_def Let_def by (simp add: k0 c algebra_simps)
  then show ?thesis by blast
qed

lemma i128_sub_u64_wrap: "\<exists>k. i128_val (i128_sub_u64 a v) = i128_val a - uint v + k * 2 ^ 128"
proof -
  let ?b = "if i_lo a < v then 1 else 0 :: u64"
  obtain k0 where k0: "uint (i_lo a - v) = uint (i_lo a) - uint v + k0 * 2 ^ 64"
    using uint_diff_wrap by blast
  have "(if uint (i_lo a) < uint v then 1 else 0) = k0"
    by (rule borrow_out [OF _ uint_u64_ge uint_u64_less uint_u64_ge uint_u64_less
          uint_u64_ge [of "i_lo a - v"] uint_u64_less])
       (simp add: k0)
  then have b: "uint ?b = k0" by (simp only: word_less_def split: if_splits) simp_all
  obtain kr where "sint (i_hi a - ?b) = uint (i_hi a - ?b) + kr * 2 ^ 64"
    using sint_wrap by blast
  moreover obtain k1 where "uint (i_hi a - ?b) = uint (i_hi a) - uint ?b + k1 * 2 ^ 64"
    using uint_diff_wrap by blast
  moreover obtain ka where "sint (i_hi a) = uint (i_hi a) + ka * 2 ^ 64" using sint_wrap by blast
  ultimately have "i128_val (i128_sub_u64 a v) = i128_val a - uint v + (k1 + kr - ka) * 2 ^ 128"
    unfolding i128_val_def i128_sub_u64_def by (simp add: k0 b algebra_simps)
  then show ?thesis by blast
qed

lemma i128_val_from_u64 [simp]: "i128_val (i128_from_u64 v) = uint v"
  by (simp add: i128_val_def i128_from_u64_def)

lemma uint_u64_max: "uint u64_max = 18446744073709551615"
  by (simp add: unsigned_minus_1_eq_mask mask_eq_exp_minus_1)

lemma i128_val_from_i64 [simp]: "i128_val (i128_from_i64 v) = sint v"
  using uint_u64_bounds [of v]
  by (simp add: i128_val_def i128_from_i64_def sint_eq_uint uint_u64_max)

lemma i128_add_val:
  "- (2 ^ 127) \<le> i128_val a + i128_val b \<Longrightarrow> i128_val a + i128_val b < 2 ^ 127 \<Longrightarrow>
   i128_val (i128_add a b) = i128_val a + i128_val b"
  using i128_add_wrap [of a b] i128_no_wrap [of "i128_add a b" "i128_val a + i128_val b"] by blast

lemma i128_add_u64_val:
  "i128_val a + uint v < 2 ^ 127 \<Longrightarrow> i128_val (i128_add_u64 a v) = i128_val a + uint v"
  unfolding i128_add_u64_def
  using i128_add_val [of a "i128_from_u64 v"] i128_range(1) [of a] add_increasing2 [OF uint_u64_ge [of v]] by simp

lemma i128_sub_u64_val:
  "- (2 ^ 127) \<le> i128_val a - uint v \<Longrightarrow> i128_val (i128_sub_u64 a v) = i128_val a - uint v"
proof -
  assume le: "- (2 ^ 127) \<le> i128_val a - uint v"
  have "i128_val a - uint v < 2 ^ 127"
    using i128_range(2) [of a] uint_u64_ge [of v] by linarith
  with le show ?thesis
    using i128_sub_u64_wrap [of a v] i128_no_wrap [of "i128_sub_u64 a v"] by blast
qed

lemma limb_cases:
  fixes h l :: int
  assumes "l < 18446744073709551616" and "0 \<le> l"
  shows "0 \<le> h * 18446744073709551616 + l \<and> h * 18446744073709551616 + l < 18446744073709551616 \<longleftrightarrow> h = 0"
    and "- 9223372036854775808 \<le> h * 18446744073709551616 + l \<and> h * 18446744073709551616 + l < 9223372036854775808
      \<longleftrightarrow> h = 0 \<and> l < 9223372036854775808 \<or> h = - 1 \<and> 9223372036854775808 \<le> l"
    and "h * 18446744073709551616 + l < 0 \<longleftrightarrow> h < 0"
  using assms by (auto; linarith)+

lemma sint_neg_iff: "sint (a :: u64) < 0 \<longleftrightarrow> 2 ^ 63 \<le> unat a"
proof -
  have "(2 :: nat) ^ 63 = 9223372036854775808" by simp
  then have "2 ^ 63 \<le> unat a \<longleftrightarrow> \<not> uint a < 9223372036854775808"
    unfolding uint_nat by (simp only:) (rule iffI; linarith)
  moreover have "sint a < 0 \<longleftrightarrow> \<not> uint a < 9223372036854775808"
    using sint_eq_uint [of a] uint_u64_bounds [of a]
    by (cases "uint a < 9223372036854775808") simp_all
  ultimately show ?thesis by simp
qed

lemma i128_is_negative_iff: "i128_is_negative v \<longleftrightarrow> i128_val v < 0"
  unfolding i128_is_negative_def carry_iff i128_val_def limb_cases(3) [OF uint_u64_bounds]
  by (rule sint_neg_iff [symmetric])

lemma sint_eq_0_iff: "sint (a :: u64) = 0 \<longleftrightarrow> a = 0" and sint_eq_m1_iff: "sint (a :: u64) = - 1 \<longleftrightarrow> a = u64_max"
  using signed_word_eqI [of a 0] signed_word_eqI [of a u64_max] by (auto simp: sint_n1)

lemma i128_fits_u64_iff: "i128_fits_u64 v \<longleftrightarrow> 0 \<le> i128_val v \<and> i128_val v < 2 ^ 64"
proof -
  have "0 \<le> i128_val v \<and> i128_val v < 18446744073709551616 \<longleftrightarrow> sint (i_hi v) = 0"
    unfolding i128_val_def by (rule limb_cases(1) [OF uint_u64_bounds])
  then show ?thesis by (simp add: i128_fits_u64_def sint_eq_0_iff)
qed

lemma i128_to_u64_val: "i128_fits_u64 v \<Longrightarrow> uint (i128_to_u64 v) = i128_val v"
  by (simp add: i128_fits_u64_def i128_to_u64_def i128_val_def)

lemma i128_fits_i64_iff: "i128_fits_i64 v \<longleftrightarrow> - (2 ^ 63) \<le> i128_val v \<and> i128_val v < 2 ^ 63"
proof -
  have "- 9223372036854775808 \<le> i128_val v \<and> i128_val v < 9223372036854775808 \<longleftrightarrow>
      sint (i_hi v) = 0 \<and> uint (i_lo v) < 9223372036854775808
      \<or> sint (i_hi v) = - 1 \<and> 9223372036854775808 \<le> uint (i_lo v)"
    unfolding i128_val_def by (rule limb_cases(2) [OF uint_u64_bounds])
  then show ?thesis
    by (simp add: i128_fits_i64_def sint_eq_0_iff sint_eq_m1_iff word_less_def word_le_def push_bit_eq_mult)
qed

lemma i128_to_i64_val: "i128_fits_i64 v \<Longrightarrow> sint (i128_to_i64 v) = i128_val v"
  by (auto simp: i128_fits_i64_def i128_to_i64_def i128_val_def sint_eq_uint [of "i_lo v"] sint_n1 word_less_def
      word_le_def push_bit_eq_mult)

subsection \<open>Properties of the 128-bit arithmetic\<close>

text \<open>
  C10. \<^verbatim>\<open>mul_div_u64\<close> is exact: for a divisor that is not zero it is the low 64 bits of the quotient of
  the full 128-bit product, for all inputs. The three-factor form works modulo \<open>2 ^ 128\<close> as the
  comment of \<^verbatim>\<open>mul\<close> says.
\<close>

theorem mul_div_exact:
  assumes "d \<noteq> 0"
  shows "unat (mul_div_u64 a b d) = unat a * unat b div unat d mod 2 ^ 64
    \<and> unat (mul3_div_u64 a b c d) = (unat a * unat b * unat c mod 2 ^ 128) div unat d mod 2 ^ 64"
  using assms by (simp add: mul_div_u64_val mul3_div_u64_def div_u64_val mul_val mul_u64_val)

lemma mul_div_exact_witness:
  "unat (mul_div_u64 700000000000000 48828125 227013671) = 700000000000000 * 48828125 div 227013671"
  using mul_div_exact [of 227013671 700000000000000 48828125 0] by simp

text \<open>
  The comparisons of products order them as the exact integers, and \<^verbatim>\<open>mul_u64_exceeds_u64\<close> tells
  exactly the products that do not fit 64 bits.
\<close>

theorem compare_mul_exact:
  "compare_mul_u64 a b c d
     = (if unat a * unat b < unat c * unat d then - 1 else if unat a * unat b = unat c * unat d then 0 else 1)
   \<and> (mul_u64_exceeds_u64 a b \<longleftrightarrow> unat (a * b) \<noteq> unat a * unat b)"
proof -
  have "unat (a * b) \<noteq> unat a * unat b \<longleftrightarrow> 2 ^ 64 \<le> unat a * unat b"
  proof (cases "unat a * unat b < 18446744073709551616")
    case True
    then show ?thesis by (simp add: unat_mult_u64)
  next
    case False
    with unat_u64_less [of "a * b"] have "unat (a * b) \<noteq> unat a * unat b" by linarith
    with False show ?thesis by simp
  qed
  then show ?thesis
    by (simp add: compare_mul_u64_def cmp_val mul_u64_val mul_u64_exceeds_u64_iff)
qed

text \<open>
  C11. The signed accumulator adds and subtracts 64-bit amounts exactly while the result stays in the
  range of a signed 128-bit integer, and its range tests read the exact value: \<^verbatim>\<open>is_negative\<close>,
  \<^verbatim>\<open>fits_u64\<close> and \<^verbatim>\<open>fits_i64\<close>, with the conversions exact where they hold.
\<close>

theorem i128_accumulator_exact:
  assumes "- (2 ^ 127) \<le> i128_val a - uint v" and "i128_val a + uint v < 2 ^ 127"
  shows "i128_val (i128_add_u64 a v) = i128_val a + uint v
    \<and> i128_val (i128_sub_u64 a v) = i128_val a - uint v
    \<and> (i128_is_negative a \<longleftrightarrow> i128_val a < 0)
    \<and> (i128_fits_u64 a \<longleftrightarrow> i128_val a = uint (i128_to_u64 a))
    \<and> (i128_fits_i64 a \<longleftrightarrow> i128_val a = sint (i128_to_i64 a))"
proof (intro conjI)
  show "i128_fits_u64 a \<longleftrightarrow> i128_val a = uint (i128_to_u64 a)"
    using i128_to_u64_val [of a] i128_fits_u64_iff [of a] uint_u64_bounds [of "i128_to_u64 a"] by auto
  show "i128_fits_i64 a \<longleftrightarrow> i128_val a = sint (i128_to_i64 a)"
    using i128_to_i64_val [of a] i128_fits_i64_iff [of a] sint_u64_range [of "i128_to_i64 a"] by auto
qed (use assms i128_add_u64_val i128_sub_u64_val i128_is_negative_iff in auto)

lemma i128_accumulator_exact_witness:
  "i128_val (i128_sub_u64 (i128_from_u64 5) 7) = - 2"
  using i128_accumulator_exact [of "i128_from_u64 5" 7] by simp

end
