(* ===== verification/Network.thy ===== *)
theory Network
  imports Finalis_Prelude
begin

text \<open>
  The network parameters of \<^verbatim>\<open>src/src/common/network.hpp\<close> and \<^verbatim>\<open>src/src/common/network.cpp\<close>: the two
  configuration structures, the mainnet instance, the choice of the economics policy in force at a
  height, the activation tests and the round timeout with its back-off.

  A configuration without any economics policy makes \<^verbatim>\<open>active_economics_policy\<close> dereference a null
  pointer; the model returns \<open>None\<close> there, and the mainnet configuration is shown never to reach it.
\<close>

definition BOND_AMOUNT :: u64 where "BOND_AMOUNT = 5000000000"

record EconomicsConfig =
  ec_activation_height :: u64
  ec_target_validators :: u64
  ec_base_min_bond :: u64
  ec_min_bond_floor :: u64
  ec_min_bond_ceiling :: u64
  ec_max_effective_bond_multiple :: u64
  ec_participation_threshold_bps :: u32
  ec_ticket_bonus_cap_bps :: u32

record NetworkConfig =
  nc_name :: string
  nc_network_id :: bytes
  nc_magic :: u32
  nc_protocol_version :: u16
  nc_feature_flags :: u64
  nc_p2p_default_port :: u16
  nc_lightserver_default_port :: u16
  nc_max_committee :: nat
  nc_committee_epoch_blocks :: u64
  nc_round_timeout_ms :: u32
  nc_max_round_timeout_ms :: u32
  nc_round_timeout_backoff_num :: u32
  nc_round_timeout_backoff_den :: u32
  nc_min_block_interval_ms :: u32
  nc_max_payload_len :: nat
  nc_bond_amount :: u64
  nc_warmup_blocks :: u64
  nc_unbond_delay_blocks :: u64
  nc_validator_min_bond :: u64
  nc_validator_bond_min_amount :: u64
  nc_validator_bond_max_amount :: u64
  nc_validator_warmup_blocks :: u64
  nc_validator_cooldown_blocks :: u64
  nc_validator_join_limit_window_blocks :: u64
  nc_validator_join_limit_max_new :: u32
  nc_liveness_window_blocks :: u64
  nc_miss_rate_suspend_threshold_percent :: u32
  nc_miss_rate_exit_threshold_percent :: u32
  nc_suspend_duration_blocks :: u64
  nc_onboarding_admission_pow_difficulty_bits :: u32
  nc_validator_join_admission_pow_difficulty_bits :: u32
  nc_finality_binding_activation_height :: u64
  nc_availability_recovery_activation_height :: u64
  nc_deferred_exit_activation_height :: u64
  nc_bootstrap_penalty_exit_protection_activation_height :: u64
  nc_empty_active_set_epoch_escape_activation_height :: u64
  nc_default_seeds :: "string list"
  nc_economics_policies :: "EconomicsConfig list"

definition kCoin :: u64 where "kCoin = 100000000"
definition kValidatorBondMaxAmount :: u64 where "kValidatorBondMaxAmount = BOND_AMOUNT * 100"

definition mainnet_economics :: EconomicsConfig where
  "mainnet_economics =
     \<lparr>ec_activation_height = 0,
      ec_target_validators = 16,
      ec_base_min_bond = 150 * kCoin,
      ec_min_bond_floor = 150 * kCoin,
      ec_min_bond_ceiling = kValidatorBondMaxAmount,
      ec_max_effective_bond_multiple = 10,
      ec_participation_threshold_bps = 8000,
      ec_ticket_bonus_cap_bps = 1000\<rparr>"

definition mainnet_network :: NetworkConfig where
  "mainnet_network =
     \<lparr>nc_name = ''mainnet'',
      nc_network_id = [0xfe, 0x56, 0x19, 0x11, 0x73, 0x09, 0x12, 0xcc, 0xed, 0x1e, 0x83, 0xbc, 0x27, 0x3f, 0xab, 0x13],
      nc_magic = 0x499602D2,
      nc_protocol_version = 1,
      nc_feature_flags = 1,
      nc_p2p_default_port = 19440,
      nc_lightserver_default_port = 19444,
      nc_max_committee = 128,
      nc_committee_epoch_blocks = 32,
      nc_round_timeout_ms = 30000,
      nc_max_round_timeout_ms = 300000,
      nc_round_timeout_backoff_num = 3,
      nc_round_timeout_backoff_den = 2,
      nc_min_block_interval_ms = 180000,
      nc_max_payload_len = 8 * 1024 * 1024,
      nc_bond_amount = BOND_AMOUNT,
      nc_warmup_blocks = 100,
      nc_unbond_delay_blocks = 3360,
      nc_validator_min_bond = BOND_AMOUNT,
      nc_validator_bond_min_amount = BOND_AMOUNT,
      nc_validator_bond_max_amount = kValidatorBondMaxAmount,
      nc_validator_warmup_blocks = 100,
      nc_validator_cooldown_blocks = 100,
      nc_validator_join_limit_window_blocks = 1000,
      nc_validator_join_limit_max_new = 64,
      nc_liveness_window_blocks = 10000,
      nc_miss_rate_suspend_threshold_percent = 30,
      nc_miss_rate_exit_threshold_percent = 60,
      nc_suspend_duration_blocks = 1000,
      nc_onboarding_admission_pow_difficulty_bits = 20,
      nc_validator_join_admission_pow_difficulty_bits = 22,
      nc_finality_binding_activation_height = 0,
      nc_availability_recovery_activation_height = 0,
      nc_deferred_exit_activation_height = 0,
      nc_bootstrap_penalty_exit_protection_activation_height = 0,
      nc_empty_active_set_epoch_escape_activation_height = 0,
      nc_default_seeds = [],
      nc_economics_policies = [mainnet_economics]\<rparr>"

text \<open>\<^verbatim>\<open>make_testnet\<close>; the network id is the first half of the hash of \<^verbatim>\<open>finalis:testnet\<close>.\<close>

definition network_id_for_name :: "(bytes \<Rightarrow> hash32) \<Rightarrow> string \<Rightarrow> bytes" where
  "network_id_for_name sha256 name = take 16 (sha256 (ascii (''finalis:'' @ name)))"

definition make_testnet :: "(bytes \<Rightarrow> hash32) \<Rightarrow> NetworkConfig" where
  "make_testnet sha256 =
     mainnet_network\<lparr>nc_name := ''testnet'',
                     nc_network_id := network_id_for_name sha256 ''testnet'',
                     nc_magic := 0x54534331,
                     nc_p2p_default_port := 19540,
                     nc_lightserver_default_port := 19544,
                     nc_default_seeds := [''130.61.126.39:19540'', ''159.200.236.114:19540'']\<rparr>"

definition is_testnet_name :: "string \<Rightarrow> bool" where
  "is_testnet_name name \<longleftrightarrow> name = ''testnet'' \<or> name = ''tsc''"

definition network_by_name :: "(bytes \<Rightarrow> hash32) \<Rightarrow> string \<Rightarrow> NetworkConfig" where
  "network_by_name sha256 name = (if is_testnet_name name then make_testnet sha256 else mainnet_network)"

text \<open>The loop of \<^verbatim>\<open>round_timeout_ms_for_round\<close> with \<open>n\<close> rounds left.\<close>

fun timeout_loop :: "u64 \<Rightarrow> u64 \<Rightarrow> u64 \<Rightarrow> nat \<Rightarrow> u64 \<Rightarrow> u64" where
  "timeout_loop cap num den 0 timeout = timeout"
| "timeout_loop cap num den (Suc n) timeout =
     (if timeout < cap then timeout_loop cap num den n (max (timeout + 1) (timeout * num div den))
      else timeout)"

definition round_timeout_ms_for_round :: "NetworkConfig \<Rightarrow> u32 \<Rightarrow> u64" where
  "round_timeout_ms_for_round network round =
     (let base = max 1 (ucast (nc_round_timeout_ms network)) :: u64;
          cap = max base (ucast (nc_max_round_timeout_ms network)) :: u64;
          num = ucast (nc_round_timeout_backoff_num network) :: u64;
          den = max 1 (ucast (nc_round_timeout_backoff_den network)) :: u64
      in if num \<le> den then base
         else min (timeout_loop cap num den (unat round) base) cap)"

text \<open>The policies are scanned in order up to the first one that is not active yet.\<close>

fun scan_policies :: "u64 \<Rightarrow> EconomicsConfig list \<Rightarrow> EconomicsConfig option \<Rightarrow> EconomicsConfig option" where
  "scan_policies height [] active = active"
| "scan_policies height (cfg # cfgs) active =
     (if ec_activation_height cfg > height then active else scan_policies height cfgs (Some cfg))"

definition active_economics_policy :: "NetworkConfig \<Rightarrow> u64 \<Rightarrow> EconomicsConfig option" where
  "active_economics_policy network height =
     (let policies = nc_economics_policies network;
          active = (if policies = [] then None else Some (hd policies))
      in scan_policies height policies active)"

definition finality_binding_active_at_height :: "NetworkConfig \<Rightarrow> u64 \<Rightarrow> bool" where
  "finality_binding_active_at_height network height \<longleftrightarrow> height > nc_finality_binding_activation_height network"

definition availability_recovery_active_at_height :: "NetworkConfig \<Rightarrow> u64 \<Rightarrow> bool" where
  "availability_recovery_active_at_height network height \<longleftrightarrow>
     height \<ge> nc_availability_recovery_activation_height network"

definition bootstrap_penalty_exit_protection_active_at_height :: "NetworkConfig \<Rightarrow> u64 \<Rightarrow> bool" where
  "bootstrap_penalty_exit_protection_active_at_height network height \<longleftrightarrow>
     height \<ge> nc_bootstrap_penalty_exit_protection_activation_height network"

definition empty_active_set_epoch_escape_active_at_height :: "NetworkConfig \<Rightarrow> u64 \<Rightarrow> bool" where
  "empty_active_set_epoch_escape_active_at_height network height \<longleftrightarrow>
     height \<ge> nc_empty_active_set_epoch_escape_activation_height network"

definition onboarding_admission_pow_enabled :: "NetworkConfig \<Rightarrow> bool" where
  "onboarding_admission_pow_enabled network \<longleftrightarrow> nc_onboarding_admission_pow_difficulty_bits network \<noteq> 0"

definition validator_join_admission_pow_enabled :: "NetworkConfig \<Rightarrow> bool" where
  "validator_join_admission_pow_enabled network \<longleftrightarrow> nc_validator_join_admission_pow_difficulty_bits network \<noteq> 0"

subsection \<open>The round timeout\<close>

lemma active_economics_policy_mainnet [simp]: "active_economics_policy mainnet_network h = Some mainnet_economics"
  by (simp add: active_economics_policy_def mainnet_network_def mainnet_economics_def Let_def)

lemma timeout_step:
  fixes timeout cap num den :: u64
  assumes "timeout < cap" and "unat cap < 4294967296" and "unat num < 4294967296"
  shows "unat timeout + 1 \<le> unat (max (timeout + 1) (timeout * num div den))"
proof -
  have "unat timeout < unat cap" using assms(1) by (simp add: word_less_nat_alt)
  then have "unat (timeout + 1) = unat timeout + 1"
    using assms(2) unat_add_u64 [of timeout 1] by simp
  then show ?thesis by (simp add: unat_max_u64)
qed

lemma timeout_loop_add:
  "timeout_loop cap num den (m + n) t = timeout_loop cap num den n (timeout_loop cap num den m t)"
proof (induction m arbitrary: t)
  case (Suc m)
  have "\<not> t < cap \<Longrightarrow> timeout_loop cap num den n t = t" by (cases n) auto
  with Suc show ?case by simp
qed simp

lemma timeout_loop_grows:
  assumes "unat cap < 4294967296" and "unat num < 4294967296"
  shows "min (unat cap) (unat t + n) \<le> unat (timeout_loop cap num den n t)
    \<and> unat t \<le> unat (timeout_loop cap num den n t)"
proof (induction n arbitrary: t)
  case (Suc n)
  let ?t' = "max (t + 1) (t * num div den)"
  have "t < cap \<Longrightarrow> unat t + 1 \<le> unat ?t'" using timeout_step assms by blast
  then show ?case
    using Suc.IH [of ?t'] by (auto simp: not_less word_le_nat_alt)
qed auto

text \<open>
  C12. The timeout of a round lies between the base and the cap of the configuration, never decreases
  from one round to the next, and (when the back-off is on) has reached the cap after at most
  \<open>cap - base\<close> rounds, so that rounds outlast every bounded delay below the cap.
\<close>

theorem round_timeout_bounds:
  fixes network :: NetworkConfig
  defines "base \<equiv> max 1 (unat (nc_round_timeout_ms network))"
    and "cap \<equiv> max (max 1 (unat (nc_round_timeout_ms network))) (unat (nc_max_round_timeout_ms network))"
  assumes order: "r \<le> r'"
  shows "base \<le> unat (round_timeout_ms_for_round network r)
    \<and> unat (round_timeout_ms_for_round network r) \<le> cap
    \<and> round_timeout_ms_for_round network r \<le> round_timeout_ms_for_round network r'
    \<and> (nc_round_timeout_backoff_num network > max 1 (nc_round_timeout_backoff_den network)
       \<and> cap - base \<le> unat r \<longrightarrow> unat (round_timeout_ms_for_round network r) = cap)"
proof -
  define b c n d where defs: "b = (max 1 (ucast (nc_round_timeout_ms network)) :: u64)"
    "c = (max b (ucast (nc_max_round_timeout_ms network)) :: u64)"
    "n = (ucast (nc_round_timeout_backoff_num network) :: u64)"
    "d = (max 1 (ucast (nc_round_timeout_backoff_den network)) :: u64)"
  have ub: "unat b = base" and ucap: "unat c = cap" and un: "unat n = unat (nc_round_timeout_backoff_num network)"
    and ud: "unat d = max 1 (unat (nc_round_timeout_backoff_den network))"
    by (simp_all add: defs base_def cap_def unat_max_u64 unat_ucast_u32_u64)
  have small: "unat c < 4294967296" "unat n < 4294967296"
    using unat_u32_less by (simp_all add: un ucap cap_def)
  let ?t = "\<lambda>k. timeout_loop c n d k b"
  have t: "round_timeout_ms_for_round network x = (if n \<le> d then b else min (?t (unat x)) c)" for x
    by (simp add: round_timeout_ms_for_round_def Let_def defs)
  have bc: "base \<le> cap" by (simp add: base_def cap_def)
  have le: "unat r \<le> unat r'" using order by (simp add: word_le_nat_alt)
  have grow: "unat (?t (unat r)) \<le> unat (?t (unat r'))"
    using timeout_loop_add [of c n d "unat r" "unat r' - unat r" b] timeout_loop_grows [OF small] le by simp
  have lower: "min (unat c) (unat b + k) \<le> unat (?t k)" "unat b \<le> unat (?t k)" for k
    using timeout_loop_grows [OF small] by auto
  show ?thesis
  proof (cases "n \<le> d")
    case True
    then have "\<not> max 1 (nc_round_timeout_backoff_den network) < nc_round_timeout_backoff_num network"
      by (auto simp: word_le_nat_alt word_less_nat_alt un ud max_def split: if_splits)
    with True bc show ?thesis by (auto simp: t ub)
  next
    case False
    with lower [of "unat r"] grow bc show ?thesis
      by (auto simp: t unat_min_u64 ub ucap word_le_nat_alt)
  qed
qed

lemma round_timeout_bounds_witness: "round_timeout_ms_for_round mainnet_network 1 = 45000
    \<and> unat (round_timeout_ms_for_round mainnet_network 0) \<le> 300000"
proof -
  have "unat (round_timeout_ms_for_round mainnet_network 0) \<le> 300000"
    using round_timeout_bounds [of 0 1 mainnet_network] by (simp add: mainnet_network_def)
  moreover have "round_timeout_ms_for_round mainnet_network 1 = 45000"
    by (simp add: round_timeout_ms_for_round_def mainnet_network_def Let_def)
  ultimately show ?thesis by simp
qed

end
