(* ===== verification/Monetary.thy ===== *)
theory Monetary
  imports Wide_Arith Network
begin

text \<open>
  The monetary policy of \<^verbatim>\<open>src/src/consensus/monetary.cpp\<close>: the emission curve and its closed-form
  total, the reserve, the base fee, the adaptive minimum bond and validator weights. Amounts are
  64-bit words and wrap as in the source. The division of a pool of units among participants is in
  the theory \<open>Payouts\<close>.
\<close>

subsection \<open>Constants of monetary.hpp\<close>

definition TOTAL_SUPPLY_UNITS :: u64 where "TOTAL_SUPPLY_UNITS = 7000000 * 100000000"
definition BLOCKS_PER_YEAR_365 :: u64 where "BLOCKS_PER_YEAR_365 = 175200"
definition EMISSION_YEARS :: u64 where "EMISSION_YEARS = 12"
definition EMISSION_BLOCKS :: u64 where "EMISSION_BLOCKS = EMISSION_YEARS * BLOCKS_PER_YEAR_365"
definition EMISSION_DECAY_NUM :: u64 where "EMISSION_DECAY_NUM = 4"
definition EMISSION_DECAY_DEN :: u64 where "EMISSION_DECAY_DEN = 5"
definition RESERVE_ACCRUAL_BPS :: u64 where "RESERVE_ACCRUAL_BPS = 3000"
definition FEE_RESERVE_BPS :: u64 where "FEE_RESERVE_BPS = 5000"
definition RESERVE_PAYOUT_BPS_PER_YEAR :: u64 where "RESERVE_PAYOUT_BPS_PER_YEAR = 500"
definition EPOCHS_PER_YEAR_365 :: u64 where "EPOCHS_PER_YEAR_365 = BLOCKS_PER_YEAR_365 div 32"
definition ONBOARDING_REWARD_BPS :: u64 where "ONBOARDING_REWARD_BPS = 300"
definition MIN_BOND_SUPPLY_DIVISOR :: u64 where "MIN_BOND_SUPPLY_DIVISOR = 12800"
definition MIN_BOND_VALIDATOR_COUNT_CAP :: u64 where "MIN_BOND_VALIDATOR_COUNT_CAP = 512"
definition BASE_FEE_MIN_PER_KIB :: u64 where "BASE_FEE_MIN_PER_KIB = 0"
definition BASE_FEE_MAX_PER_KIB :: u64 where "BASE_FEE_MAX_PER_KIB = 1000000000000"
definition BASE_FEE_TARGET_FULLNESS_PPM :: u64 where "BASE_FEE_TARGET_FULLNESS_PPM = 500000"

lemmas monetary_consts = TOTAL_SUPPLY_UNITS_def BLOCKS_PER_YEAR_365_def EMISSION_YEARS_def
  EMISSION_BLOCKS_def EMISSION_DECAY_NUM_def EMISSION_DECAY_DEN_def RESERVE_ACCRUAL_BPS_def
  FEE_RESERVE_BPS_def RESERVE_PAYOUT_BPS_PER_YEAR_def EPOCHS_PER_YEAR_365_def ONBOARDING_REWARD_BPS_def
  MIN_BOND_SUPPLY_DIVISOR_def MIN_BOND_VALIDATOR_COUNT_CAP_def BASE_FEE_MIN_PER_KIB_def
  BASE_FEE_MAX_PER_KIB_def BASE_FEE_TARGET_FULLNESS_PPM_def

subsection \<open>Emission\<close>

definition clamp_u64 :: "u64 \<Rightarrow> u64 \<Rightarrow> u64 \<Rightarrow> u64" where
  "clamp_u64 v lo hi = min hi (max lo v)"

definition reserve_share_of_gross :: "u64 \<Rightarrow> u64" where
  "reserve_share_of_gross gross = mul_div_u64 gross RESERVE_ACCRUAL_BPS 10000"

text \<open>\<^verbatim>\<open>weight *= EMISSION_DECAY_DEN\<close>, once per year but the first.\<close>

definition first_weight :: u64 where
  "first_weight = foldl (\<lambda>weight i. weight * EMISSION_DECAY_DEN) 1 [0..<unat EMISSION_YEARS - 1]"

text \<open>The loop that fills \<^verbatim>\<open>weights\<close>, with the number of years left.\<close>

fun weight_loop :: "nat \<Rightarrow> u64 \<Rightarrow> u64 list" where
  "weight_loop 0 w = []"
| "weight_loop (Suc n) w = w # weight_loop n (if n > 0 then (w div EMISSION_DECAY_DEN) * EMISSION_DECAY_NUM else w)"

definition emission_year_budgets :: "u64 list" where
  "emission_year_budgets =
     (let weights = weight_loop (unat EMISSION_YEARS) first_weight;
          total_weight = sum_list weights;
          budgets = map (\<lambda>w. mul_div_u64 TOTAL_SUPPLY_UNITS w total_weight) (butlast weights)
      in budgets @ [TOTAL_SUPPLY_UNITS - sum_list budgets])"

definition gross_reward_units_for_height :: "u64 \<Rightarrow> u64" where
  "gross_reward_units_for_height height =
     (if height \<ge> EMISSION_BLOCKS then 0
      else let year = min (EMISSION_YEARS - 1) (height div BLOCKS_PER_YEAR_365);
               offset = height mod BLOCKS_PER_YEAR_365;
               annual_budget = emission_year_budgets ! unat year;
               base = annual_budget div BLOCKS_PER_YEAR_365;
               rem = annual_budget mod BLOCKS_PER_YEAR_365
           in base + (if offset < rem then 1 else 0))"

definition reward_units :: "u64 \<Rightarrow> u64" where
  "reward_units height = gross_reward_units_for_height height"

definition validator_reward_units :: "u64 \<Rightarrow> u64" where
  "validator_reward_units height =
     (let gross = reward_units height in gross - reserve_share_of_gross gross)"

definition reserve_reward_units :: "u64 \<Rightarrow> u64" where
  "reserve_reward_units height = reward_units height - validator_reward_units height"

definition emission_year_budget_units :: "u64 \<Rightarrow> u64" where
  "emission_year_budget_units year_index =
     (if year_index \<ge> EMISSION_YEARS then 0 else emission_year_budgets ! unat year_index)"

text \<open>One iteration of the loop over the years of \<^verbatim>\<open>emitted_supply_units\<close>.\<close>

definition emitted_year :: "u64 \<Rightarrow> u64 \<Rightarrow> u64 \<Rightarrow> u64" where
  "emitted_year lst tot year =
     (let lo = max 1 (year * BLOCKS_PER_YEAR_365);
          hi = min lst ((year + 1) * BLOCKS_PER_YEAR_365 - 1)
      in if lo > hi then tot
         else let budget = emission_year_budgets ! unat year;
                  base = budget div BLOCKS_PER_YEAR_365;
                  rem = budget mod BLOCKS_PER_YEAR_365;
                  off_lo = lo - year * BLOCKS_PER_YEAR_365;
                  off_hi = hi - year * BLOCKS_PER_YEAR_365;
                  extra = (if off_lo < rem then min off_hi (rem - 1) - off_lo + 1 else 0)
              in tot + (base * (off_hi - off_lo + 1) + extra))"

definition emitted_supply_units :: "u64 \<Rightarrow> u64" where
  "emitted_supply_units height =
     (let lst = min height (EMISSION_BLOCKS - 1)
      in if height = 0 then 0
         else foldl (emitted_year lst) 0 (map word_of_nat [0..<unat EMISSION_YEARS]))"

definition reserve_payout_units :: "u64 \<Rightarrow> u64 \<Rightarrow> u64" where
  "reserve_payout_units height reserve_balance =
     (if height < EMISSION_BLOCKS then 0
      else mul_div_u64 reserve_balance RESERVE_PAYOUT_BPS_PER_YEAR (10000 * EPOCHS_PER_YEAR_365))"

subsection \<open>Fees\<close>

text \<open>\<^verbatim>\<open>std::clamp\<close>\<close>

definition std_clamp :: "u64 \<Rightarrow> u64 \<Rightarrow> u64 \<Rightarrow> u64" where
  "std_clamp v lo hi = (if v < lo then lo else if hi < v then hi else v)"

definition next_base_fee_per_kib :: "u64 \<Rightarrow> u64 \<Rightarrow> u64" where
  "next_base_fee_per_kib base_fee fullness_ppm =
     (let base = std_clamp base_fee BASE_FEE_MIN_PER_KIB BASE_FEE_MAX_PER_KIB;
          fullness = min fullness_ppm 1000000;
          target = BASE_FEE_TARGET_FULLNESS_PPM;
          next =
            (if fullness > target then base + max 1 (mul_div_u64 base (fullness - target) (target * 8))
             else if fullness < target then
               (let step = max 1 (mul_div_u64 base (target - fullness) (target * 8))
                in if base > step then base - step else BASE_FEE_MIN_PER_KIB)
             else base)
      in std_clamp next BASE_FEE_MIN_PER_KIB BASE_FEE_MAX_PER_KIB)"

definition required_base_fee_units :: "u64 \<Rightarrow> u64 \<Rightarrow> u64" where
  "required_base_fee_units base_fee serialized_size =
     (let kib = (serialized_size + 1023) div 1024
      in if mul_u64_exceeds_u64 base_fee kib then u64_max else base_fee * kib)"

definition fee_reserve_share_units :: "u64 \<Rightarrow> u64" where
  "fee_reserve_share_units fee_pool = mul_div_u64 fee_pool FEE_RESERVE_BPS 10000"

definition onboarding_reward_units :: "u64 \<Rightarrow> u64" where
  "onboarding_reward_units settlement_reward = mul_div_u64 settlement_reward ONBOARDING_REWARD_BPS 10000"

subsection \<open>Weights and bonds\<close>

text \<open>
  The bisection of \<^verbatim>\<open>integer_sqrt\<close>. The source's loop keeps \<open>lo < hi\<close>; the second conjunct of the
  condition only makes the function total on the other arguments.
\<close>

lemma sqrt_mid:
  assumes "lo + 1 < hi" and "lo < (hi :: u64)"
  shows "unat (lo + (hi - lo) div 2) = unat lo + (unat hi - unat lo) div 2" and "unat lo + 1 < unat hi"
proof -
  have lt: "unat lo < unat hi" using assms(2) by (simp add: word_less_nat_alt)
  then have "unat lo + unat (1 :: u64) < 18446744073709551616"
    using unat_u64_less [of hi] unfolding unat_1 by linarith
  then have "unat (lo + 1) = unat lo + 1" using unat_add_u64 [of lo 1] by simp
  with assms(1) show "unat lo + 1 < unat hi" by (simp add: word_less_nat_alt)
  have half: "unat ((hi - lo) div 2) = (unat hi - unat lo) div 2"
    using lt by (simp add: unat_div_u64 unat_sub_u64)
  have "unat lo + (unat hi - unat lo) div 2 < 18446744073709551616"
    using unat_u64_less [of hi] lt by linarith
  then show "unat (lo + (hi - lo) div 2) = unat lo + (unat hi - unat lo) div 2"
    using unat_add_u64 [of lo "(hi - lo) div 2"] unfolding half by blast
qed

function sqrt_loop :: "u64 \<Rightarrow> u64 \<Rightarrow> u64 \<Rightarrow> u64" where
  "sqrt_loop v lo hi =
     (if lo + 1 < hi \<and> lo < hi then
        let mid = lo + (hi - lo) div 2
        in if mid = 0 \<or> mid \<le> v div mid then sqrt_loop v mid hi else sqrt_loop v lo mid
      else lo)"
  by pat_completeness auto
termination
proof (relation "measure (\<lambda>(v, lo, hi). unat hi - unat lo)")
  fix v lo hi mid :: u64
  assume "lo + 1 < hi \<and> lo < hi" and mid: "mid = lo + (hi - lo) div 2"
  then have "unat mid = unat lo + (unat hi - unat lo) div 2" and "unat lo + 1 < unat hi"
    using sqrt_mid by auto
  then show "((v, mid, hi), (v, lo, hi)) \<in> measure (\<lambda>(v, lo, hi). unat hi - unat lo)"
    and "((v, lo, mid), (v, lo, hi)) \<in> measure (\<lambda>(v, lo, hi). unat hi - unat lo)"
    by auto
qed simp

declare sqrt_loop.simps [simp del]

definition integer_sqrt :: "u64 \<Rightarrow> u64" where
  "integer_sqrt v = sqrt_loop v 0 (min v 0xFFFFFFFF + 1)"

definition effective_weight :: "u64 \<Rightarrow> u64" where
  "effective_weight bonded_amount = max 1 (integer_sqrt bonded_amount)"

text \<open>
  The overloads on \<^verbatim>\<open>EconomicsConfig\<close>; the overloads on \<^verbatim>\<open>NetworkConfig\<close> select the active policy
  first.
\<close>

definition validator_min_bond_units :: "EconomicsConfig \<Rightarrow> u64 \<Rightarrow> u64 \<Rightarrow> u64" where
  "validator_min_bond_units cfg height finalized_active_validators =
     (let active = std_clamp finalized_active_validators 1 MIN_BOND_VALIDATOR_COUNT_CAP;
          kScale = 100000000;
          kScaleSqrt = 10000;
          ratio = mul_div_u64 active kScale (max 1 (ec_target_validators cfg));
          b_n = mul_div_u64 (ec_base_min_bond cfg) (integer_sqrt ratio) kScaleSqrt;
          b_s = emitted_supply_units height div MIN_BOND_SUPPLY_DIVISOR;
          mean = (b_n + 2 * b_s) div 3
      in clamp_u64 mean (ec_min_bond_floor cfg) (ec_min_bond_ceiling cfg))"

definition validator_min_bond_units_net :: "NetworkConfig \<Rightarrow> u64 \<Rightarrow> u64 \<Rightarrow> u64 option" where
  "validator_min_bond_units_net network height n =
     map_option (\<lambda>cfg. validator_min_bond_units cfg height n) (active_economics_policy network height)"

definition validator_min_bond_units_preview :: "u64 \<Rightarrow> u64 option" where
  "validator_min_bond_units_preview height = validator_min_bond_units_net mainnet_network height 1"

definition validator_max_effective_bond_units :: "EconomicsConfig \<Rightarrow> u64 \<Rightarrow> u64 \<Rightarrow> u64" where
  "validator_max_effective_bond_units cfg height n =
     (let min_bond = validator_min_bond_units cfg height n;
          multiple = ec_max_effective_bond_multiple cfg
      in if mul_u64_exceeds_u64 min_bond multiple then u64_max else min_bond * multiple)"

definition capped_effective_bond_units :: "EconomicsConfig \<Rightarrow> u64 \<Rightarrow> u64 \<Rightarrow> u64 \<Rightarrow> u64" where
  "capped_effective_bond_units cfg height n actual_bond =
     min actual_bond (validator_max_effective_bond_units cfg height n)"

definition effective_weight_cfg :: "EconomicsConfig \<Rightarrow> u64 \<Rightarrow> u64 \<Rightarrow> u64 \<Rightarrow> u64" where
  "effective_weight_cfg cfg height n actual_bond =
     effective_weight (capped_effective_bond_units cfg height n actual_bond)"

definition reward_weight :: "NetworkConfig \<Rightarrow> u64 \<Rightarrow> u64 \<Rightarrow> u64 \<Rightarrow> u64 option" where
  "reward_weight network height n actual_bond =
     map_option (\<lambda>cfg. effective_weight_cfg cfg height n actual_bond) (active_economics_policy network height)"

definition apply_participation_penalty_bps :: "u64 \<Rightarrow> u32 \<Rightarrow> u32 \<Rightarrow> u64" where
  "apply_participation_penalty_bps reward_weight_units participation_bps threshold_bps =
     (if reward_weight_units = 0 \<or> threshold_bps = 0 then reward_weight_units
      else if participation_bps \<ge> threshold_bps then reward_weight_units
      else mul_div_u64 reward_weight_units (ucast participation_bps) (ucast threshold_bps))"

subsection \<open>The emission curve\<close>

lemma mul_div_u64_eq:
  "d \<noteq> 0 \<Longrightarrow> unat a * unat b div unat d < 18446744073709551616 \<Longrightarrow>
   unat (mul_div_u64 a b d) = unat a * unat b div unat d"
  by (simp add: mul_div_u64_val)

lemma mul_div_u64_word: "d \<noteq> 0 \<Longrightarrow> mul_div_u64 a b d = word_of_nat (unat a * unat b div unat d)"
  by (rule word_unat_eq_iff [THEN iffD2]) (simp add: mul_div_u64_val unsigned_of_nat take_bit_eq_mod)

lemma first_weight_eq: "first_weight = 48828125"
  by (simp add: first_weight_def EMISSION_YEARS_def EMISSION_DECAY_DEN_def upt_rec)

lemma weight_loop_numeral:
  "weight_loop (numeral n) w = w # weight_loop (pred_numeral n)
     (if pred_numeral n > 0 then (w div EMISSION_DECAY_DEN) * EMISSION_DECAY_NUM else w)"
  by (simp add: numeral_eq_Suc)

lemma weights_eq: "weight_loop 12 48828125
  = [48828125, 39062500, 31250000, 25000000, 20000000, 16000000, 12800000, 10240000, 8192000, 6553600, 5242880, 4194304]"
  by (simp add: weight_loop_numeral EMISSION_DECAY_NUM_def EMISSION_DECAY_DEN_def)

lemma emission_year_budgets_eq: "emission_year_budgets
  = [150330643133521, 120264514506817, 96211611605454, 76969289284363, 61575431427490, 49260345141992,
     39408276113593, 31526620890875, 25221296712700, 20177037370160, 16141629896128, 12913303916907]"
  by (simp add: emission_year_budgets_def EMISSION_YEARS_def TOTAL_SUPPLY_UNITS_def first_weight_eq weights_eq
      mul_div_u64_word Let_def)

text \<open>A year of \<open>175200\<close> blocks pays the quotient at every offset and one unit more below the remainder.\<close>

lemma sum_base_rem:
  fixes base rem a b :: nat
  assumes "a \<le> b"
  shows "(\<Sum>k = a..b. base + (if k < rem then 1 else 0))
           = base * (b - a + 1) + (if a < rem then min b (rem - 1) - a + 1 else 0)"
proof -
  have "{a..b} \<inter> {k. k < rem} = (if a < rem then {a..min b (rem - 1)} else {})" by auto
  then have "card ({a..b} \<inter> {k. k < rem}) = (if a < rem then min b (rem - 1) - a + 1 else 0)"
    using Suc_diff_le [of a "min b (rem - 1)"] assms by simp
  then have "(\<Sum>k = a..b. if k < rem then 1 else 0) = (if a < rem then min b (rem - 1) - a + 1 else 0)"
    by (simp add: sum.If_cases)
  then show ?thesis using assms by (simp add: sum.distrib Suc_diff_le)
qed

definition reward_nat :: "nat \<Rightarrow> nat" where
  "reward_nat k = unat (reward_units (word_of_nat k))"

definition year_budget :: "nat \<Rightarrow> nat" where
  "year_budget y = unat (emission_year_budgets ! y)"

lemma year_budget_le: "y < 12 \<Longrightarrow> year_budget y \<le> 150330643133521"
proof -
  have "list_all (\<lambda>b. unat b \<le> 150330643133521) emission_year_budgets"
    by (simp add: emission_year_budgets_eq)
  moreover have "length emission_year_budgets = 12" by (simp add: emission_year_budgets_eq)
  ultimately show "y < 12 \<Longrightarrow> year_budget y \<le> 150330643133521"
    by (simp add: year_budget_def list_all_length)
qed

lemma unat_bool: "unat (if P then 1 else 0 :: u64) = (if P then 1 else 0)"
  by simp

lemma reward_nat_eq:
  assumes "y < 12" and "off < 175200"
  shows "reward_nat (y * 175200 + off)
    = year_budget y div 175200 + (if off < year_budget y mod 175200 then 1 else 0)"
proof -
  define k where "k = y * 175200 + off"
  define w :: u64 where "w = word_of_nat k"
  have k: "k < 2102400" using assms unfolding k_def by linarith
  have uk: "unat w = k" unfolding w_def using k by (intro unat_of_nat_u64) linarith
  have div: "k div 175200 = y" and mod: "k mod 175200 = off" using assms by (auto simp: k_def)
  have ge: "\<not> EMISSION_BLOCKS \<le> w"
    using k by (simp add: monetary_consts word_le_nat_alt uk)
  let ?b = "emission_year_budgets ! y"
  have year: "unat (min (EMISSION_YEARS - 1) (w div BLOCKS_PER_YEAR_365)) = y"
    using assms(1) by (simp add: monetary_consts unat_min_u64 unat_div_u64 uk div)
  have small: "unat ?b div 175200 + 1 < 18446744073709551616"
    using year_budget_le [OF assms(1)] unfolding year_budget_def by linarith
  have cmp: "w mod BLOCKS_PER_YEAR_365 < ?b mod BLOCKS_PER_YEAR_365 \<longleftrightarrow> off < unat ?b mod 175200"
    by (simp add: monetary_consts word_less_nat_alt unat_mod_u64 uk mod)
  have "reward_units (w) = ?b div 175200 + (if off < unat ?b mod 175200 then 1 else 0)"
    using ge cmp by (simp add: reward_units_def gross_reward_units_for_height_def Let_def year)
      (simp add: BLOCKS_PER_YEAR_365_def)
  moreover have "unat (?b div 175200 + (if off < unat ?b mod 175200 then 1 else 0))
      = unat ?b div 175200 + (if off < unat ?b mod 175200 then 1 else 0)"
    using small by (subst unat_add_u64) (simp_all add: unat_div_u64)
  ultimately show ?thesis by (simp only: reward_nat_def year_budget_def w_def k_def)
qed

lemma reward_nat_beyond: "2102400 \<le> k \<Longrightarrow> k < 18446744073709551616 \<Longrightarrow> reward_nat k = 0"
  by (simp add: reward_nat_def reward_units_def gross_reward_units_for_height_def monetary_consts
      word_le_nat_alt unat_of_nat_u64)

lemma sum_rewards_in_year:
  assumes y: "y < 12" and ab: "a \<le> b" and b: "b < 175200"
  shows "(\<Sum>k = y * 175200 + a..y * 175200 + b. reward_nat k)
    = year_budget y div 175200 * (b - a + 1)
      + (if a < year_budget y mod 175200 then min b (year_budget y mod 175200 - 1) - a + 1 else 0)"
proof -
  have "(\<Sum>k = y * 175200 + a..y * 175200 + b. reward_nat k) = (\<Sum>j = a..b. reward_nat (y * 175200 + j))"
    using sum.shift_bounds_cl_nat_ivl [of reward_nat a "y * 175200" b] by (simp add: add.commute)
  also have "\<dots> = (\<Sum>j = a..b. year_budget y div 175200 + (if j < year_budget y mod 175200 then 1 else 0))"
    using b by (intro sum.cong refl reward_nat_eq [OF y]) auto
  finally show ?thesis using sum_base_rem [OF ab] by simp
qed

lemma extra_units:
  fixes a b rem :: u64
  assumes "a \<le> b"
  shows "unat (if a < rem then min b (rem - 1) - a + 1 else 0)
    = (if unat a < unat rem then min (unat b) (unat rem - 1) - unat a + 1 else 0)"
proof (cases "unat a < unat rem")
  case True
  then have "unat (rem - 1) = unat rem - 1" using unat_sub_u64 [of 1 rem] by simp
  then have m: "unat (min b (rem - 1)) = min (unat b) (unat rem - 1)" by (simp only: unat_min_u64)
  have "unat a \<le> min (unat b) (unat rem - 1)" using True assms by (simp add: word_le_nat_alt)
  then have d: "unat (min b (rem - 1) - a) = min (unat b) (unat rem - 1) - unat a"
    by (simp only: unat_sub_u64 m)
  have "unat (min b (rem - 1) - a) + unat (1 :: u64) < 18446744073709551616"
    using unat_u64_less [of rem] True unfolding d unat_1 by linarith
  then have "unat (min b (rem - 1) - a + 1) = min (unat b) (unat rem - 1) - unat a + 1"
    by (simp only: unat_add_u64 d unat_1)
  with True show ?thesis by (simp only: word_less_nat_alt if_True)
qed (simp add: word_less_nat_alt)

lemma year_units:
  fixes a b budget tot :: u64
  assumes ab: "a \<le> b" "unat b < 175200" and bud: "unat budget \<le> 150330643133521"
    and tot: "unat tot \<le> 1000000000000000"
  shows "unat (tot + (budget div 175200 * (b - a + 1)
      + (if a < budget mod 175200 then min b (budget mod 175200 - 1) - a + 1 else 0)))
    = unat tot + (unat budget div 175200 * (unat b - unat a + 1)
      + (if unat a < unat budget mod 175200 then min (unat b) (unat budget mod 175200 - 1) - unat a + 1 else 0))"
proof -
  define p where "p = unat budget div 175200 * (unat b - unat a + 1)"
  let ?base = "unat budget div 175200" and ?x = "if unat a < unat budget mod 175200
    then min (unat b) (unat budget mod 175200 - 1) - unat a + 1 else 0"
  have le: "unat a \<le> unat b" using ab(1) by (simp add: word_le_nat_alt)
  have d: "unat (b - a) = unat b - unat a" using le by (rule unat_sub_u64)
  have "unat (b - a) + unat (1 :: u64) < 18446744073709551616" using ab(2) unfolding d unat_1 by linarith
  then have span: "unat (b - a + 1) = unat b - unat a + 1" by (simp only: unat_add_u64 d unat_1)
  have um: "unat (budget div 175200) = ?base" "unat (budget mod 175200) = unat budget mod 175200"
    by (simp_all add: unat_div_u64 unat_mod_u64)
  have x: "unat (if a < budget mod 175200 then min b (budget mod 175200 - 1) - a + 1 else 0) = ?x"
    using extra_units [OF ab(1), of "budget mod 175200"] by (simp only: um)
  have x_le: "?x \<le> 175200" using ab(2) by auto
  have bm: "p \<le> 858051616 * 175200"
    unfolding p_def using bud ab(2) by (intro mult_le_mono) auto
  have m: "unat (budget div 175200 * (b - a + 1)) = p"
  proof -
    have "unat (budget div 175200) * unat (b - a + 1) < 18446744073709551616"
      using bm unfolding um span p_def by (rule order.strict_trans1) simp
    then show ?thesis by (simp only: unat_mult_u64 um span p_def)
  qed
  have "unat (budget div 175200 * (b - a + 1))
      + unat (if a < budget mod 175200 then min b (budget mod 175200 - 1) - a + 1 else 0) < 18446744073709551616"
    using bm x_le unfolding m x by linarith
  note inner = unat_add_u64 [OF this, unfolded m x]
  have "unat tot + (p + ?x) < 18446744073709551616"
    using bm x_le tot by linarith
  then show ?thesis unfolding p_def [symmetric] by (subst unat_add_u64) (simp_all only: inner)
qed

text \<open>One iteration of the closed form adds the rewards of the heights of its year up to \<open>lst\<close>.\<close>

lemma emitted_year_eq:
  assumes y: "y < 12" and lst: "unat lst < 2102400" and tot: "unat tot \<le> 1000000000000000"
  shows "unat (emitted_year lst tot (word_of_nat y))
    = unat tot + (\<Sum>k = max 1 (y * 175200)..min (unat lst) (y * 175200 + 175199). reward_nat k)"
proof -
  let ?Y = "y * 175200" and ?w = "word_of_nat y * 175200 :: u64" and ?b = "emission_year_budgets ! y"
  define lo hi where lohi: "lo = max 1 ?Y" "hi = min (unat lst) (?Y + 175199)"
  have uy: "unat (word_of_nat y :: u64) = y" using y by (intro unat_of_nat_u64) linarith
  have uY: "unat ?w = ?Y"
    using y unat_mult_u64 [of "word_of_nat y" 175200] by (simp add: uy)
  have uY1: "unat ((word_of_nat y + 1) * 175200 - 1 :: u64) = ?Y + 175199"
  proof -
    have "(word_of_nat y + 1) * 175200 - 1 = (word_of_nat (?Y + 175199) :: u64)" by (simp add: algebra_simps)
    moreover have "?Y + 175199 < 18446744073709551616" using y by linarith
    ultimately show ?thesis using unat_of_nat_u64 by metis
  qed
  define wlo whi :: u64 where w: "wlo = max 1 ?w" "whi = min lst ((word_of_nat y + 1) * 175200 - 1)"
  have uw: "unat wlo = lo" "unat whi = hi"
    by (simp_all only: w lohi unat_max_u64 unat_min_u64 uY uY1 unat_1)
  have body: "emitted_year lst tot (word_of_nat y) = (if wlo > whi then tot
      else tot + (?b div 175200 * (whi - ?w - (wlo - ?w) + 1)
        + (if wlo - ?w < ?b mod 175200 then min (whi - ?w) (?b mod 175200 - 1) - (wlo - ?w) + 1 else 0)))"
    by (simp only: emitted_year_def BLOCKS_PER_YEAR_365_def Let_def w uy)
  show ?thesis
  proof (cases "lo > hi")
    case True
    then have "wlo > whi" and "{lo..hi} = {}" by (simp_all add: word_less_nat_alt uw)
    then show ?thesis unfolding body lohi [symmetric] by (simp only: if_True sum.empty add_0_right)
  next
    case False
    define a b where ab: "a = lo - ?Y" "b = hi - ?Y"
    have le: "?Y \<le> lo" "lo \<le> hi" "b < 175200" "a \<le> b" using False by (auto simp: lohi ab)
    have uoff: "unat (wlo - ?w) = a" "unat (whi - ?w) = b"
      using le by (simp_all add: unat_sub_u64 uw uY ab)
    have split: "lo = ?Y + a" "hi = ?Y + b" using le by (auto simp: ab)
    have nlt: "\<not> wlo > whi" using False by (simp add: word_less_nat_alt uw)
    have words: "wlo - ?w \<le> whi - ?w" "unat (whi - ?w) < 175200" "unat ?b \<le> 150330643133521"
      using le year_budget_le [OF y] by (simp_all only: word_le_nat_alt uoff year_budget_def)
    show ?thesis
      unfolding body lohi [symmetric] split sum_rewards_in_year [OF y le(4) le(3)] year_budget_def
      using nlt year_units [OF words tot] by (simp only: uoff if_False)
  qed
qed

lemma sum_full_year: "y < 12 \<Longrightarrow> (\<Sum>k = y * 175200..<Suc y * 175200. reward_nat k) = year_budget y"
proof -
  assume y: "y < 12"
  have "{y * 175200..<Suc y * 175200} = {y * 175200 + 0..y * 175200 + 175199}" by auto
  then have "(\<Sum>k = y * 175200..<Suc y * 175200. reward_nat k)
      = year_budget y div 175200 * (175199 - 0 + 1)
        + (if 0 < year_budget y mod 175200 then min 175199 (year_budget y mod 175200 - 1) - 0 + 1 else 0)"
    using sum_rewards_in_year [OF y, of 0 175199] by simp
  also have "\<dots> = year_budget y div 175200 * 175200 + year_budget y mod 175200"
  proof -
    have "year_budget y mod 175200 < 175200" by simp
    then show ?thesis by (auto simp: min_def)
  qed
  finally show ?thesis by simp
qed

lemma sum_years: "n \<le> 12 \<Longrightarrow> (\<Sum>k < n * 175200. reward_nat k) = (\<Sum>y < n. year_budget y)"
proof (induction n)
  case (Suc n)
  have "{..<Suc n * 175200} = {..<n * 175200} \<union> {n * 175200..<Suc n * 175200}" by auto
  then have "(\<Sum>k < Suc n * 175200. reward_nat k)
      = (\<Sum>k < n * 175200. reward_nat k) + (\<Sum>k = n * 175200..<Suc n * 175200. reward_nat k)"
    by (simp add: sum.union_disjoint ivl_disj_int)
  with Suc sum_full_year [of n] show ?case by simp
qed simp

lemma total_emission: "(\<Sum>k < 2102400. reward_nat k) = 700000000000000"
proof -
  have len: "length emission_year_budgets = 12" by (simp add: emission_year_budgets_eq)
  have "(\<Sum>y < 12. year_budget y) = sum_list (map unat emission_year_budgets)"
    using len by (simp add: sum_list_sum_nth year_budget_def atLeast0LessThan)
  also have "\<dots> = 700000000000000" by (simp add: emission_year_budgets_eq)
  finally show ?thesis using sum_years [of 12] by simp
qed

lemma partial_emission_le: "n \<le> 2102399 \<Longrightarrow> (\<Sum>k = 1..n. reward_nat k) \<le> 700000000000000"
  unfolding total_emission [symmetric] by (rule sum_mono2) auto

lemma emitted_fold:
  assumes lst: "unat lst < 2102400"
  shows "n \<le> 12 \<Longrightarrow> unat (foldl (emitted_year lst) 0 (map word_of_nat [0..<n]))
     = (\<Sum>k = 1..min (unat lst) (n * 175200 - 1). reward_nat k)"
proof (induction n)
  case (Suc n)
  let ?p = "min (unat lst) (n * 175200 - 1)" and ?q = "min (unat lst) (n * 175200 + 175199)"
  let ?t = "foldl (emitted_year lst) 0 (map word_of_nat [0..<n])"
  have IH: "unat ?t = (\<Sum>k = 1..?p. reward_nat k)" using Suc by simp
  have "unat ?t \<le> 1000000000000000"
    unfolding IH by (rule order_trans [OF partial_emission_le]) (use lst in linarith)+
  then have step: "unat (emitted_year lst ?t (word_of_nat n))
      = unat ?t + (\<Sum>k = max 1 (n * 175200)..?q. reward_nat k)"
    using Suc.prems lst by (intro emitted_year_eq) auto
  have sets: "{1..?q} = {1..?p} \<union> {max 1 (n * 175200)..?q}" by auto
  have "{1..?p} \<inter> {max 1 (n * 175200)..?q} = {}" by auto
  then have "(\<Sum>k = 1..?q. reward_nat k) = (\<Sum>k = 1..?p. reward_nat k) + (\<Sum>k = max 1 (n * 175200)..?q. reward_nat k)"
    unfolding sets by (simp add: sum.union_disjoint)
  moreover have "Suc n * 175200 - 1 = n * 175200 + 175199" by simp
  ultimately show ?case using step IH by (simp add: add.commute [of 175199])
qed simp

lemma emitted_supply_units_sum:
  "unat (emitted_supply_units height) = (\<Sum>k = 1..unat height. reward_nat k)"
proof -
  define lst where "lst = min height (EMISSION_BLOCKS - 1)"
  have ul: "unat lst = min (unat height) 2102399"
    by (simp add: lst_def unat_min_u64 monetary_consts)
  have tail: "(\<Sum>k = 1..unat height. reward_nat k) = (\<Sum>k = 1..unat lst. reward_nat k)"
  proof (rule sum.mono_neutral_right)
    show "\<forall>k \<in> {1..unat height} - {1..unat lst}. reward_nat k = 0"
      by (auto simp: ul intro!: reward_nat_beyond le_less_trans [OF _ unat_u64_less [of height]])
  qed (auto simp: ul)
  show ?thesis
  proof (cases "height = 0")
    case False
    then show ?thesis
      using emitted_fold [of lst 12] tail ul
      by (simp add: emitted_supply_units_def Let_def EMISSION_YEARS_def lst_def [symmetric])
  qed (simp add: emitted_supply_units_def)
qed

subsection \<open>The integer square root\<close>

lemma sqrt_loop_correct:
  assumes "unat lo < unat hi" and "unat hi \<le> 4294967296"
    and "unat lo * unat lo \<le> unat v" and "unat v < unat hi * unat hi"
  shows "unat (sqrt_loop v lo hi) * unat (sqrt_loop v lo hi) \<le> unat v
    \<and> unat v < (unat (sqrt_loop v lo hi) + 1) * (unat (sqrt_loop v lo hi) + 1)"
  using assms
proof (induction v lo hi rule: sqrt_loop.induct)
  case (1 v lo hi)
  have lt: "lo < hi" using "1.prems"(1) by (simp add: word_less_nat_alt)
  show ?case
  proof (cases "lo + 1 < hi")
    case True
    define mid where "mid = lo + (hi - lo) div 2"
    have um: "unat mid = unat lo + (unat hi - unat lo) div 2" and two: "unat lo + 1 < unat hi"
      using sqrt_mid [OF True lt] by (simp_all add: mid_def)
    then have range: "unat lo < unat mid" "unat mid < unat hi" by auto
    have cond: "mid = 0 \<or> mid \<le> v div mid \<longleftrightarrow> unat mid * unat mid \<le> unat v"
      using range(1) by (auto simp: word_le_nat_alt unat_div_u64 unat_eq_0 less_eq_div_iff_mult_less_eq)
    show ?thesis
    proof (cases "unat mid * unat mid \<le> unat v")
      case mid_low: True
      have "sqrt_loop v lo hi = sqrt_loop v mid hi"
        using True lt cond mid_low by (subst sqrt_loop.simps) (simp only: mid_def [symmetric] Let_def if_True simp_thms)
      then show ?thesis
        using "1.IH"(1) [OF _ mid_def] True lt cond mid_low range "1.prems" by simp
    next
      case mid_high: False
      have "sqrt_loop v lo hi = sqrt_loop v lo mid"
        using True lt cond mid_high by (subst sqrt_loop.simps) (simp only: mid_def [symmetric] Let_def if_True if_False simp_thms)
      then show ?thesis
        using "1.IH"(2) [OF _ mid_def] True lt cond mid_high range "1.prems" by simp
    qed
  next
    case False
    then have "sqrt_loop v lo hi = lo" by (subst sqrt_loop.simps) simp
    moreover have "unat hi = unat lo + 1"
    proof -
      have "unat (lo + 1) = unat lo + 1"
        using "1.prems"(1,2) unat_add_u64 [of lo 1] by simp
      then show ?thesis using False "1.prems"(1) by (simp add: word_less_nat_alt)
    qed
    ultimately show ?thesis using "1.prems" by simp
  qed
qed

lemma integer_sqrt_bounds:
  "unat (integer_sqrt v) * unat (integer_sqrt v) \<le> unat v
   \<and> unat v < (unat (integer_sqrt v) + 1) * (unat (integer_sqrt v) + 1)"
proof -
  let ?m = "min (unat v) 4294967295"
  have hi: "unat (min v 0xFFFFFFFF + 1) = ?m + 1"
    by (subst unat_add_u64) (simp_all add: unat_min_u64)
  have "unat v < (?m + 1) * (?m + 1)"
  proof (cases "unat v \<le> 4294967295")
    case False
    then have "(?m + 1) * (?m + 1) = 18446744073709551616" by simp
    then show ?thesis using unat_u64_less [of v] by simp
  qed simp
  then show ?thesis
    unfolding integer_sqrt_def by (intro sqrt_loop_correct) (simp_all add: hi)
qed

lemma integer_sqrt_mono_bound: "unat v < (n + 1) * (n + 1) \<Longrightarrow> unat (integer_sqrt v) \<le> n"
proof (rule ccontr)
  assume "unat v < (n + 1) * (n + 1)" and "\<not> unat (integer_sqrt v) \<le> n"
  then have "(n + 1) * (n + 1) \<le> unat (integer_sqrt v) * unat (integer_sqrt v)"
    by (intro mult_le_mono) auto
  with integer_sqrt_bounds [of v] \<open>unat v < (n + 1) * (n + 1)\<close> show False by linarith
qed

subsection \<open>Splits, fees and bonds\<close>

lemma mul_div_le:
  assumes "b \<le> d" and "d \<noteq> 0"
  shows "unat (mul_div_u64 a b d) = unat a * unat b div unat d" and "unat (mul_div_u64 a b d) \<le> unat a"
proof -
  have pos: "0 < unat d" using assms(2) by (simp add: unat_gt_0)
  have "unat a * unat b \<le> unat a * unat d" using assms(1) by (simp add: word_le_nat_alt)
  then have le: "unat a * unat b div unat d \<le> unat a"
    using div_le_mono [of "unat a * unat b" "unat a * unat d" "unat d"] pos by simp
  show "unat (mul_div_u64 a b d) = unat a * unat b div unat d"
    using le_less_trans [OF le unat_u64_less] by (rule mul_div_u64_eq [OF assms(2)])
  with le show "unat (mul_div_u64 a b d) \<le> unat a" by simp
qed

lemma reward_split:
  "unat (validator_reward_units h) + unat (reserve_reward_units h) = unat (reward_units h)"
proof -
  have le: "reserve_share_of_gross (reward_units h) \<le> reward_units h"
    using mul_div_le(2) [of RESERVE_ACCRUAL_BPS 10000 "reward_units h"]
    by (simp add: reserve_share_of_gross_def RESERVE_ACCRUAL_BPS_def word_le_nat_alt)
  then have "unat (validator_reward_units h) = unat (reward_units h) - unat (reserve_share_of_gross (reward_units h))"
    by (simp add: validator_reward_units_def Let_def unat_sub_u64 word_le_nat_alt)
  moreover from this have "unat (reserve_reward_units h) = unat (reward_units h) - unat (validator_reward_units h)"
    by (simp add: reserve_reward_units_def unat_sub_u64)
  ultimately show ?thesis by simp
qed

lemma year_budget_ge: "y < 12 \<Longrightarrow> 175200 \<le> year_budget y"
proof -
  have "list_all (\<lambda>b. 175200 \<le> unat b) emission_year_budgets"
    by (simp add: emission_year_budgets_eq)
  moreover have "length emission_year_budgets = 12" by (simp add: emission_year_budgets_eq)
  ultimately show "y < 12 \<Longrightarrow> 175200 \<le> year_budget y"
    by (simp add: year_budget_def list_all_length)
qed

lemma reward_units_zero_iff: "reward_units h = 0 \<longleftrightarrow> EMISSION_BLOCKS \<le> h"
proof (cases "EMISSION_BLOCKS \<le> h")
  case False
  then have h: "unat h < 2102400" by (simp add: monetary_consts word_le_nat_alt not_le)
  then have y: "unat h div 175200 < 12" by auto
  have "reward_nat (unat h div 175200 * 175200 + unat h mod 175200) \<noteq> 0"
    using reward_nat_eq [OF y, of "unat h mod 175200"] year_budget_ge [OF y]
    by (simp add: div_greater_zero_iff)
  then have "unat (reward_units h) \<noteq> 0" by (simp add: reward_nat_def)
  with False show ?thesis by (auto simp: unat_eq_0)
qed (simp add: reward_units_def gross_reward_units_for_height_def)

lemma unat_cap: "unat (if c < x then c else x :: u64) = min (unat c) (unat x)"
  by (simp add: word_less_nat_alt min_def)

lemma next_base_fee_up:
  assumes "base_fee \<le> BASE_FEE_MAX_PER_KIB" and "500000 < unat fullness"
  shows "unat (next_base_fee_per_kib base_fee fullness)
    = min 1000000000000 (unat base_fee + max 1 (unat base_fee * (min (unat fullness) 1000000 - 500000) div 4000000))"
proof -
  have b: "unat base_fee \<le> 1000000000000" using assms(1) by (simp add: monetary_consts word_le_nat_alt)
  define f where "f = min fullness 1000000"
  have uf: "unat f = min (unat fullness) 1000000" by (simp add: f_def unat_min_u64)
  then have d: "unat (f - 500000) = unat f - 500000" using assms(2) by (subst unat_sub_u64) auto
  have le: "f - 500000 \<le> 500000 * 8" by (simp add: word_le_nat_alt d uf)
  define step where "step = mul_div_u64 base_fee (f - 500000) (500000 * 8)"
  have us: "unat step = unat base_fee * (unat f - 500000) div 4000000" "unat step \<le> unat base_fee"
    using mul_div_le [OF le, of base_fee] by (simp_all add: step_def d)
  have sum: "unat (base_fee + max 1 step) = unat base_fee + max 1 (unat step)"
    using us(2) b by (subst unat_add_u64) (auto simp: unat_max_u64)
  have "\<not> 1000000000000 < base_fee" "500000 < f"
    using b assms(2) by (simp_all add: word_less_nat_alt uf)
  then have "next_base_fee_per_kib base_fee fullness
      = (if 1000000000000 < base_fee + max 1 step then 1000000000000 else base_fee + max 1 step)"
    by (simp only: next_base_fee_per_kib_def Let_def std_clamp_def monetary_consts f_def [symmetric]
        step_def [symmetric] word_not_simps(1) if_False if_True simp_thms)
  then have "unat (next_base_fee_per_kib base_fee fullness)
      = min (unat (1000000000000 :: u64)) (unat base_fee + max 1 (unat step))"
    by (simp only: unat_cap sum)
  then show ?thesis by (simp add: us(1) uf)
qed

lemma next_base_fee_down:
  assumes "base_fee \<le> BASE_FEE_MAX_PER_KIB" and "unat fullness < 500000"
  shows "unat (next_base_fee_per_kib base_fee fullness)
    = unat base_fee - max 1 (unat base_fee * (500000 - unat fullness) div 4000000)"
proof -
  have b: "unat base_fee \<le> 1000000000000" using assms(1) by (simp add: monetary_consts word_le_nat_alt)
  have f: "min fullness 1000000 = fullness" using assms(2) by (simp add: min_def word_le_nat_alt)
  have d: "unat (500000 - fullness) = 500000 - unat fullness" using assms(2) by (subst unat_sub_u64) auto
  have le: "500000 - fullness \<le> 500000 * 8" by (simp add: word_le_nat_alt d)
  define step where "step = max 1 (mul_div_u64 base_fee (500000 - fullness) (500000 * 8))"
  have us: "unat step = max 1 (unat base_fee * (500000 - unat fullness) div 4000000)"
    using mul_div_le [OF le, of base_fee] by (simp add: step_def d unat_max_u64)
  have conds: "\<not> 1000000000000 < base_fee" "\<not> 500000 < fullness" "fullness < 500000"
    using b assms(2) by (simp_all add: word_less_nat_alt)
  then have "next_base_fee_per_kib base_fee fullness
      = (let next = (if step < base_fee then base_fee - step else 0)
         in if 1000000000000 < next then 1000000000000 else next)"
    by (simp only: next_base_fee_per_kib_def Let_def std_clamp_def monetary_consts f
        step_def [symmetric] word_not_simps(1) if_False if_True simp_thms)
  moreover have "unat (if step < base_fee then base_fee - step else 0) = unat base_fee - unat step"
    by (auto simp: word_less_nat_alt unat_sub_u64)
  ultimately have "unat (next_base_fee_per_kib base_fee fullness)
      = min (unat (1000000000000 :: u64)) (unat base_fee - unat step)"
    by (simp only: Let_def unat_cap)
  with b show ?thesis by (simp add: us min_absorb2)
qed

lemma next_base_fee_clamp:
  "next_base_fee_per_kib base_fee fullness = next_base_fee_per_kib (min base_fee BASE_FEE_MAX_PER_KIB) fullness"
  by (simp add: next_base_fee_per_kib_def std_clamp_def monetary_consts min_def word_less_nat_alt word_le_nat_alt)

lemma next_base_fee_at_target:
  "base_fee \<le> BASE_FEE_MAX_PER_KIB \<Longrightarrow> next_base_fee_per_kib base_fee 500000 = base_fee"
  by (simp add: next_base_fee_per_kib_def std_clamp_def monetary_consts Let_def min_def word_less_nat_alt word_le_nat_alt)

lemma emitted_supply_le: "unat (emitted_supply_units h) \<le> 700000000000000"
proof -
  have "{1..unat h} \<subseteq> {..<2102400} \<union> {2102400..unat h}" by auto
  then have "(\<Sum>k = 1..unat h. reward_nat k) \<le> (\<Sum>k \<in> {..<2102400} \<union> {2102400..unat h}. reward_nat k)"
    by (intro sum_mono2) auto
  also have "\<dots> = (\<Sum>k < 2102400. reward_nat k) + (\<Sum>k = 2102400..unat h. reward_nat k)"
    by (intro sum.union_disjoint) auto
  also have "(\<Sum>k = 2102400..unat h. reward_nat k) = 0"
    by (intro sum.neutral) (auto intro!: reward_nat_beyond le_less_trans [OF _ unat_u64_less [of h]])
  finally show ?thesis by (simp add: emitted_supply_units_sum total_emission)
qed

lemma mul_div_bound: "d \<noteq> 0 \<Longrightarrow> unat a * unat b \<le> m \<Longrightarrow> unat (mul_div_u64 a b d) \<le> m div unat d"
  by (simp add: mul_div_u64_val) (meson div_le_mono mod_less_eq_dividend order_trans)

lemma mainnet_min_bond_upper:
  "unat (validator_min_bond_units mainnet_economics h n) \<le> 64742333333"
proof -
  define active where "active = std_clamp n 1 MIN_BOND_VALIDATOR_COUNT_CAP"
  have a: "unat active \<le> 512"
    by (simp add: active_def std_clamp_def monetary_consts word_less_nat_alt not_less)
  have ratio: "unat (mul_div_u64 active 100000000 16) \<le> 3200000000"
    using mul_div_bound [of 16 active 100000000 51200000000] a by simp
  then have root: "unat (integer_sqrt (mul_div_u64 active 100000000 16)) \<le> 56568"
    by (intro integer_sqrt_mono_bound) (rule le_less_trans, assumption, simp)
  define b_n where "b_n = mul_div_u64 15000000000 (integer_sqrt (mul_div_u64 active 100000000 16)) 10000"
  have bn: "unat b_n \<le> 84852000000"
    unfolding b_n_def
    using mul_div_bound [of 10000 15000000000 "integer_sqrt (mul_div_u64 active 100000000 16)" 848520000000000] root
    by simp
  define b_s where "b_s = emitted_supply_units h div MIN_BOND_SUPPLY_DIVISOR"
  have bs: "unat b_s \<le> 54687500000"
    using emitted_supply_le [of h] by (simp add: b_s_def unat_div_u64 MIN_BOND_SUPPLY_DIVISOR_def)
  have "unat (2 * b_s) = 2 * unat b_s" using bs unat_mult_u64 [of 2 b_s] by simp
  then have "unat (b_n + 2 * b_s) = unat b_n + 2 * unat b_s"
    using bn bs by (subst unat_add_u64) simp_all
  then have mean: "unat ((b_n + 2 * b_s) div 3) \<le> 64742333333"
    using bn bs by (simp add: unat_div_u64)
  have "validator_min_bond_units mainnet_economics h n
      = clamp_u64 ((b_n + 2 * b_s) div 3) 15000000000 500000000000"
    by (simp add: validator_min_bond_units_def Let_def mainnet_economics_def kCoin_def BOND_AMOUNT_def
        kValidatorBondMaxAmount_def active_def [symmetric] b_n_def [symmetric] b_s_def [symmetric])
  then show ?thesis using mean by (simp add: clamp_u64_def unat_min_u64 unat_max_u64)
qed

subsection \<open>Properties of the monetary policy\<close>

text \<open>
  C13. Fixed supply: the rewards of all heights add up to exactly \<^verbatim>\<open>TOTAL_SUPPLY_UNITS\<close>, a height pays
  nothing exactly when the emission has ended, and every reward is split into the validators' and the
  reserve's part without loss.
\<close>

theorem emission_is_fixed:
  "(\<Sum>k < unat EMISSION_BLOCKS. unat (reward_units (word_of_nat k))) = unat TOTAL_SUPPLY_UNITS
   \<and> (reward_units h = 0 \<longleftrightarrow> EMISSION_BLOCKS \<le> h)
   \<and> unat (validator_reward_units h) + unat (reserve_reward_units h) = unat (reward_units h)"
  using total_emission [unfolded reward_nat_def] reward_units_zero_iff reward_split
  by (simp add: monetary_consts)

text \<open>
  C14. The closed form \<^verbatim>\<open>emitted_supply_units\<close> is the sum of the rewards of the heights \<open>1\<close> to
  \<open>height\<close>, for every 64-bit height.
\<close>

theorem emitted_supply_closed_form:
  "unat (emitted_supply_units height) = (\<Sum>k = 1..unat height. unat (reward_units (word_of_nat k)))"
  using emitted_supply_units_sum [unfolded reward_nat_def] .

text \<open>
  C15. \<^verbatim>\<open>integer_sqrt\<close> is the integer square root on all 64-bit values: its square is at most the
  value, and the square of its successor exceeds it.
\<close>

theorem integer_sqrt_correct:
  "unat (integer_sqrt v) ^ 2 \<le> unat v \<and> unat v < (unat (integer_sqrt v) + 1) ^ 2"
  using integer_sqrt_bounds by (simp add: power2_eq_square)

text \<open>
  C16. The base fee never leaves its bounds, moves by at most one eighth per block (but by one unit at
  least while it can move), rises exactly when the block was more than half full, falls exactly when
  it was less than half full, and otherwise stays.
\<close>

theorem base_fee_step:
  assumes "base_fee \<le> BASE_FEE_MAX_PER_KIB"
  shows "next_base_fee_per_kib base_fee fullness \<le> BASE_FEE_MAX_PER_KIB
    \<and> unat (next_base_fee_per_kib base_fee fullness) \<le> unat base_fee + max 1 (unat base_fee div 8)
    \<and> unat base_fee \<le> unat (next_base_fee_per_kib base_fee fullness) + max 1 (unat base_fee div 8)
    \<and> (next_base_fee_per_kib base_fee fullness > base_fee \<longleftrightarrow>
         fullness > BASE_FEE_TARGET_FULLNESS_PPM \<and> base_fee < BASE_FEE_MAX_PER_KIB)
    \<and> (next_base_fee_per_kib base_fee fullness < base_fee \<longleftrightarrow>
         fullness < BASE_FEE_TARGET_FULLNESS_PPM \<and> 0 < base_fee)"
proof -
  let ?b = "unat base_fee"
  have b: "?b \<le> 1000000000000" using assms by (simp add: monetary_consts word_le_nat_alt)
  have eighth: "?b * d div 4000000 \<le> ?b div 8" if "d \<le> 500000" for d
  proof -
    have "?b * d div 4000000 \<le> ?b * 500000 div 4000000" using that by (intro div_le_mono mult_le_mono) auto
    also have "\<dots> = ?b div 8" using div_mult_mult2 [of 500000 ?b 8] by simp
    finally show ?thesis .
  qed
  define su where "su = ?b * (min (unat fullness) 1000000 - 500000) div 4000000"
  define sd where "sd = ?b * (500000 - unat fullness) div 4000000"
  have le: "su \<le> ?b div 8" "sd \<le> ?b div 8"
    unfolding su_def sd_def by (rule eighth, linarith)+
  consider (more) "500000 < unat fullness" | (less) "unat fullness < 500000" | (eq) "fullness = 500000"
    by (cases "unat fullness" "500000 :: nat" rule: linorder_cases) (auto simp: unat_eq_iff)
  then show ?thesis
  proof cases
    case more
    define m where "m = min 1000000000000 (?b + max 1 su)"
    have "unat (next_base_fee_per_kib base_fee fullness) = m"
      using next_base_fee_up [OF assms more] by (simp add: su_def m_def)
    moreover have "m \<le> 1000000000000" "m \<le> ?b + max 1 (?b div 8)" "?b \<le> m"
      unfolding m_def using le b by linarith+
    moreover have "?b < m \<longleftrightarrow> ?b < 1000000000000" by (auto simp: m_def)
    ultimately show ?thesis
      using more by (simp add: monetary_consts word_le_nat_alt word_less_nat_alt)
  next
    case less
    define m where "m = ?b - max 1 sd"
    have "unat (next_base_fee_per_kib base_fee fullness) = m"
      using next_base_fee_down [OF assms less] by (simp add: sd_def m_def)
    moreover have "m \<le> ?b" "?b \<le> m + max 1 (?b div 8)"
      unfolding m_def using le by linarith+
    moreover have "m < ?b \<longleftrightarrow> 0 < ?b" by (auto simp: m_def)
    ultimately show ?thesis
      using less b by (simp add: monetary_consts word_le_nat_alt word_less_nat_alt)
  next
    case eq
    with assms show ?thesis by (simp add: next_base_fee_at_target monetary_consts)
  qed
qed

lemma base_fee_step_witness:
  "unat (next_base_fee_per_kib 8000 1000000) \<le> 9000 \<and> next_base_fee_per_kib 8000 1000000 > 8000"
  using base_fee_step [of 8000 1000000] by (simp add: monetary_consts)

text \<open>
  C17. On mainnet the adaptive minimum bond lies between 150 and 648 coins at every height and for every
  number of validators: the ceiling of 5,000 coins of the configuration is never reached.
\<close>

theorem mainnet_min_bond_range:
  "map_option (\<lambda>b. 150 * unat kCoin \<le> unat b \<and> unat b \<le> 648 * unat kCoin)
     (validator_min_bond_units_net mainnet_network h n) = Some True"
proof -
  have "15000000000 \<le> unat (validator_min_bond_units mainnet_economics h n)"
    by (simp add: validator_min_bond_units_def Let_def clamp_u64_def unat_min_u64 unat_max_u64
        mainnet_economics_def kCoin_def BOND_AMOUNT_def kValidatorBondMaxAmount_def)
  then show ?thesis
    using mainnet_min_bond_upper [of h n] by (simp add: validator_min_bond_units_net_def kCoin_def)
qed

end
