(* ===== verification/Payouts.thy ===== *)
theory Payouts
  imports Monetary
begin

text \<open>
  The two ways \<^verbatim>\<open>src/src/consensus/monetary.cpp\<close> divides a pool of units among participants:
  \<^verbatim>\<open>compute_weighted_payout\<close> for a block and \<^verbatim>\<open>compute_epoch_settlement_payout\<close> for an epoch. The
  main results are that no unit is created or lost. \<^verbatim>\<open>compute_weighted_payout\<close> divides by a sum
  of scores: where that sum is zero the C++ division traps, and the model returns \<open>None\<close>.
\<close>

record WeightedParticipant =
  wp_pubkey :: pubkey32
  wp_bonded_amount :: u64
  wp_effective_weight :: u64
  wp_participation_bps :: u32

record Payout =
  po_leader :: u64
  po_signers :: "(pubkey32 \<times> u64) list"
  po_total :: u64

record DeterministicCoinbasePayout =
  cb_outputs :: "(pubkey32 \<times> u64) list"
  cb_total :: u64
  cb_settled_epoch_fees :: u64
  cb_settled_epoch_rewards :: u64
  cb_reserve_subsidy_units :: u64

subsection \<open>Payouts\<close>

definition participant_score :: "WeightedParticipant \<Rightarrow> pubkey32 \<Rightarrow> u64" where
  "participant_score p leader_pubkey =
     (let base_weight = (if wp_effective_weight p \<noteq> 0 then wp_effective_weight p
                         else effective_weight (wp_bonded_amount p))
      in if wp_participation_bps p = 0 \<or> base_weight = 0 then 0
         else let participation = ucast (wp_participation_bps p);
                  score = (base_weight * participation) div 10000;
                  score = (if score = 0 \<and> base_weight \<noteq> 0 then 1 else score)
              in if wp_pubkey p = leader_pubkey
                 then let score = (score * 20000) div 10000
                      in if score = 0 \<and> base_weight \<noteq> 0 then 1 else score
                 else score)"

definition payout_scores :: "pubkey32 \<Rightarrow> WeightedParticipant list \<Rightarrow> (pubkey32, u64) omap \<times> u64" where
  "payout_scores leader_pubkey participants =
     foldl (\<lambda>(scores, total_score) p.
              let score = participant_score p leader_pubkey
              in if score = 0 then (scores, total_score)
                 else (omap_upd (wp_pubkey p) score scores, total_score + score))
           ([], 0) participants"

definition payout_shares ::
  "pubkey32 \<Rightarrow> u64 \<Rightarrow> u64 \<Rightarrow> (pubkey32, u64) omap \<Rightarrow> u64 \<times> u64 \<times> (pubkey32 \<times> u64) list" where
  "payout_shares leader_pubkey tot total_score scores =
     foldl (\<lambda>(distributed, leader, signers) (pub, score).
              let share = mul_div_u64 tot score total_score
              in (distributed + share,
                  if pub = leader_pubkey then leader + share else leader,
                  if pub = leader_pubkey then signers else signers @ [(pub, share)]))
           (0, 0, []) scores"

definition compute_weighted_payout ::
  "u64 \<Rightarrow> u64 \<Rightarrow> pubkey32 \<Rightarrow> WeightedParticipant list \<Rightarrow> Payout option" where
  "compute_weighted_payout height fees_units leader_pubkey participants =
     (let reward = validator_reward_units height;
          tot = reward + fees_units;
          participants = unique_by wp_pubkey (sort_key wp_pubkey participants);
          (scores, total_score) = payout_scores leader_pubkey participants
      in if scores = [] then Some \<lparr>po_leader = tot, po_signers = [], po_total = tot\<rparr>
         else if total_score = 0 then None
         else let (distributed, leader, signers) = payout_shares leader_pubkey tot total_score scores;
                  remainder = tot - distributed
              in Some \<lparr>po_leader = (if remainder > 0 then leader + remainder else leader),
                       po_signers = signers, po_total = tot\<rparr>)"

definition compute_payout :: "u64 \<Rightarrow> u64 \<Rightarrow> pubkey32 \<Rightarrow> pubkey32 list \<Rightarrow> Payout option" where
  "compute_payout height fees_units leader_pubkey signer_pubkeys =
     compute_weighted_payout height fees_units leader_pubkey
       (map (\<lambda>pub. \<lparr>wp_pubkey = pub, wp_bonded_amount = BOND_AMOUNT,
                     wp_effective_weight = effective_weight BOND_AMOUNT, wp_participation_bps = 10000\<rparr>)
            (unique_by id (sort signer_pubkeys)))"

text \<open>The lambda \<^verbatim>\<open>distribute_pool\<close>, as a function of the map it updates.\<close>

definition distribute_pool ::
  "pubkey32 \<Rightarrow> u64 \<Rightarrow> (pubkey32, u64) omap \<Rightarrow> bool \<Rightarrow> (pubkey32, u64) omap \<Rightarrow> (pubkey32, u64) omap" where
  "distribute_pool leader pool score_units fallback_to_leader merged =
     (if pool = 0 then merged
      else let total_score = foldl (\<lambda>t (pub, score). if score = 0 then t else t + score) 0 score_units
           in if total_score = 0 then (if fallback_to_leader then omap_add leader pool merged else merged)
              else let (merged, distributed, last_pub) =
                         foldl (\<lambda>(m, d, l) (pub, score).
                                  if score = 0 then (m, d, l)
                                  else let share = mul_div_u64 pool score total_score
                                       in (omap_add pub share m, d + share, Some pub))
                               (merged, 0, None) score_units;
                       remainder = pool - distributed
                   in if remainder > 0 then
                        (case last_pub of
                           Some pub \<Rightarrow> omap_add pub remainder merged
                         | None \<Rightarrow> if fallback_to_leader then omap_add leader remainder merged else merged)
                      else merged)"

definition compute_epoch_settlement_payout ::
  "u64 \<Rightarrow> u64 \<Rightarrow> u64 \<Rightarrow> pubkey32 \<Rightarrow> (pubkey32, u64) omap \<Rightarrow> (pubkey32, u64) omap
     \<Rightarrow> DeterministicCoinbasePayout" where
  "compute_epoch_settlement_payout settlement_reward settled_fee reserve_subsidy leader
       reward_score_units onboarding_score_units =
     (let raw_onboarding_units = onboarding_reward_units settlement_reward;
          onboarding_units = (if onboarding_score_units = [] then 0 else raw_onboarding_units);
          validator_units = settlement_reward - onboarding_units;
          merged = distribute_pool leader (validator_units + settled_fee + reserve_subsidy)
                     reward_score_units True [];
          merged = distribute_pool leader onboarding_units onboarding_score_units False merged
      in \<lparr>cb_outputs = filter (\<lambda>(pub, units). units \<noteq> 0) merged,
          cb_total = settlement_reward + settled_fee + reserve_subsidy,
          cb_settled_epoch_fees = settled_fee,
          cb_settled_epoch_rewards = settlement_reward,
          cb_reserve_subsidy_units = reserve_subsidy\<rparr>)"

subsection \<open>Shares of a pool\<close>

lemma floor_shares_le:
  fixes f :: "'a \<Rightarrow> nat"
  assumes "sum_list (map f xs) \<le> T" and "0 < T"
  shows "sum_list (map (\<lambda>x. a * f x div T) xs) \<le> a"
proof -
  have "sum_list (map (\<lambda>x. a * f x div T) xs) * T \<le> a * sum_list (map f xs)"
  proof (induction xs)
    case (Cons x xs)
    have "a * f x div T * T \<le> a * f x" by simp
    from add_mono [OF this Cons.IH] show ?case by (simp only: list.map sum_list.Cons add_mult_distrib add_mult_distrib2)
  qed simp
  also have "\<dots> \<le> a * T" using assms(1) by simp
  finally show ?thesis using assms(2) by simp
qed

text \<open>The sum of the scores of a list of entries, and of the shares they get.\<close>

abbreviation score_sum :: "('k \<times> u64) list \<Rightarrow> nat" where
  "score_sum xs \<equiv> sum_list (map (\<lambda>e. unat (snd e)) xs)"

abbreviation share_sum :: "u64 \<Rightarrow> u64 \<Rightarrow> ('k \<times> u64) list \<Rightarrow> nat" where
  "share_sum pool T xs \<equiv> sum_list (map (\<lambda>e. unat (mul_div_u64 pool (snd e) T)) xs)"

lemma share_eq:
  assumes "e \<in> set xs" and "score_sum xs \<le> unat T" and "T \<noteq> 0"
  shows "unat (mul_div_u64 pool (snd e) T) = unat pool * unat (snd e) div unat T"
proof -
  have "unat (snd e) \<le> score_sum xs" using assms(1) by (intro member_le_sum_list) auto
  then show ?thesis using assms(2,3) by (intro mul_div_le(1)) (simp_all add: word_le_nat_alt)
qed

lemma share_sum_le:
  assumes "score_sum xs \<le> unat T" and "T \<noteq> 0"
  shows "share_sum pool T xs \<le> unat pool"
proof -
  have "share_sum pool T xs = sum_list (map (\<lambda>e. unat pool * unat (snd e) div unat T) xs)"
    using share_eq [OF _ assms] by (intro arg_cong [of _ _ sum_list] map_cong refl) auto
  also have "\<dots> \<le> unat pool"
    using assms by (intro floor_shares_le) (auto simp: unat_gt_0)
  finally show ?thesis .
qed

lemma unat_score_fold:
  "unat t + score_sum xs < 18446744073709551616 \<Longrightarrow>
   unat (foldl (\<lambda>t (pub, score). if score = 0 then t else t + score) t xs) = unat t + score_sum xs"
proof (induction xs arbitrary: t)
  case (Cons e xs)
  have "unat t + unat (snd e) < 18446744073709551616" using Cons.prems by simp
  then have "unat (t + snd e) = unat t + unat (snd e)" by (rule unat_add_u64)
  with Cons.IH [of "t + snd e"] Cons.IH [of t] Cons.prems show ?case by (cases e) auto
qed simp

subsection \<open>The payout of a block\<close>

lemma omap_upd_snoc: "\<forall>e \<in> set m. fst e < k \<Longrightarrow> omap_upd k v m = m @ [(k, v)]"
  by (induction m) (auto simp: not_less_iff_gr_or_eq)

lemma payout_scores_eq:
  "sorted_wrt (<) (map wp_pubkey ps) \<Longrightarrow>
   payout_scores leader ps
     = (map (\<lambda>p. (wp_pubkey p, participant_score p leader)) (filter (\<lambda>p. participant_score p leader \<noteq> 0) ps),
        sum_list (map (\<lambda>p. participant_score p leader) ps))"
proof (induction ps rule: rev_induct)
  case (snoc p ps)
  then have "payout_scores leader ps
     = (map (\<lambda>p. (wp_pubkey p, participant_score p leader)) (filter (\<lambda>p. participant_score p leader \<noteq> 0) ps),
        sum_list (map (\<lambda>p. participant_score p leader) ps))"
    by (simp add: sorted_wrt_append)
  moreover have "\<forall>q \<in> set ps. wp_pubkey q < wp_pubkey p" using snoc.prems by (simp add: sorted_wrt_append)
  ultimately show ?case
    by (simp add: payout_scores_def Let_def omap_upd_snoc)
qed (simp add: payout_scores_def)

lemma payout_shares_sum:
  assumes "share_sum tot T xs < 18446744073709551616"
  shows "case payout_shares leader tot T xs of (d, l, s) \<Rightarrow>
    unat d = share_sum tot T xs \<and> unat l + score_sum s = share_sum tot T xs
    \<and> s = map (\<lambda>e. (fst e, mul_div_u64 tot (snd e) T)) (filter (\<lambda>e. fst e \<noteq> leader) xs)"
  using assms
proof (induction xs rule: rev_induct)
  case (snoc e xs)
  obtain d l s where r: "payout_shares leader tot T xs = (d, l, s)" by (cases "payout_shares leader tot T xs")
  let ?sh = "mul_div_u64 tot (snd e) T"
  have room: "share_sum tot T xs + unat ?sh < 18446744073709551616" using snoc.prems by simp
  have IH: "unat d = share_sum tot T xs" "unat l + score_sum s = share_sum tot T xs"
      "s = map (\<lambda>e. (fst e, mul_div_u64 tot (snd e) T)) (filter (\<lambda>e. fst e \<noteq> leader) xs)"
    using snoc.IH room r by auto
  have "unat (d + ?sh) = unat d + unat ?sh" using room IH(1) by (intro unat_add_u64) simp
  moreover have "unat (l + ?sh) = unat l + unat ?sh" using room IH(2) by (intro unat_add_u64) linarith
  moreover have "payout_shares leader tot T (xs @ [e]) = (d + ?sh,
      if fst e = leader then l + ?sh else l, if fst e = leader then s else s @ [(fst e, ?sh)])"
    using r by (cases e) (simp add: payout_shares_def Let_def)
  ultimately show ?case using IH by auto
qed (simp add: payout_shares_def)

definition payout_entries :: "pubkey32 \<Rightarrow> WeightedParticipant list \<Rightarrow> (pubkey32 \<times> u64) list" where
  "payout_entries leader ps =
     map (\<lambda>p. (wp_pubkey p, participant_score p leader))
         (filter (\<lambda>p. participant_score p leader \<noteq> 0) (unique_by wp_pubkey (sort_key wp_pubkey ps)))"

lemma unat_sum_list_words:
  "sum_list (map (\<lambda>x. unat (f x)) xs) < 18446744073709551616 \<Longrightarrow>
   unat (sum_list (map f xs) :: u64) = sum_list (map (\<lambda>x. unat (f x)) xs)"
  by (induction xs) (simp_all add: unat_add_u64)

lemma sum_drop_zeros:
  "sum_list (map (\<lambda>x. unat (f x)) (filter (\<lambda>x. f x \<noteq> (0 :: u64)) xs)) = sum_list (map (\<lambda>x. unat (f x)) xs)"
  by (induction xs) auto

lemma payout_entries_scores:
  assumes "score_sum (payout_entries leader ps) < 18446744073709551616"
  shows "payout_scores leader (unique_by wp_pubkey (sort_key wp_pubkey ps))
     = (payout_entries leader ps, word_of_nat (score_sum (payout_entries leader ps)))"
proof -
  let ?us = "unique_by wp_pubkey (sort_key wp_pubkey ps)" and ?f = "\<lambda>p. participant_score p leader"
  have "score_sum (payout_entries leader ps) = sum_list (map (\<lambda>p. unat (?f p)) ?us)"
    by (simp add: payout_entries_def o_def sum_drop_zeros)
  moreover from this have "unat (sum_list (map ?f ?us)) = sum_list (map (\<lambda>p. unat (?f p)) ?us)"
    using assms by (intro unat_sum_list_words) simp
  ultimately have "sum_list (map ?f ?us) = word_of_nat (score_sum (payout_entries leader ps))"
    using unat_of_nat_u64 [OF assms] by (simp add: unat_eq_iff)
  moreover have "sorted_wrt (<) (map wp_pubkey ?us)"
    by (intro unique_by_strict_sorted) simp
  ultimately show ?thesis by (simp add: payout_scores_eq payout_entries_def)
qed

lemma score_total_nonzero:
  assumes T: "score_sum (payout_entries leader ps) < 18446744073709551616" and ne: "payout_entries leader ps \<noteq> []"
  shows "(word_of_nat (score_sum (payout_entries leader ps)) :: u64) \<noteq> 0"
proof -
  obtain e where e: "e \<in> set (payout_entries leader ps)" using ne by (cases "payout_entries leader ps") auto
  then have "snd e \<noteq> 0" by (auto simp: payout_entries_def)
  moreover have "unat (snd e) \<le> score_sum (payout_entries leader ps)"
    using e by (intro member_le_sum_list) auto
  ultimately have "unat (word_of_nat (score_sum (payout_entries leader ps)) :: u64) \<noteq> 0"
    unfolding unat_of_nat_u64 [OF T] by (metis le_zero_eq unat_eq_0)
  then show ?thesis by (simp add: unat_eq_0)
qed

lemma sorted_wrt_map_filter: "sorted_wrt R (map f xs) \<Longrightarrow> sorted_wrt R (map f (filter P xs))"
  by (induction xs) auto

lemma weighted_payout_eq:
  fixes ps :: "WeightedParticipant list" and leader :: pubkey32
  defines "xs \<equiv> payout_entries leader ps"
  defines "T \<equiv> score_sum xs"
  assumes T: "score_sum (payout_entries leader ps) < 18446744073709551616" and ne: "payout_entries leader ps \<noteq> []"
  shows "\<exists>po. compute_weighted_payout h fees leader ps = Some po
    \<and> po_total po = validator_reward_units h + fees
    \<and> po_signers po = map (\<lambda>e. (fst e, mul_div_u64 (po_total po) (snd e) (word_of_nat T)))
                           (filter (\<lambda>e. fst e \<noteq> leader) xs)
    \<and> unat (po_leader po) + score_sum (po_signers po) = unat (po_total po)"
proof -
  let ?tot = "validator_reward_units h + fees" and ?T = "word_of_nat T :: u64"
  have uT: "unat ?T = T" using T by (simp add: T_def xs_def unat_of_nat_u64)
  have T0: "?T \<noteq> 0" unfolding T_def xs_def by (rule score_total_nonzero [OF T ne])
  obtain d l s where r: "payout_shares leader ?tot ?T xs = (d, l, s)" by (cases "payout_shares leader ?tot ?T xs")
  have le: "share_sum ?tot ?T xs \<le> unat ?tot"
    using T0 uT by (intro share_sum_le) (auto simp: T_def)
  then have sums: "unat d = share_sum ?tot ?T xs" "unat l + score_sum s = share_sum ?tot ?T xs"
      "s = map (\<lambda>e. (fst e, mul_div_u64 ?tot (snd e) ?T)) (filter (\<lambda>e. fst e \<noteq> leader) xs)"
    using payout_shares_sum [of ?tot ?T xs leader] r le_less_trans [OF le unat_u64_less] by auto
  have rem: "unat (?tot - d) = unat ?tot - unat d" using le sums(1) by (intro unat_sub_u64) simp
  have "unat (if ?tot - d > 0 then l + (?tot - d) else l) = unat l + (unat ?tot - unat d)"
  proof (cases "?tot - d > 0")
    case True
    have "unat l + unat (?tot - d) < 18446744073709551616"
      using rem sums(1,2) le le_less_trans [OF _ unat_u64_less [of ?tot]] by simp
    with True rem show ?thesis by (simp add: unat_add_u64)
  next
    case False
    then have "unat ?tot - unat d = 0" using rem by (simp add: word_less_nat_alt)
    with False show ?thesis by simp
  qed
  moreover have "compute_weighted_payout h fees leader ps = Some \<lparr>po_leader = (if ?tot - d > 0 then l + (?tot - d) else l),
      po_signers = s, po_total = ?tot\<rparr>"
    using payout_entries_scores [OF T] ne T0 r
    by (simp add: compute_weighted_payout_def Let_def xs_def T_def)
  ultimately show ?thesis using sums le by simp
qed

text \<open>
  C18. \<^verbatim>\<open>compute_weighted_payout\<close> pays out exactly the reward and the fees: whenever the scores of the
  distinct participants do not add up to \<open>2 ^ 64\<close> it returns (the division never traps), the units of
  the leader and of the signers sum to the total, every signer gets the floor of its proportional
  share, the leader is not among the signers, and the signers are strictly ascending by key.
\<close>

theorem weighted_payout_conserves:
  assumes "score_sum (payout_entries leader ps) < 18446744073709551616"
  shows "case compute_weighted_payout h fees leader ps of
      None \<Rightarrow> False
    | Some po \<Rightarrow>
        po_total po = validator_reward_units h + fees
        \<and> unat (po_leader po) + score_sum (po_signers po) = unat (po_total po)
        \<and> map snd (po_signers po)
            = map (\<lambda>e. word_of_nat (unat (po_total po) * unat (snd e) div score_sum (payout_entries leader ps)))
                (filter (\<lambda>e. fst e \<noteq> leader) (payout_entries leader ps))
        \<and> map fst (po_signers po) = map fst (filter (\<lambda>e. fst e \<noteq> leader) (payout_entries leader ps))
        \<and> sorted_wrt (<) (map fst (po_signers po))"
proof -
  let ?xs = "payout_entries leader ps"
  have sorted: "sorted_wrt (<) (map fst (filter (\<lambda>e. fst e \<noteq> leader) ?xs))"
  proof -
    have "sorted_wrt (<) (map wp_pubkey (unique_by wp_pubkey (sort_key wp_pubkey ps)))"
      by (intro unique_by_strict_sorted) simp
    then have "sorted_wrt (<) (map fst ?xs)"
      unfolding payout_entries_def map_map o_def fst_conv by (rule sorted_wrt_map_filter)
    then show ?thesis by (rule sorted_wrt_map_filter)
  qed
  show ?thesis
  proof (cases "?xs = []")
    case True
    then show ?thesis
      using payout_entries_scores [OF assms] by (simp add: compute_weighted_payout_def Let_def)
  next
    case False
    obtain po where po: "compute_weighted_payout h fees leader ps = Some po"
      "po_total po = validator_reward_units h + fees"
      "po_signers po = map (\<lambda>e. (fst e, mul_div_u64 (po_total po) (snd e) (word_of_nat (score_sum ?xs))))
                           (filter (\<lambda>e. fst e \<noteq> leader) ?xs)"
      "unat (po_leader po) + score_sum (po_signers po) = unat (po_total po)"
      using weighted_payout_eq [OF assms False] by blast
    show ?thesis
      using po sorted score_total_nonzero [OF assms False] unat_of_nat_u64 [OF assms]
      by (simp add: mul_div_u64_word o_def)
  qed
qed

lemma weighted_payout_conserves_witness:
  "compute_weighted_payout 3000000 100 [1]
     [\<lparr>wp_pubkey = [2], wp_bonded_amount = 9, wp_effective_weight = 3, wp_participation_bps = 10000\<rparr>,
      \<lparr>wp_pubkey = [1], wp_bonded_amount = 1, wp_effective_weight = 1, wp_participation_bps = 10000\<rparr>] \<noteq> None"
  using weighted_payout_conserves [of "[1]"
     "[\<lparr>wp_pubkey = [2], wp_bonded_amount = 9, wp_effective_weight = 3, wp_participation_bps = 10000\<rparr>,
       \<lparr>wp_pubkey = [1], wp_bonded_amount = 1, wp_effective_weight = 1, wp_participation_bps = 10000\<rparr>]" 3000000 100]
  by (simp add: payout_entries_def participant_score_def Let_def split: option.splits)

subsection \<open>The settlement of an epoch\<close>

definition share_step ::
  "u64 \<Rightarrow> u64 \<Rightarrow> (pubkey32, u64) omap \<times> u64 \<times> pubkey32 option \<Rightarrow> pubkey32 \<times> u64
     \<Rightarrow> (pubkey32, u64) omap \<times> u64 \<times> pubkey32 option" where
  "share_step pool T = (\<lambda>(m, d, l) (pub, score).
     if score = 0 then (m, d, l)
     else let share = mul_div_u64 pool score T in (omap_add pub share m, d + share, Some pub))"

lemma share_fold:
  assumes "omap_ok m0" and "omap_sum m0 + share_sum pool T xs < 18446744073709551616" and "T \<noteq> 0"
  shows "case foldl (share_step pool T) (m0, 0, None) xs of (m, d, l) \<Rightarrow>
    omap_ok m \<and> unat d = share_sum pool T xs \<and> omap_sum m = omap_sum m0 + unat d
    \<and> (l = None \<longleftrightarrow> (\<forall>e \<in> set xs. snd e = 0))"
  using assms
proof (induction xs rule: rev_induct)
  case (snoc e xs)
  obtain m d l where r: "foldl (share_step pool T) (m0, 0, None) xs = (m, d, l)"
    by (cases "foldl (share_step pool T) (m0, 0, None) xs")
  let ?sh = "mul_div_u64 pool (snd e) T"
  have room: "omap_sum m0 + (share_sum pool T xs + unat ?sh) < 18446744073709551616" using snoc.prems by simp
  have IH: "omap_ok m" "unat d = share_sum pool T xs" "omap_sum m = omap_sum m0 + unat d"
      "l = None \<longleftrightarrow> (\<forall>e \<in> set xs. snd e = 0)"
    using snoc.IH snoc.prems r by auto
  have zero: "snd e = 0 \<Longrightarrow> unat ?sh = 0" using snoc.prems(3) by (simp add: mul_div_u64_val)
  have "unat (d + ?sh) = unat d + unat ?sh" using room IH(2) by (intro unat_add_u64) linarith
  moreover have "omap_sum (omap_add (fst e) ?sh m) = omap_sum m + unat ?sh"
    using room IH by (intro omap_sum_add) linarith+
  ultimately show ?case
    using IH r zero by (cases e) (auto simp: share_step_def Let_def)
qed auto

lemma distribute_pool_sum:
  assumes ok: "omap_ok m0" and room: "omap_sum m0 + unat pool < 18446744073709551616"
    and scores: "score_sum xs < 18446744073709551616"
  shows "omap_ok (distribute_pool leader pool xs fb m0)
    \<and> omap_sum (distribute_pool leader pool xs fb m0)
        = omap_sum m0 + (if (\<forall>e \<in> set xs. snd e = 0) \<and> \<not> fb then 0 else unat pool)"
proof -
  define T where "T = foldl (\<lambda>t (pub, score). if score = 0 then t else t + score) (0 :: u64) xs"
  have uT: "unat T = score_sum xs" using unat_score_fold [of 0 xs] scores by (simp add: T_def)
  have T0: "T = 0 \<longleftrightarrow> (\<forall>e \<in> set xs. snd e = 0)"
  proof -
    have "T = 0 \<longleftrightarrow> score_sum xs = 0" using uT by (metis unat_eq_0)
    then show ?thesis by (auto simp: unat_eq_0)
  qed
  show ?thesis
  proof (cases "pool = 0 \<or> T = 0")
    case True
    then show ?thesis
      using ok room omap_sum_add [OF ok room] T0
      by (auto simp: distribute_pool_def T_def [symmetric] Let_def)
  next
    case False
    obtain m d l where r: "foldl (share_step pool T) (m0, 0, None) xs = (m, d, l)"
      by (cases "foldl (share_step pool T) (m0, 0, None) xs")
    have le: "share_sum pool T xs \<le> unat pool" using False uT by (intro share_sum_le) auto
    have "omap_sum m0 + share_sum pool T xs < 18446744073709551616" using le room by linarith
    from share_fold [OF ok this] False r
    have f: "omap_ok m" "unat d = share_sum pool T xs" "omap_sum m = omap_sum m0 + unat d" "l \<noteq> None"
      using T0 by auto
    then obtain pub where l: "l = Some pub" by auto
    have rem: "unat (pool - d) = unat pool - unat d" using le f(2) by (intro unat_sub_u64) simp
    have "omap_sum m + unat (pool - d) < 18446744073709551616" using rem f le room by linarith
    then have add: "omap_sum (omap_add pub (pool - d) m) = omap_sum m0 + unat pool"
      using omap_sum_add [OF f(1)] rem f le by simp
    have "distribute_pool leader pool xs fb m0 = (if pool - d > 0 then omap_add pub (pool - d) m else m)"
      using False r l by (simp add: distribute_pool_def T_def [symmetric] Let_def share_step_def)
    moreover have "\<not> pool - d > 0 \<Longrightarrow> omap_sum m = omap_sum m0 + unat pool"
      using rem f le by (simp add: word_less_nat_alt)
    ultimately show ?thesis using f(1) add False T0 by auto
  qed
qed

lemma omap_sum_drop_zeros: "omap_sum (filter (\<lambda>(pub, units). units \<noteq> 0) m) = omap_sum m"
  by (induction m) auto

text \<open>
  C19. The settlement of an epoch pays every unit exactly once: if the total and the sums of the scores
  fit 64 bits, the outputs add up to the settled rewards, fees and subsidy, except for the onboarding
  share in the one case that onboarding entries exist and all their scores are zero, where that share is
  paid to nobody. The outputs are strictly ascending by recipient and none is zero.
\<close>

theorem epoch_settlement_conserves:
  assumes tot: "unat reward + unat fee + unat subsidy < 18446744073709551616"
    and "score_sum reward_scores < 18446744073709551616" and "score_sum onboarding_scores < 18446744073709551616"
  shows "let out = compute_epoch_settlement_payout reward fee subsidy leader reward_scores onboarding_scores
    in omap_sum (cb_outputs out)
         + (if onboarding_scores \<noteq> [] \<and> list_all (\<lambda>e. snd e = 0) onboarding_scores
            then unat (onboarding_reward_units reward) else 0)
       = unat (cb_total out)
     \<and> unat (cb_total out) = unat reward + unat fee + unat subsidy
     \<and> sorted_wrt (<) (map fst (cb_outputs out)) \<and> list_all (\<lambda>e. snd e \<noteq> 0) (cb_outputs out)"
proof -
  define ob where "ob = (if onboarding_scores = [] then 0 else onboarding_reward_units reward)"
  have ob_le: "unat ob \<le> unat reward"
    using mul_div_le(2) [of ONBOARDING_REWARD_BPS 10000 reward]
    by (simp add: ob_def onboarding_reward_units_def ONBOARDING_REWARD_BPS_def word_le_nat_alt)
  have u1: "unat (reward - ob) = unat reward - unat ob" using ob_le by (rule unat_sub_u64)
  have u2: "unat (reward - ob + fee + subsidy) = unat reward - unat ob + unat fee + unat subsidy"
    using tot u1 by (simp add: unat_add_u64)
  have u3: "unat (reward + fee + subsidy) = unat reward + unat fee + unat subsidy"
    using tot by (simp add: unat_add_u64)
  define m1 where "m1 = distribute_pool leader (reward - ob + fee + subsidy) reward_scores True []"
  have m1: "omap_ok m1" "omap_sum m1 = unat (reward - ob + fee + subsidy)"
    using distribute_pool_sum [of "[]" "reward - ob + fee + subsidy" reward_scores leader True] assms(2)
    by (simp_all add: m1_def)
  define m2 where "m2 = distribute_pool leader ob onboarding_scores False m1"
  have "omap_sum m1 + unat ob < 18446744073709551616" using m1 u2 tot ob_le by simp
  from distribute_pool_sum [OF m1(1) this assms(3), of leader False]
  have m2: "omap_ok m2"
      "omap_sum m2 = omap_sum m1 + (if \<forall>e \<in> set onboarding_scores. snd e = 0 then 0 else unat ob)"
    by (simp_all add: m2_def)
  have out: "cb_outputs (compute_epoch_settlement_payout reward fee subsidy leader reward_scores onboarding_scores)
      = filter (\<lambda>(pub, units). units \<noteq> 0) m2"
    "cb_total (compute_epoch_settlement_payout reward fee subsidy leader reward_scores onboarding_scores)
      = reward + fee + subsidy"
    by (simp_all add: compute_epoch_settlement_payout_def Let_def m1_def m2_def ob_def)
  have "omap_ok (filter (\<lambda>(pub, units). units \<noteq> 0) m2)" using m2(1) by simp
  moreover have "omap_sum m2 + (if onboarding_scores \<noteq> [] \<and> list_all (\<lambda>e. snd e = 0) onboarding_scores
      then unat (onboarding_reward_units reward) else 0) = unat reward + unat fee + unat subsidy"
    using m1 m2 u2 ob_le by (auto simp: list_all_iff ob_def)
  ultimately show ?thesis
    by (simp add: Let_def out omap_sum_drop_zeros u3 omap_ok_def list_all_iff)
qed

lemma epoch_settlement_conserves_witness:
  "omap_sum (cb_outputs (compute_epoch_settlement_payout 1000 50 0 [7] [([1], 2), ([2], 1)] [([3], 5)])) = 1050"
  using epoch_settlement_conserves [of 1000 50 0 "[([1], 2), ([2], 1)]" "[([3], 5)]" "[7]"]
  by (simp add: Let_def)

end
