(* ===== verification/Tx_Types.thy ===== *)
theory Tx_Types
  imports Codec
begin

text \<open>
  The data types of \<^verbatim>\<open>src/src/utxo/tx.hpp\<close>, in the order of the header. A struct is a record, an enum a
  datatype, and a struct that is the key of a \<^verbatim>\<open>std::map\<close> a datatype with the order its
  \<^verbatim>\<open>operator<\<close> defines. The anonymous unions of the certificates and of \<^verbatim>\<open>Vote\<close> hold one hash under
  two names and are one field here.
\<close>

record TxIn =
  in_prev_txid :: hash32
  in_prev_index :: u32
  in_script_sig :: bytes
  in_sequence :: u32

record TxOut =
  out_value :: u64
  out_script_pubkey :: bytes

record TxHashcashStamp =
  hc_version :: u32
  hc_epoch_bucket :: u64
  hc_bits :: u32
  hc_nonce :: u64

record Tx =
  tx_version :: u32
  tx_inputs :: "TxIn list"
  tx_outputs :: "TxOut list"
  tx_lock_time :: u32
  tx_hashcash :: "TxHashcashStamp option"

record BlockHeader =
  bh_prev_finalized_hash :: hash32
  bh_prev_finality_cert_hash :: hash32
  bh_height :: u64
  bh_timestamp :: u64
  bh_merkle_root :: hash32
  bh_leader_pubkey :: pubkey32
  bh_leader_signature :: sig64
  bh_round :: u32

record FinalitySig =
  fs_validator_pubkey :: pubkey32
  fs_signature :: sig64

record FinalityProof =
  fp_sigs :: "FinalitySig list"

record FinalityCertificate =
  fc_height :: u64
  fc_round :: u32
  fc_frontier_transition_id :: hash32
  fc_quorum_threshold :: u32
  fc_committee_members :: "pubkey32 list"
  fc_signatures :: "FinalitySig list"

record QuorumCertificate =
  qc_height :: u64
  qc_round :: u32
  qc_frontier_transition_id :: hash32
  qc_signatures :: "FinalitySig list"

record TimeoutVote =
  tv_height :: u64
  tv_round :: u32
  tv_validator_pubkey :: pubkey32
  tv_signature :: sig64

record TimeoutCertificate =
  tc_height :: u64
  tc_round :: u32
  tc_signatures :: "FinalitySig list"

record Block =
  blk_header :: BlockHeader
  blk_txs :: "Tx list"
  blk_finality_proof :: FinalityProof

datatype FrontierRejectReason =
  NONE | TX_PARSE_FAILED | TX_INVALID | CONFLICT_DOMAIN_USED | CONFIDENTIAL_TURNSTILE_NEGATIVE

record FrontierDecision =
  fd_record_id :: hash32
  fd_accepted :: bool
  fd_reject_reason :: FrontierRejectReason

record FrontierSettlement =
  st_settlement_epoch_start :: u64
  st_outputs :: "(pubkey32 \<times> u64) list"
  st_total :: u64
  st_current_fees :: u64
  st_settled_epoch_fees :: u64
  st_settled_epoch_rewards :: u64
  st_reserve_subsidy_units :: u64

definition INGRESS_LANE_COUNT :: nat where "INGRESS_LANE_COUNT = 8"

record FrontierVector =
  fv_lane_max_seq :: "u64 list"

record TimeSignatureAggregate =
  ts_signer_indices :: "u32 list"
  ts_aggregate :: bytes

record LongTimeSignature =
  lts_unlock_height :: u64
  lts_committee_root :: hash32
  lts_signature :: TimeSignatureAggregate

record FrontierTransition =
  ft_prev_finalized_hash :: hash32
  ft_prev_finality_link_hash :: hash32
  ft_height :: u64
  ft_timestamp :: u64
  ft_round :: u32
  ft_leader_pubkey :: pubkey32
  ft_leader_vrf_proof :: bytes
  ft_prev_vector :: FrontierVector
  ft_next_vector :: FrontierVector
  ft_ingress_commitment :: hash32
  ft_prev_frontier :: u64
  ft_next_frontier :: u64
  ft_prev_state_root :: hash32
  ft_next_state_root :: hash32
  ft_next_state_commitment :: hash32
  ft_ordered_slice_commitment :: hash32
  ft_decisions_commitment :: hash32
  ft_quorum_threshold :: u32
  ft_prev_finality_round :: u32
  ft_prev_finality_signers :: "FinalitySig list"
  ft_prev_time_signature :: TimeSignatureAggregate
  ft_long_time_signatures :: "LongTimeSignature list"
  ft_settlement :: FrontierSettlement
  ft_settlement_commitment :: hash32

record FrontierProposal =
  fpr_transition :: FrontierTransition
  fpr_ordered_records :: "bytes list"

record IngressCertificate =
  ic_epoch :: u64
  ic_lane :: u32
  ic_seq :: u64
  ic_txid :: hash32
  ic_tx_hash :: hash32
  ic_prev_lane_root :: hash32
  ic_sigs :: "FinalitySig list"

record LaneState =
  ls_epoch :: u64
  ls_lane :: u32
  ls_max_seq :: u64
  ls_lane_root :: hash32

record Vote =
  vote_height :: u64
  vote_round :: u32
  vote_frontier_transition_id :: hash32
  vote_validator_pubkey :: pubkey32
  vote_signature :: sig64

record EquivocationEvidence =
  ev_a :: Vote
  ev_b :: Vote

datatype SlashVoteKind = Precommit | Prevote

datatype OutPoint = OutPoint (op_txid: hash32) (op_index: u32)

definition op_key :: "OutPoint \<Rightarrow> hash32 \<times> u32" where
  "op_key a = (op_txid a, op_index a)"

lemma op_key_inject: "op_key a = op_key b \<longleftrightarrow> a = b"
  by (auto simp: op_key_def OutPoint.expand)

instantiation OutPoint :: linorder
begin

definition less_eq_OutPoint :: "OutPoint \<Rightarrow> OutPoint \<Rightarrow> bool" where
  "less_eq_OutPoint a b \<longleftrightarrow> op_key a \<le> op_key b"

definition less_OutPoint :: "OutPoint \<Rightarrow> OutPoint \<Rightarrow> bool" where
  "less_OutPoint a b \<longleftrightarrow> op_key a < op_key b"

instance
  by standard (auto simp: less_eq_OutPoint_def less_OutPoint_def op_key_inject [symmetric])

end

record UtxoConfidentialData =
  uc_value_commitment :: bytes
  uc_one_time_pubkey :: bytes
  uc_ephemeral_pubkey :: bytes
  uc_scan_tag :: u8
  uc_memo :: bytes

text \<open>\<^verbatim>\<open>UtxoEntryV2\<close>: its kind and the alternative of its variant always agree.\<close>

datatype UtxoEntryV2 = UtxoTransparent TxOut | UtxoConfidential UtxoConfidentialData

type_synonym UtxoSetV2 = "(OutPoint, UtxoEntryV2) omap"

record RegistrationScriptData =
  rs_validator_pubkey :: pubkey32
  rs_payout_pubkey :: pubkey32
  rs_pop :: sig64
  rs_bls_pubkey :: bytes
  rs_bls_pop :: bytes
  rs_has_admission_pow :: bool
  rs_admission_pow_epoch :: u64
  rs_admission_pow_nonce :: u64

datatype ValidatorJoinRequestStatus = REQUESTED | APPROVED

record ValidatorJoinRequest =
  jr_request_txid :: hash32
  jr_validator_pubkey :: pubkey32
  jr_payout_pubkey :: pubkey32
  jr_bond_outpoint :: OutPoint
  jr_bond_amount :: u64
  jr_requested_height :: u64
  jr_approved_height :: u64
  jr_status :: ValidatorJoinRequestStatus
  jr_bls_pubkey :: bytes

end
