(* ===== verification/Tx_Codec.thy ===== *)
theory Tx_Codec
  imports Tx_Types
begin

text \<open>
  Serialization of transactions, UTXO entries, blocks and finality certificates
  (\<^verbatim>\<open>src/src/utxo/tx.cpp\<close>, first half). Each serializer is paired with the reader of its parser in an
  interpretation of \<open>wire_codec\<close>, whose well-formedness predicate says which values the parser can
  return. The hash \<^verbatim>\<open>crypto::sha256d\<close> is a parameter of the definitions that use it.
\<close>

text \<open>A reader followed by a test of what was read.\<close>

definition rd_guard :: "('a \<Rightarrow> bool) \<Rightarrow> 'a parser \<Rightarrow> 'a parser" where
  "rd_guard P p r = do { (x, r) \<leftarrow> p r; if P x then Some (x, r) else None }"

definition kMaxTxInputs :: u64 where "kMaxTxInputs = 10000"
definition kMaxTxOutputs :: u64 where "kMaxTxOutputs = 10000"
definition kMaxScriptBytes :: nat where "kMaxScriptBytes = 256 * 1024"
definition kMaxMemoBytes :: nat where "kMaxMemoBytes = 64 * 1024"
definition MAX_COMMITTEE :: nat where "MAX_COMMITTEE = 128"

subsection \<open>UTXO entries\<close>

definition wr_tx_out :: "TxOut \<Rightarrow> bytes" where
  "wr_tx_out o' = wr_u64le (out_value o') @ wr_varbytes (out_script_pubkey o')"

definition rd_tx_out :: "TxOut parser" where
  "rd_tx_out r = do {
     (value, r) \<leftarrow> rd_u64le r;
     (script, r) \<leftarrow> rd_varbytes r;
     Some (\<lparr>out_value = value, out_script_pubkey = script\<rparr>, r) }"

definition rd_tx_out_limited :: "TxOut parser" where
  "rd_tx_out_limited = rd_guard (\<lambda>o'. length (out_script_pubkey o') \<le> kMaxScriptBytes) rd_tx_out"

fun serialize_utxo_entry_v2 :: "UtxoEntryV2 \<Rightarrow> bytes" where
  "serialize_utxo_entry_v2 (UtxoTransparent o') = wr_u8 0 @ wr_tx_out o'"
| "serialize_utxo_entry_v2 (UtxoConfidential c) =
     wr_u8 1 @ wr_bytes_fixed (uc_value_commitment c) @ wr_bytes_fixed (uc_one_time_pubkey c)
     @ wr_bytes_fixed (uc_ephemeral_pubkey c) @ wr_u8 (uc_scan_tag c) @ wr_varbytes (uc_memo c)"

definition rd_utxo_entry_v2 :: "UtxoEntryV2 parser" where
  "rd_utxo_entry_v2 r = do {
     (kind, r) \<leftarrow> rd_u8 r;
     if kind > 1 then None
     else if kind = 0 then do { (o', r) \<leftarrow> rd_tx_out_limited r; Some (UtxoTransparent o', r) }
     else do {
       (value_commitment, r) \<leftarrow> rd_bytes_fixed 33 r;
       (one_time_pubkey, r) \<leftarrow> rd_bytes_fixed 33 r;
       (ephemeral_pubkey, r) \<leftarrow> rd_bytes_fixed 33 r;
       (scan_tag, r) \<leftarrow> rd_u8 r;
       (memo, r) \<leftarrow> rd_varbytes r;
       if length memo > kMaxMemoBytes then None
       else Some (UtxoConfidential \<lparr>uc_value_commitment = value_commitment, uc_one_time_pubkey = one_time_pubkey,
                    uc_ephemeral_pubkey = ephemeral_pubkey, uc_scan_tag = scan_tag, uc_memo = memo\<rparr>, r) } }"

definition parse_utxo_entry_v2 :: "bytes \<Rightarrow> UtxoEntryV2 option" where
  "parse_utxo_entry_v2 b = parse_exact b rd_utxo_entry_v2"

fun transparent_txout_from_utxo_entry :: "UtxoEntryV2 \<Rightarrow> TxOut option" where
  "transparent_txout_from_utxo_entry (UtxoTransparent o') = Some o'"
| "transparent_txout_from_utxo_entry (UtxoConfidential c) = None"

subsection \<open>Transactions\<close>

definition wr_tx_in :: "TxIn \<Rightarrow> bytes" where
  "wr_tx_in i = wr_bytes_fixed (in_prev_txid i) @ wr_u32le (in_prev_index i) @ wr_varbytes (in_script_sig i)
     @ wr_u32le (in_sequence i)"

definition rd_tx_in :: "TxIn parser" where
  "rd_tx_in r = do {
     (prev, r) \<leftarrow> rd_bytes_fixed 32 r;
     (idx, r) \<leftarrow> rd_u32le r;
     (script, r) \<leftarrow> rd_varbytes r;
     (seq, r) \<leftarrow> rd_u32le r;
     Some (\<lparr>in_prev_txid = prev, in_prev_index = idx, in_script_sig = script, in_sequence = seq\<rparr>, r) }"

definition rd_tx_in_limited :: "TxIn parser" where
  "rd_tx_in_limited = rd_guard (\<lambda>i. length (in_script_sig i) \<le> kMaxScriptBytes) rd_tx_in"

definition serialize_without_hashcash :: "Tx \<Rightarrow> bytes" where
  "serialize_without_hashcash t =
     wr_u32le (tx_version t) @ wr_vec wr_tx_in (tx_inputs t) @ wr_vec wr_tx_out (tx_outputs t)
     @ wr_u32le (tx_lock_time t)"

definition wr_hashcash :: "TxHashcashStamp \<Rightarrow> bytes" where
  "wr_hashcash h = wr_u32le (hc_version h) @ wr_u64le (hc_epoch_bucket h) @ wr_u32le (hc_bits h)
     @ wr_u64le (hc_nonce h)"

definition tx_serialize :: "Tx \<Rightarrow> bytes" where
  "tx_serialize t =
     wr_bytes (serialize_without_hashcash t)
     @ (case tx_hashcash t of None \<Rightarrow> wr_u8 0 | Some h \<Rightarrow> wr_u8 1 @ wr_hashcash h)"

definition rd_hashcash :: "TxHashcashStamp parser" where
  "rd_hashcash r = do {
     (version, r) \<leftarrow> rd_u32le r;
     (epoch_bucket, r) \<leftarrow> rd_u64le r;
     (bits, r) \<leftarrow> rd_u32le r;
     (nonce, r) \<leftarrow> rd_u64le r;
     Some (\<lparr>hc_version = version, hc_epoch_bucket = epoch_bucket, hc_bits = bits, hc_nonce = nonce\<rparr>, r) }"

text \<open>The part of \<^verbatim>\<open>Tx::parse\<close> up to the lock time.\<close>

definition rd_tx_core :: "Tx parser" where
  "rd_tx_core r = do {
     (version, r) \<leftarrow> rd_u32le r;
     if version \<noteq> 1 then None else do {
       (inputs, r) \<leftarrow> rd_vec kMaxTxInputs rd_tx_in_limited r;
       (outputs, r) \<leftarrow> rd_vec kMaxTxOutputs rd_tx_out_limited r;
       (lock, r) \<leftarrow> rd_u32le r;
       Some (\<lparr>tx_version = version, tx_inputs = inputs, tx_outputs = outputs, tx_lock_time = lock,
              tx_hashcash = None\<rparr>, r) } }"

definition rd_tx :: "Tx parser" where
  "rd_tx r = do {
     (t, r) \<leftarrow> rd_tx_core r;
     if rd_eof r then Some (t, r)
     else do {
       (has_hashcash, r) \<leftarrow> rd_u8 r;
       if has_hashcash = 0 then (if rd_eof r then Some (t, r) else None)
       else if has_hashcash \<noteq> 1 then None
       else do { (h, r) \<leftarrow> rd_hashcash r; Some (t\<lparr>tx_hashcash := Some h\<rparr>, r) } } }"

definition tx_parse :: "bytes \<Rightarrow> Tx option" where
  "tx_parse b = parse_exact b rd_tx"

definition txid :: "(bytes \<Rightarrow> hash32) \<Rightarrow> Tx \<Rightarrow> hash32" where
  "txid sha256d t = sha256d (serialize_without_hashcash t)"

subsection \<open>Block headers, finality proofs and blocks\<close>

definition bh_serialize_without_signature :: "BlockHeader \<Rightarrow> bytes" where
  "bh_serialize_without_signature h =
     wr_bytes_fixed (bh_prev_finalized_hash h) @ wr_bytes_fixed (bh_prev_finality_cert_hash h)
     @ wr_u64le (bh_height h) @ wr_u64le (bh_timestamp h) @ wr_bytes_fixed (bh_merkle_root h)
     @ wr_bytes_fixed (bh_leader_pubkey h) @ wr_u32le (bh_round h)"

definition bh_serialize :: "BlockHeader \<Rightarrow> bytes" where
  "bh_serialize h =
     wr_bytes_fixed (bh_prev_finalized_hash h) @ wr_bytes_fixed (bh_prev_finality_cert_hash h)
     @ wr_u64le (bh_height h) @ wr_u64le (bh_timestamp h) @ wr_bytes_fixed (bh_merkle_root h)
     @ wr_bytes_fixed (bh_leader_pubkey h) @ wr_u32le (bh_round h) @ wr_bytes_fixed (bh_leader_signature h)"

definition rd_block_header :: "BlockHeader parser" where
  "rd_block_header r = do {
     (prev, r) \<leftarrow> rd_bytes_fixed 32 r;
     (prev_cert, r) \<leftarrow> rd_bytes_fixed 32 r;
     (height, r) \<leftarrow> rd_u64le r;
     (ts, r) \<leftarrow> rd_u64le r;
     (merkle, r) \<leftarrow> rd_bytes_fixed 32 r;
     (leader, r) \<leftarrow> rd_bytes_fixed 32 r;
     (round, r) \<leftarrow> rd_u32le r;
     (leader_sig, r) \<leftarrow> rd_bytes_fixed 64 r;
     Some (\<lparr>bh_prev_finalized_hash = prev, bh_prev_finality_cert_hash = prev_cert, bh_height = height,
            bh_timestamp = ts, bh_merkle_root = merkle, bh_leader_pubkey = leader,
            bh_leader_signature = leader_sig, bh_round = round\<rparr>, r) }"

definition bh_parse :: "bytes \<Rightarrow> BlockHeader option" where
  "bh_parse b = parse_exact b rd_block_header"

definition block_id :: "(bytes \<Rightarrow> hash32) \<Rightarrow> BlockHeader \<Rightarrow> hash32" where
  "block_id sha256d h = sha256d (ascii ''SC-BLOCK-V0'' @ bh_serialize_without_signature h)"

definition wr_sig :: "FinalitySig \<Rightarrow> bytes" where
  "wr_sig s = wr_bytes_fixed (fs_validator_pubkey s) @ wr_bytes_fixed (fs_signature s)"

definition rd_sig :: "FinalitySig parser" where
  "rd_sig r = do {
     (pub, r) \<leftarrow> rd_bytes_fixed 32 r;
     (sig, r) \<leftarrow> rd_bytes_fixed 64 r;
     Some (\<lparr>fs_validator_pubkey = pub, fs_signature = sig\<rparr>, r) }"

definition fp_serialize :: "FinalityProof \<Rightarrow> bytes" where
  "fp_serialize p = wr_vec wr_sig (fp_sigs p)"

definition rd_finality_proof :: "FinalityProof parser" where
  "rd_finality_proof r = do { (sigs, r) \<leftarrow> rd_vec u64_max rd_sig r; Some (\<lparr>fp_sigs = sigs\<rparr>, r) }"

definition fp_parse :: "bytes \<Rightarrow> FinalityProof option" where
  "fp_parse b = parse_exact b rd_finality_proof"

definition fc_serialize :: "FinalityCertificate \<Rightarrow> bytes" where
  "fc_serialize c =
     wr_u64le (fc_height c) @ wr_u32le (fc_round c) @ wr_bytes_fixed (fc_frontier_transition_id c)
     @ wr_u32le (fc_quorum_threshold c) @ wr_vec wr_bytes_fixed (fc_committee_members c)
     @ wr_vec wr_sig (fc_signatures c)"

definition rd_finality_certificate :: "FinalityCertificate parser" where
  "rd_finality_certificate r = do {
     (h, r) \<leftarrow> rd_u64le r;
     (round, r) \<leftarrow> rd_u32le r;
     (block, r) \<leftarrow> rd_bytes_fixed 32 r;
     (quorum, r) \<leftarrow> rd_u32le r;
     (members, r) \<leftarrow> rd_vec (word_of_nat MAX_COMMITTEE) (rd_bytes_fixed 32) r;
     (sigs, r) \<leftarrow> rd_vec (word_of_nat MAX_COMMITTEE) rd_sig r;
     Some (\<lparr>fc_height = h, fc_round = round, fc_frontier_transition_id = block, fc_quorum_threshold = quorum,
            fc_committee_members = members, fc_signatures = sigs\<rparr>, r) }"

definition fc_parse :: "bytes \<Rightarrow> FinalityCertificate option" where
  "fc_parse b = parse_exact b rd_finality_certificate"

definition blk_serialize :: "Block \<Rightarrow> bytes" where
  "blk_serialize b =
     wr_varbytes (bh_serialize (blk_header b)) @ wr_vec (\<lambda>t. wr_bytes (serialize_without_hashcash t)) (blk_txs b)
     @ wr_bytes (fp_serialize (blk_finality_proof b))"

text \<open>A transaction inside \<^verbatim>\<open>Block::parse\<close>: no version test and no bounds.\<close>

definition rd_block_tx :: "Tx parser" where
  "rd_block_tx r = do {
     (version, r) \<leftarrow> rd_u32le r;
     (inputs, r) \<leftarrow> rd_vec u64_max rd_tx_in r;
     (outputs, r) \<leftarrow> rd_vec u64_max rd_tx_out r;
     (lock, r) \<leftarrow> rd_u32le r;
     Some (\<lparr>tx_version = version, tx_inputs = inputs, tx_outputs = outputs, tx_lock_time = lock,
            tx_hashcash = None\<rparr>, r) }"

definition rd_block :: "Block parser" where
  "rd_block r = do {
     (header_bytes, r) \<leftarrow> rd_varbytes r;
     header \<leftarrow> bh_parse header_bytes;
     (txs, r) \<leftarrow> rd_guard (\<lambda>txs. txs \<noteq> []) (rd_vec u64_max rd_block_tx) r;
     (proof, r) \<leftarrow> rd_finality_proof r;
     Some (\<lparr>blk_header = header, blk_txs = txs, blk_finality_proof = proof\<rparr>, r) }"

definition blk_parse :: "bytes \<Rightarrow> Block option" where
  "blk_parse b = parse_exact b rd_block"

subsection \<open>The codecs\<close>

context wire_codec
begin

lemma guard_codec: "wire_codec enc (rd_guard P dec) (\<lambda>x. wf x \<and> P x)"
proof
  fix pre bs x r
  assume "rd_guard P dec (mk_reader pre bs) = Some (x, r)"
  then show "\<exists>rest. (wf x \<and> P x) \<and> bs = enc x @ rest \<and> r = mk_reader (pre @ enc x) rest"
    by (auto simp: rd_guard_def bind_eq_Some_conv split: if_splits elim!: dec_invE)
qed (simp add: rd_guard_def)

end

abbreviation wf_script :: "bytes \<Rightarrow> bool" where
  "wf_script s \<equiv> length s < 18446744073709551616"

definition wf_tx_out :: "TxOut \<Rightarrow> bool" where
  "wf_tx_out o' \<longleftrightarrow> wf_script (out_script_pubkey o')"

interpretation c_tx_out: wire_codec wr_tx_out rd_tx_out wf_tx_out
proof
  fix pre bs x r
  assume "rd_tx_out (mk_reader pre bs) = Some (x, r)"
  then show "\<exists>rest. wf_tx_out x \<and> bs = wr_tx_out x @ rest \<and> r = mk_reader (pre @ wr_tx_out x) rest"
    by (auto simp: rd_tx_out_def wr_tx_out_def wf_tx_out_def bind_eq_Some_conv
        elim!: c_u64le.dec_invE c_varbytes.dec_invE)
qed (simp add: rd_tx_out_def wr_tx_out_def wf_tx_out_def)

interpretation c_tx_out_limited: wire_codec wr_tx_out rd_tx_out_limited
  "\<lambda>o'. wf_tx_out o' \<and> length (out_script_pubkey o') \<le> kMaxScriptBytes"
  unfolding rd_tx_out_limited_def by (rule c_tx_out.guard_codec)

fun wf_utxo_entry :: "UtxoEntryV2 \<Rightarrow> bool" where
  "wf_utxo_entry (UtxoTransparent o') \<longleftrightarrow> length (out_script_pubkey o') \<le> kMaxScriptBytes"
| "wf_utxo_entry (UtxoConfidential c) \<longleftrightarrow>
     length (uc_value_commitment c) = 33 \<and> length (uc_one_time_pubkey c) = 33
     \<and> length (uc_ephemeral_pubkey c) = 33 \<and> length (uc_memo c) \<le> kMaxMemoBytes"

lemma u8_flag: "k \<noteq> 0 \<Longrightarrow> \<not> 1 < (k :: u8) \<Longrightarrow> k = 1"
  by (auto simp: word_less_nat_alt unat_eq_iff not_less le_Suc_eq)

interpretation c_utxo: wire_codec serialize_utxo_entry_v2 rd_utxo_entry_v2 wf_utxo_entry
proof
  fix x pre rest
  assume "wf_utxo_entry x"
  then show "rd_utxo_entry_v2 (mk_reader pre (serialize_utxo_entry_v2 x @ rest))
      = Some (x, mk_reader (pre @ serialize_utxo_entry_v2 x) rest)"
    by (cases x) (simp_all add: rd_utxo_entry_v2_def wf_tx_out_def kMaxScriptBytes_def kMaxMemoBytes_def)
next
  fix pre bs x r
  assume "rd_utxo_entry_v2 (mk_reader pre bs) = Some (x, r)"
  then show "\<exists>rest. wf_utxo_entry x \<and> bs = serialize_utxo_entry_v2 x @ rest
      \<and> r = mk_reader (pre @ serialize_utxo_entry_v2 x) rest"
    by (auto simp: rd_utxo_entry_v2_def bind_eq_Some_conv split: if_splits dest!: u8_flag
        elim!: c_tx_out_limited.dec_invE c_fixed.dec_invE c_u8.dec_invE c_varbytes.dec_invE)
qed

definition wf_tx_in :: "TxIn \<Rightarrow> bool" where
  "wf_tx_in i \<longleftrightarrow> length (in_prev_txid i) = 32 \<and> wf_script (in_script_sig i)"

interpretation c_tx_in: wire_codec wr_tx_in rd_tx_in wf_tx_in
proof
  fix pre bs x r
  assume "rd_tx_in (mk_reader pre bs) = Some (x, r)"
  then show "\<exists>rest. wf_tx_in x \<and> bs = wr_tx_in x @ rest \<and> r = mk_reader (pre @ wr_tx_in x) rest"
    by (auto simp: rd_tx_in_def wr_tx_in_def wf_tx_in_def bind_eq_Some_conv
        elim!: c_fixed.dec_invE c_u32le.dec_invE c_varbytes.dec_invE)
qed (simp add: rd_tx_in_def wr_tx_in_def wf_tx_in_def)

interpretation c_tx_in_limited: wire_codec wr_tx_in rd_tx_in_limited
  "\<lambda>i. wf_tx_in i \<and> length (in_script_sig i) \<le> kMaxScriptBytes"
  unfolding rd_tx_in_limited_def by (rule c_tx_in.guard_codec)

interpretation c_inputs: wire_codec "wr_vec wr_tx_in" "rd_vec kMaxTxInputs rd_tx_in_limited"
  "\<lambda>xs. length xs \<le> unat kMaxTxInputs
     \<and> (\<forall>i \<in> set xs. wf_tx_in i \<and> length (in_script_sig i) \<le> kMaxScriptBytes)"
  by (rule c_tx_in_limited.vec_codec)

interpretation c_outputs: wire_codec "wr_vec wr_tx_out" "rd_vec kMaxTxOutputs rd_tx_out_limited"
  "\<lambda>xs. length xs \<le> unat kMaxTxOutputs
     \<and> (\<forall>o' \<in> set xs. wf_tx_out o' \<and> length (out_script_pubkey o') \<le> kMaxScriptBytes)"
  by (rule c_tx_out_limited.vec_codec)

text \<open>The transactions the parser can return, with the hashcash stamp aside.\<close>

definition wf_tx :: "Tx \<Rightarrow> bool" where
  "wf_tx t \<longleftrightarrow> tx_version t = 1
     \<and> length (tx_inputs t) \<le> unat kMaxTxInputs
     \<and> (\<forall>i \<in> set (tx_inputs t). wf_tx_in i \<and> length (in_script_sig i) \<le> kMaxScriptBytes)
     \<and> length (tx_outputs t) \<le> unat kMaxTxOutputs
     \<and> (\<forall>o' \<in> set (tx_outputs t). wf_tx_out o' \<and> length (out_script_pubkey o') \<le> kMaxScriptBytes)"

interpretation c_tx_core: wire_codec serialize_without_hashcash rd_tx_core
  "\<lambda>t. wf_tx t \<and> tx_hashcash t = None"
proof
  fix pre bs x r
  assume "rd_tx_core (mk_reader pre bs) = Some (x, r)"
  then show "\<exists>rest. (wf_tx x \<and> tx_hashcash x = None) \<and> bs = serialize_without_hashcash x @ rest
      \<and> r = mk_reader (pre @ serialize_without_hashcash x) rest"
    by (auto simp: rd_tx_core_def serialize_without_hashcash_def wf_tx_def bind_eq_Some_conv split: if_splits
        elim!: c_u32le.dec_invE c_inputs.dec_invE c_outputs.dec_invE)
qed (auto simp: rd_tx_core_def serialize_without_hashcash_def wf_tx_def)

interpretation c_hashcash: wire_codec wr_hashcash rd_hashcash "\<lambda>_. True"
proof
  fix pre bs x r
  assume "rd_hashcash (mk_reader pre bs) = Some (x, r)"
  then show "\<exists>rest. True \<and> bs = wr_hashcash x @ rest \<and> r = mk_reader (pre @ wr_hashcash x) rest"
    by (auto simp: rd_hashcash_def wr_hashcash_def bind_eq_Some_conv elim!: c_u32le.dec_invE c_u64le.dec_invE)
qed (simp add: rd_hashcash_def wr_hashcash_def)

definition wf_block_header :: "BlockHeader \<Rightarrow> bool" where
  "wf_block_header h \<longleftrightarrow> length (bh_prev_finalized_hash h) = 32 \<and> length (bh_prev_finality_cert_hash h) = 32
     \<and> length (bh_merkle_root h) = 32 \<and> length (bh_leader_pubkey h) = 32 \<and> length (bh_leader_signature h) = 64"

interpretation c_block_header: wire_codec bh_serialize rd_block_header wf_block_header
proof
  fix pre bs x r
  assume "rd_block_header (mk_reader pre bs) = Some (x, r)"
  then show "\<exists>rest. wf_block_header x \<and> bs = bh_serialize x @ rest \<and> r = mk_reader (pre @ bh_serialize x) rest"
    by (auto simp: rd_block_header_def bh_serialize_def wf_block_header_def bind_eq_Some_conv
        elim!: c_fixed.dec_invE c_u32le.dec_invE c_u64le.dec_invE)
qed (simp add: rd_block_header_def bh_serialize_def wf_block_header_def)

definition wf_sig :: "FinalitySig \<Rightarrow> bool" where
  "wf_sig s \<longleftrightarrow> length (fs_validator_pubkey s) = 32 \<and> length (fs_signature s) = 64"

interpretation c_sig: wire_codec wr_sig rd_sig wf_sig
proof
  fix pre bs x r
  assume "rd_sig (mk_reader pre bs) = Some (x, r)"
  then show "\<exists>rest. wf_sig x \<and> bs = wr_sig x @ rest \<and> r = mk_reader (pre @ wr_sig x) rest"
    by (auto simp: rd_sig_def wr_sig_def wf_sig_def bind_eq_Some_conv elim!: c_fixed.dec_invE)
qed (simp add: rd_sig_def wr_sig_def wf_sig_def)

interpretation c_sigs: wire_codec "wr_vec wr_sig" "rd_vec bound rd_sig"
  "\<lambda>xs. length xs \<le> unat bound \<and> (\<forall>x \<in> set xs. wf_sig x)" for bound
  by (rule c_sig.vec_codec)

interpretation c_keys: wire_codec "wr_vec wr_bytes_fixed" "rd_vec bound (rd_bytes_fixed 32)"
  "\<lambda>xs. length xs \<le> unat bound \<and> (\<forall>x \<in> set xs. length x = 32)" for bound
  by (rule c_fixed.vec_codec)

definition wf_finality_proof :: "FinalityProof \<Rightarrow> bool" where
  "wf_finality_proof p \<longleftrightarrow> length (fp_sigs p) \<le> unat u64_max \<and> (\<forall>s \<in> set (fp_sigs p). wf_sig s)"

interpretation c_finality_proof: wire_codec fp_serialize rd_finality_proof wf_finality_proof
proof
  fix pre bs x r
  assume "rd_finality_proof (mk_reader pre bs) = Some (x, r)"
  then show "\<exists>rest. wf_finality_proof x \<and> bs = fp_serialize x @ rest \<and> r = mk_reader (pre @ fp_serialize x) rest"
    by (auto simp: rd_finality_proof_def fp_serialize_def wf_finality_proof_def bind_eq_Some_conv
        elim!: c_sigs.dec_invE)
qed (simp add: rd_finality_proof_def fp_serialize_def wf_finality_proof_def)

definition wf_finality_certificate :: "FinalityCertificate \<Rightarrow> bool" where
  "wf_finality_certificate c \<longleftrightarrow> length (fc_frontier_transition_id c) = 32
     \<and> length (fc_committee_members c) \<le> MAX_COMMITTEE \<and> (\<forall>m \<in> set (fc_committee_members c). length m = 32)
     \<and> length (fc_signatures c) \<le> MAX_COMMITTEE \<and> (\<forall>s \<in> set (fc_signatures c). wf_sig s)"

lemma unat_MAX_COMMITTEE [simp]: "unat (word_of_nat MAX_COMMITTEE :: u64) = MAX_COMMITTEE"
  by (simp add: MAX_COMMITTEE_def)

interpretation c_finality_certificate: wire_codec fc_serialize rd_finality_certificate wf_finality_certificate
proof
  fix pre bs x r
  assume "rd_finality_certificate (mk_reader pre bs) = Some (x, r)"
  then show "\<exists>rest. wf_finality_certificate x \<and> bs = fc_serialize x @ rest
      \<and> r = mk_reader (pre @ fc_serialize x) rest"
    by (auto simp: rd_finality_certificate_def fc_serialize_def wf_finality_certificate_def bind_eq_Some_conv
        elim!: c_u32le.dec_invE c_u64le.dec_invE c_fixed.dec_invE c_keys.dec_invE c_sigs.dec_invE)
qed (simp add: rd_finality_certificate_def fc_serialize_def wf_finality_certificate_def)

definition wf_block_tx :: "Tx \<Rightarrow> bool" where
  "wf_block_tx t \<longleftrightarrow> length (tx_inputs t) \<le> unat u64_max \<and> (\<forall>i \<in> set (tx_inputs t). wf_tx_in i)
     \<and> length (tx_outputs t) \<le> unat u64_max \<and> (\<forall>o' \<in> set (tx_outputs t). wf_tx_out o')
     \<and> tx_hashcash t = None"

interpretation c_block_inputs: wire_codec "wr_vec wr_tx_in" "rd_vec u64_max rd_tx_in"
  "\<lambda>xs. length xs \<le> unat u64_max \<and> (\<forall>i \<in> set xs. wf_tx_in i)"
  by (rule c_tx_in.vec_codec)

interpretation c_block_outputs: wire_codec "wr_vec wr_tx_out" "rd_vec u64_max rd_tx_out"
  "\<lambda>xs. length xs \<le> unat u64_max \<and> (\<forall>o' \<in> set xs. wf_tx_out o')"
  by (rule c_tx_out.vec_codec)

interpretation c_block_tx: wire_codec "\<lambda>t. wr_bytes (serialize_without_hashcash t)" rd_block_tx wf_block_tx
proof
  fix pre bs x r
  assume "rd_block_tx (mk_reader pre bs) = Some (x, r)"
  then show "\<exists>rest. wf_block_tx x \<and> bs = wr_bytes (serialize_without_hashcash x) @ rest
      \<and> r = mk_reader (pre @ wr_bytes (serialize_without_hashcash x)) rest"
    by (auto simp: rd_block_tx_def serialize_without_hashcash_def wr_bytes_def wf_block_tx_def bind_eq_Some_conv
        elim!: c_u32le.dec_invE c_block_inputs.dec_invE c_block_outputs.dec_invE)
qed (simp add: rd_block_tx_def serialize_without_hashcash_def wr_bytes_def wf_block_tx_def)

interpretation c_block_txs: wire_codec "wr_vec (\<lambda>t. wr_bytes (serialize_without_hashcash t))"
  "rd_guard (\<lambda>txs. txs \<noteq> []) (rd_vec u64_max rd_block_tx)"
  "\<lambda>xs. (length xs \<le> unat u64_max \<and> (\<forall>t \<in> set xs. wf_block_tx t)) \<and> xs \<noteq> []"
  by (rule wire_codec.guard_codec) (rule c_block_tx.vec_codec)

definition wf_block :: "Block \<Rightarrow> bool" where
  "wf_block b \<longleftrightarrow> wf_block_header (blk_header b) \<and> blk_txs b \<noteq> []
     \<and> length (blk_txs b) \<le> unat u64_max \<and> (\<forall>t \<in> set (blk_txs b). wf_block_tx t)
     \<and> wf_finality_proof (blk_finality_proof b)"

lemma length_wr_u32le [simp]: "length (wr_u32le v) = 4" by (simp add: wr_u32le_def)
lemma length_wr_u64le [simp]: "length (wr_u64le v) = 8" by (simp add: wr_u64le_def)
lemma length_wr_u8 [simp]: "length (wr_u8 v) = 1" by (simp add: wr_u8_def)
lemma length_wr_bytes_fixed [simp]: "length (wr_bytes_fixed b) = length b" by (simp add: wr_bytes_fixed_def)

lemma length_bh_serialize: "wf_block_header h \<Longrightarrow> length (bh_serialize h) = 212"
  by (simp add: bh_serialize_def wf_block_header_def)

interpretation c_block: wire_codec blk_serialize rd_block wf_block
proof
  fix x pre rest
  assume "wf_block x"
  then show "rd_block (mk_reader pre (blk_serialize x @ rest)) = Some (x, mk_reader (pre @ blk_serialize x) rest)"
    by (simp add: rd_block_def blk_serialize_def wf_block_def bh_parse_def c_block_header.parse_exact_enc
        length_bh_serialize wr_bytes_def [of "fp_serialize _"])
next
  fix pre bs x r
  assume "rd_block (mk_reader pre bs) = Some (x, r)"
  then show "\<exists>rest. wf_block x \<and> bs = blk_serialize x @ rest \<and> r = mk_reader (pre @ blk_serialize x) rest"
    by (auto simp: rd_block_def blk_serialize_def wf_block_def bind_eq_Some_conv bh_parse_def
        wr_bytes_def [of "fp_serialize _"] c_block_header.parse_exact_iff
        elim!: c_varbytes.dec_invE c_block_txs.dec_invE c_finality_proof.dec_invE)
qed

subsection \<open>Properties\<close>

lemma wf_tx_strip [simp]: "wf_tx (t\<lparr>tx_hashcash := h\<rparr>) \<longleftrightarrow> wf_tx t"
  by (simp add: wf_tx_def)

lemma serialize_without_hashcash_strip [simp]:
  "serialize_without_hashcash (t\<lparr>tx_hashcash := h\<rparr>) = serialize_without_hashcash t"
  by (simp add: serialize_without_hashcash_def)

lemma rd_tx_core_serialize [simp]:
  "wf_tx t \<Longrightarrow> rd_tx_core (mk_reader pre (serialize_without_hashcash t @ rest))
     = Some (t\<lparr>tx_hashcash := None\<rparr>, mk_reader (pre @ serialize_without_hashcash t) rest)"
  using c_tx_core.dec_enc [of "t\<lparr>tx_hashcash := None\<rparr>"] by simp

lemma rd_tx_core_serialize_last [simp]:
  "wf_tx t \<Longrightarrow> rd_tx_core (mk_reader pre (serialize_without_hashcash t))
     = Some (t\<lparr>tx_hashcash := None\<rparr>, mk_reader (pre @ serialize_without_hashcash t) [])"
  using rd_tx_core_serialize [of t pre "[]"] by simp

lemma wr_u8_nonempty [simp]: "wr_u8 b \<noteq> []"
  by (simp add: wr_u8_def)

lemma tx_parse_serialize: "wf_tx t \<Longrightarrow> tx_parse (tx_serialize t) = Some t"
  by (cases "tx_hashcash t")
     (simp_all add: tx_parse_def tx_serialize_def parse_exact_mk_reader rd_tx_def wr_bytes_def)

lemma tx_parse_short: "wf_tx t \<Longrightarrow> tx_parse (serialize_without_hashcash t) = Some (t\<lparr>tx_hashcash := None\<rparr>)"
  by (simp add: tx_parse_def parse_exact_mk_reader rd_tx_def)

lemma tx_parse_inv:
  assumes "tx_parse b = Some t"
  shows "wf_tx t \<and> (b = tx_serialize t \<or> tx_hashcash t = None \<and> b = serialize_without_hashcash t)"
proof -
  from assms obtain u r where "rd_tx_core (mk_reader [] b) = Some (u, r)"
    by (cases "rd_tx_core (mk_reader [] b)") (auto simp: tx_parse_def parse_exact_mk_reader rd_tx_def)
  then obtain rest where u: "wf_tx u" "tx_hashcash u = None" and b: "b = serialize_without_hashcash u @ rest"
    by (auto elim!: c_tx_core.dec_invE)
  then have strip: "u\<lparr>tx_hashcash := None\<rparr> = u" by simp
  show ?thesis
    using assms u unfolding b
    by (auto simp: tx_parse_def parse_exact_mk_reader rd_tx_def strip tx_serialize_def wr_bytes_def bind_eq_Some_conv
        split: option.splits if_splits elim!: c_u8.dec_invE c_hashcash.dec_invE)
qed

text \<open>
  C20. \<^verbatim>\<open>Tx::parse\<close> returns exactly the transactions within the limits, and a transaction is accepted in
  its serialization and, if it has no hashcash stamp, also in the form without the trailing flag byte.
  Nothing else is accepted.
\<close>

theorem tx_parse_iff:
  "tx_parse b = Some t \<longleftrightarrow>
     wf_tx t \<and> (b = tx_serialize t \<or> tx_hashcash t = None \<and> b = serialize_without_hashcash t)"
  using tx_parse_inv [of b t] tx_parse_serialize [of t] tx_parse_short [of t] by auto

text \<open>
  C21. A transaction id commits to the whole transaction but its hashcash stamp: two transactions within
  the limits with the same id agree in every other field, or their serializations are a collision of
  the hash function.
\<close>

theorem txid_binds:
  assumes "wf_tx t" and "wf_tx u" and "txid sha256d t = txid sha256d u"
  shows "t\<lparr>tx_hashcash := None\<rparr> = u\<lparr>tx_hashcash := None\<rparr>
    \<or> (serialize_without_hashcash t \<noteq> serialize_without_hashcash u
       \<and> sha256d (serialize_without_hashcash t) = sha256d (serialize_without_hashcash u))"
  using assms c_tx_core.enc_inject [of "t\<lparr>tx_hashcash := None\<rparr>" "u\<lparr>tx_hashcash := None\<rparr>"]
  by (auto simp: txid_def)

lemma txid_binds_witness:
  "txid (\<lambda>b. b) \<lparr>tx_version = 1, tx_inputs = [], tx_outputs = [], tx_lock_time = 0, tx_hashcash = None\<rparr>
   \<noteq> txid (\<lambda>b. b) \<lparr>tx_version = 1, tx_inputs = [], tx_outputs = [], tx_lock_time = 1, tx_hashcash = None\<rparr>"
  using txid_binds [of "\<lparr>tx_version = 1, tx_inputs = [], tx_outputs = [], tx_lock_time = 0, tx_hashcash = None\<rparr>"
      "\<lparr>tx_version = 1, tx_inputs = [], tx_outputs = [], tx_lock_time = 1, tx_hashcash = None\<rparr>" "\<lambda>b. b"]
  by (auto simp: wf_tx_def)

text \<open>
  C22. UTXO entries, block headers, finality certificates and blocks have one encoding each: a parser
  returns a value if and only if the value is within the limits and the bytes are its serialization.
\<close>

theorem block_wire_exact:
  "(parse_utxo_entry_v2 b = Some e \<longleftrightarrow> wf_utxo_entry e \<and> b = serialize_utxo_entry_v2 e)
   \<and> (bh_parse b = Some h \<longleftrightarrow> wf_block_header h \<and> b = bh_serialize h)
   \<and> (fp_parse b = Some p \<longleftrightarrow> wf_finality_proof p \<and> b = fp_serialize p)
   \<and> (fc_parse b = Some c \<longleftrightarrow> wf_finality_certificate c \<and> b = fc_serialize c)
   \<and> (blk_parse b = Some k \<longleftrightarrow> wf_block k \<and> b = blk_serialize k)"
  by (simp add: parse_utxo_entry_v2_def bh_parse_def fp_parse_def fc_parse_def blk_parse_def
      c_utxo.parse_exact_iff c_block_header.parse_exact_iff c_finality_proof.parse_exact_iff
      c_finality_certificate.parse_exact_iff c_block.parse_exact_iff)

end
