(* ===== verification/Frontier_Codec.thy ===== *)
theory Frontier_Codec
  imports Tx_Codec
begin

text \<open>
  Serialization of the frontier structures, the ingress certificates and the registration scripts
  (\<^verbatim>\<open>src/src/utxo/tx.cpp\<close>, second half). A transition id is the hash of a domain tag and the
  serialization; that the serialization is injective is what makes a vote for an id a vote for one
  transition.
\<close>

subsection \<open>Decisions, settlements and vectors\<close>

fun reject_reason_code :: "FrontierRejectReason \<Rightarrow> u8" where
  "reject_reason_code NONE = 0"
| "reject_reason_code TX_PARSE_FAILED = 1"
| "reject_reason_code TX_INVALID = 2"
| "reject_reason_code CONFLICT_DOMAIN_USED = 3"
| "reject_reason_code CONFIDENTIAL_TURNSTILE_NEGATIVE = 4"

definition reject_reason_of :: "u8 \<Rightarrow> FrontierRejectReason option" where
  "reject_reason_of c =
     (if c = 0 then Some NONE else if c = 1 then Some TX_PARSE_FAILED else if c = 2 then Some TX_INVALID
      else if c = 3 then Some CONFLICT_DOMAIN_USED else if c = 4 then Some CONFIDENTIAL_TURNSTILE_NEGATIVE
      else None)"

definition fd_serialize :: "FrontierDecision \<Rightarrow> bytes" where
  "fd_serialize d = wr_bytes_fixed (fd_record_id d) @ wr_u8 (if fd_accepted d then 1 else 0)
     @ wr_u8 (reject_reason_code (fd_reject_reason d))"

definition rd_frontier_decision :: "FrontierDecision parser" where
  "rd_frontier_decision r = do {
     (record, r) \<leftarrow> rd_bytes_fixed 32 r;
     (accepted, r) \<leftarrow> rd_u8 r;
     (reject, r) \<leftarrow> rd_u8 r;
     if accepted > 1 then None else do {
       reason \<leftarrow> reject_reason_of reject;
       Some (\<lparr>fd_record_id = record, fd_accepted = (accepted \<noteq> 0), fd_reject_reason = reason\<rparr>, r) } }"

definition fd_parse :: "bytes \<Rightarrow> FrontierDecision option" where
  "fd_parse b = parse_exact b rd_frontier_decision"

definition wr_payout :: "pubkey32 \<times> u64 \<Rightarrow> bytes" where
  "wr_payout p = wr_bytes_fixed (fst p) @ wr_u64le (snd p)"

definition rd_payout :: "(pubkey32 \<times> u64) parser" where
  "rd_payout r = do { (pub, r) \<leftarrow> rd_bytes_fixed 32 r; (units, r) \<leftarrow> rd_u64le r; Some ((pub, units), r) }"

definition st_serialize :: "FrontierSettlement \<Rightarrow> bytes" where
  "st_serialize s = wr_u64le (st_settlement_epoch_start s) @ wr_vec wr_payout (st_outputs s)
     @ wr_u64le (st_total s) @ wr_u64le (st_current_fees s) @ wr_u64le (st_settled_epoch_fees s)
     @ wr_u64le (st_settled_epoch_rewards s) @ wr_u64le (st_reserve_subsidy_units s)"

definition rd_settlement :: "FrontierSettlement parser" where
  "rd_settlement r = do {
     (epoch, r) \<leftarrow> rd_u64le r;
     (outputs, r) \<leftarrow> rd_vec u64_max rd_payout r;
     (tot, r) \<leftarrow> rd_u64le r;
     (current_fees, r) \<leftarrow> rd_u64le r;
     (settled_epoch_fees, r) \<leftarrow> rd_u64le r;
     (settled_epoch_rewards, r) \<leftarrow> rd_u64le r;
     (reserve_subsidy_units, r) \<leftarrow> rd_u64le r;
     Some (\<lparr>st_settlement_epoch_start = epoch, st_outputs = outputs, st_total = tot,
            st_current_fees = current_fees, st_settled_epoch_fees = settled_epoch_fees,
            st_settled_epoch_rewards = settled_epoch_rewards, st_reserve_subsidy_units = reserve_subsidy_units\<rparr>, r) }"

definition st_parse :: "bytes \<Rightarrow> FrontierSettlement option" where
  "st_parse b = parse_exact b rd_settlement"

definition settlement_commitment :: "(bytes \<Rightarrow> hash32) \<Rightarrow> FrontierSettlement \<Rightarrow> hash32" where
  "settlement_commitment sha256d s = sha256d (ascii ''SC-FR-SETTLE-V1'' @ st_serialize s)"

definition fv_serialize :: "FrontierVector \<Rightarrow> bytes" where
  "fv_serialize v = concat (map wr_u64le (fv_lane_max_seq v))"

definition rd_frontier_vector :: "FrontierVector parser" where
  "rd_frontier_vector r = do {
     (seqs, r) \<leftarrow> rd_repeat INGRESS_LANE_COUNT rd_u64le r;
     Some (\<lparr>fv_lane_max_seq = seqs\<rparr>, r) }"

definition fv_parse :: "bytes \<Rightarrow> FrontierVector option" where
  "fv_parse b = parse_exact b rd_frontier_vector"

definition total_count :: "FrontierVector \<Rightarrow> u64" where
  "total_count v = sum_list (fv_lane_max_seq v)"

subsection \<open>Transitions and proposals\<close>

definition kBlsPublicKeyBytes :: nat where "kBlsPublicKeyBytes = 48"
definition kBlsSignatureBytes :: nat where "kBlsSignatureBytes = 96"
definition kMaxLongTimeSignaturesPerBlock :: u64 where "kMaxLongTimeSignaturesPerBlock = 16"

definition wr_index :: "u32 \<Rightarrow> bytes" where
  "wr_index i = wr_varint (ucast i)"

definition rd_index :: "u32 parser" where
  "rd_index r = do { (i, r) \<leftarrow> rd_varint True r; if i \<ge> word_of_nat MAX_COMMITTEE then None else Some (ucast i, r) }"

definition wr_time_signature :: "TimeSignatureAggregate \<Rightarrow> bytes" where
  "wr_time_signature t = wr_vec wr_index (ts_signer_indices t) @ wr_bytes_fixed (ts_aggregate t)"

definition rd_time_signature :: "TimeSignatureAggregate parser" where
  "rd_time_signature r = do {
     (indices, r) \<leftarrow> rd_vec (word_of_nat MAX_COMMITTEE) rd_index r;
     (aggregate, r) \<leftarrow> rd_bytes_fixed kBlsSignatureBytes r;
     Some (\<lparr>ts_signer_indices = indices, ts_aggregate = aggregate\<rparr>, r) }"

definition wr_long_signature :: "LongTimeSignature \<Rightarrow> bytes" where
  "wr_long_signature l = wr_u64le (lts_unlock_height l) @ wr_bytes_fixed (lts_committee_root l)
     @ wr_time_signature (lts_signature l)"

definition rd_long_signature :: "LongTimeSignature parser" where
  "rd_long_signature r = do {
     (unlock, r) \<leftarrow> rd_u64le r;
     (root, r) \<leftarrow> rd_bytes_fixed 32 r;
     (sig, r) \<leftarrow> rd_time_signature r;
     Some (\<lparr>lts_unlock_height = unlock, lts_committee_root = root, lts_signature = sig\<rparr>, r) }"

definition ft_serialize :: "FrontierTransition \<Rightarrow> bytes" where
  "ft_serialize t =
     wr_bytes_fixed (ft_prev_finalized_hash t) @ wr_bytes_fixed (ft_prev_finality_link_hash t)
     @ wr_u64le (ft_height t) @ wr_u64le (ft_timestamp t) @ wr_u32le (ft_round t)
     @ wr_bytes_fixed (ft_leader_pubkey t) @ wr_bytes_fixed (ft_leader_vrf_proof t)
     @ wr_varbytes (fv_serialize (ft_prev_vector t)) @ wr_varbytes (fv_serialize (ft_next_vector t))
     @ wr_bytes_fixed (ft_ingress_commitment t) @ wr_u64le (ft_prev_frontier t) @ wr_u64le (ft_next_frontier t)
     @ wr_bytes_fixed (ft_prev_state_root t) @ wr_bytes_fixed (ft_next_state_root t)
     @ wr_bytes_fixed (ft_next_state_commitment t) @ wr_bytes_fixed (ft_ordered_slice_commitment t)
     @ wr_bytes_fixed (ft_decisions_commitment t) @ wr_u32le (ft_quorum_threshold t)
     @ wr_u32le (ft_prev_finality_round t) @ wr_vec wr_sig (ft_prev_finality_signers t)
     @ wr_time_signature (ft_prev_time_signature t) @ wr_vec wr_long_signature (ft_long_time_signatures t)
     @ wr_varbytes (st_serialize (ft_settlement t)) @ wr_bytes_fixed (ft_settlement_commitment t)"

definition rd_transition :: "FrontierTransition parser" where
  "rd_transition r = do {
     (prev_finalized, r) \<leftarrow> rd_bytes_fixed 32 r;
     (prev_finality_link, r) \<leftarrow> rd_bytes_fixed 32 r;
     (height, r) \<leftarrow> rd_u64le r;
     (timestamp, r) \<leftarrow> rd_u64le r;
     (round, r) \<leftarrow> rd_u32le r;
     (leader, r) \<leftarrow> rd_bytes_fixed 32 r;
     (leader_vrf_proof, r) \<leftarrow> rd_bytes_fixed 80 r;
     (prev_vector_bytes, r) \<leftarrow> rd_varbytes r;
     (next_vector_bytes, r) \<leftarrow> rd_varbytes r;
     (ingress_commitment, r) \<leftarrow> rd_bytes_fixed 32 r;
     (prev, r) \<leftarrow> rd_u64le r;
     (nxt, r) \<leftarrow> rd_u64le r;
     (prev_root, r) \<leftarrow> rd_bytes_fixed 32 r;
     (next_root, r) \<leftarrow> rd_bytes_fixed 32 r;
     (next_commitment, r) \<leftarrow> rd_bytes_fixed 32 r;
     (ordered, r) \<leftarrow> rd_bytes_fixed 32 r;
     (decisions, r) \<leftarrow> rd_bytes_fixed 32 r;
     (quorum, r) \<leftarrow> rd_u32le r;
     (prev_finality_round, r) \<leftarrow> rd_u32le r;
     prev_vector \<leftarrow> fv_parse prev_vector_bytes;
     next_vector \<leftarrow> fv_parse next_vector_bytes;
     (signers, r) \<leftarrow> rd_vec (word_of_nat MAX_COMMITTEE) rd_sig r;
     (time_signature, r) \<leftarrow> rd_time_signature r;
     (long_signatures, r) \<leftarrow> rd_vec kMaxLongTimeSignaturesPerBlock rd_long_signature r;
     (settlement_bytes, r) \<leftarrow> rd_varbytes r;
     (commitment, r) \<leftarrow> rd_bytes_fixed 32 r;
     settlement \<leftarrow> st_parse settlement_bytes;
     Some (\<lparr>ft_prev_finalized_hash = prev_finalized, ft_prev_finality_link_hash = prev_finality_link,
            ft_height = height, ft_timestamp = timestamp, ft_round = round, ft_leader_pubkey = leader,
            ft_leader_vrf_proof = leader_vrf_proof, ft_prev_vector = prev_vector, ft_next_vector = next_vector,
            ft_ingress_commitment = ingress_commitment, ft_prev_frontier = prev, ft_next_frontier = nxt,
            ft_prev_state_root = prev_root, ft_next_state_root = next_root,
            ft_next_state_commitment = next_commitment, ft_ordered_slice_commitment = ordered,
            ft_decisions_commitment = decisions, ft_quorum_threshold = quorum,
            ft_prev_finality_round = prev_finality_round, ft_prev_finality_signers = signers,
            ft_prev_time_signature = time_signature, ft_long_time_signatures = long_signatures,
            ft_settlement = settlement, ft_settlement_commitment = commitment\<rparr>, r) }"

definition ft_parse :: "bytes \<Rightarrow> FrontierTransition option" where
  "ft_parse b = parse_exact b rd_transition"

definition transition_id :: "(bytes \<Rightarrow> hash32) \<Rightarrow> FrontierTransition \<Rightarrow> hash32" where
  "transition_id sha256d t = sha256d (ascii ''SC-FRONTIER-V1'' @ ft_serialize t)"

definition fpr_serialize :: "FrontierProposal \<Rightarrow> bytes" where
  "fpr_serialize p = wr_varbytes (ft_serialize (fpr_transition p)) @ wr_vec wr_varbytes (fpr_ordered_records p)"

definition rd_proposal :: "FrontierProposal parser" where
  "rd_proposal r = do {
     (transition_bytes, r) \<leftarrow> rd_varbytes r;
     transition \<leftarrow> ft_parse transition_bytes;
     (records, r) \<leftarrow> rd_vec u64_max rd_varbytes r;
     Some (\<lparr>fpr_transition = transition, fpr_ordered_records = records\<rparr>, r) }"

definition fpr_parse :: "bytes \<Rightarrow> FrontierProposal option" where
  "fpr_parse b = parse_exact b rd_proposal"

subsection \<open>Ingress certificates and lane states\<close>

definition ic_body :: "IngressCertificate \<Rightarrow> bytes" where
  "ic_body c = wr_u64le (ic_epoch c) @ wr_u32le (ic_lane c) @ wr_u64le (ic_seq c) @ wr_bytes_fixed (ic_txid c)
     @ wr_bytes_fixed (ic_tx_hash c) @ wr_bytes_fixed (ic_prev_lane_root c)"

definition ic_serialize :: "IngressCertificate \<Rightarrow> bytes" where
  "ic_serialize c = ic_body c @ wr_vec wr_sig (ic_sigs c)"

definition rd_ingress_certificate :: "IngressCertificate parser" where
  "rd_ingress_certificate r = do {
     (epoch, r) \<leftarrow> rd_u64le r;
     (lane, r) \<leftarrow> rd_u32le r;
     (seq, r) \<leftarrow> rd_u64le r;
     (txid, r) \<leftarrow> rd_bytes_fixed 32 r;
     (tx_hash, r) \<leftarrow> rd_bytes_fixed 32 r;
     (prev_lane_root, r) \<leftarrow> rd_bytes_fixed 32 r;
     (sigs, r) \<leftarrow> rd_vec u64_max rd_sig r;
     Some (\<lparr>ic_epoch = epoch, ic_lane = lane, ic_seq = seq, ic_txid = txid, ic_tx_hash = tx_hash,
            ic_prev_lane_root = prev_lane_root, ic_sigs = sigs\<rparr>, r) }"

definition ic_parse :: "bytes \<Rightarrow> IngressCertificate option" where
  "ic_parse b = parse_exact b rd_ingress_certificate"

definition ic_signing_hash :: "(bytes \<Rightarrow> hash32) \<Rightarrow> IngressCertificate \<Rightarrow> hash32" where
  "ic_signing_hash sha256d c = sha256d (wr_bytes (ascii ''ingress-cert/v1'') @ ic_body c)"

definition ls_serialize :: "LaneState \<Rightarrow> bytes" where
  "ls_serialize s = wr_u64le (ls_epoch s) @ wr_u32le (ls_lane s) @ wr_u64le (ls_max_seq s)
     @ wr_bytes_fixed (ls_lane_root s)"

definition rd_lane_state :: "LaneState parser" where
  "rd_lane_state r = do {
     (epoch, r) \<leftarrow> rd_u64le r;
     (lane, r) \<leftarrow> rd_u32le r;
     (max_seq, r) \<leftarrow> rd_u64le r;
     (lane_root, r) \<leftarrow> rd_bytes_fixed 32 r;
     Some (\<lparr>ls_epoch = epoch, ls_lane = lane, ls_max_seq = max_seq, ls_lane_root = lane_root\<rparr>, r) }"

definition ls_parse :: "bytes \<Rightarrow> LaneState option" where
  "ls_parse b = parse_exact b rd_lane_state"

subsection \<open>Scripts\<close>

definition script_with_prefix :: "nat \<Rightarrow> bytes \<Rightarrow> bytes \<Rightarrow> bytes option" where
  "script_with_prefix sz prefix script =
     (if length script \<noteq> sz then None
      else if take (length prefix) script \<noteq> prefix then None
      else Some (drop (length prefix) script))"

definition is_validator_register_script :: "bytes \<Rightarrow> pubkey32 option" where
  "is_validator_register_script script = script_with_prefix 40 (ascii ''SCVALREG'') script"

definition is_validator_unbond_script :: "bytes \<Rightarrow> pubkey32 option" where
  "is_validator_unbond_script script = script_with_prefix 40 (ascii ''SCVALUNB'') script"

definition is_burn_script :: "bytes \<Rightarrow> hash32 option" where
  "is_burn_script script = script_with_prefix 38 (ascii ''SCBURN'') script"

definition kJoinRequestPrefix :: bytes where "kJoinRequestPrefix = ascii ''SCVALJRQ''"
definition kOnboardingPrefix :: bytes where "kOnboardingPrefix = ascii ''SCONBREG''"

definition kValidatorRegistrationScriptBytes :: nat where
  "kValidatorRegistrationScriptBytes = 8 + 32 + 32 + 64 + kBlsPublicKeyBytes + kBlsSignatureBytes"
definition kValidatorRegistrationScriptPowBytes :: nat where
  "kValidatorRegistrationScriptPowBytes = kValidatorRegistrationScriptBytes + 16"

text \<open>The lambda \<^verbatim>\<open>take\<close>: the next \<open>n\<close> bytes, and where the iterator then stands.\<close>

definition parse_registration_script :: "bytes \<Rightarrow> bytes \<Rightarrow> RegistrationScriptData option" where
  "parse_registration_script script prefix =
     (if length script \<noteq> kValidatorRegistrationScriptBytes \<and> length script \<noteq> kValidatorRegistrationScriptPowBytes
      then None
      else if take 8 script \<noteq> prefix then None
      else let it = drop 8 script;
               (validator_pubkey, it) = (take 32 it, drop 32 it);
               (payout_pubkey, it) = (take 32 it, drop 32 it);
               (pop, it) = (take 64 it, drop 64 it);
               (bls_pubkey, it) = (take kBlsPublicKeyBytes it, drop kBlsPublicKeyBytes it);
               (bls_pop, it) = (take kBlsSignatureBytes it, drop kBlsSignatureBytes it);
               has_pow = (length script = kValidatorRegistrationScriptPowBytes);
               d = \<lparr>rs_validator_pubkey = validator_pubkey, rs_payout_pubkey = payout_pubkey, rs_pop = pop,
                    rs_bls_pubkey = bls_pubkey, rs_bls_pop = bls_pop, rs_has_admission_pow = has_pow,
                    rs_admission_pow_epoch = 0, rs_admission_pow_nonce = 0\<rparr>
           in if has_pow then
                parse_exact it (\<lambda>r. do {
                  (epoch, r) \<leftarrow> rd_u64le r;
                  (nonce, r) \<leftarrow> rd_u64le r;
                  Some (d\<lparr>rs_admission_pow_epoch := epoch, rs_admission_pow_nonce := nonce\<rparr>, r) })
              else Some d)"

definition encode_registration_script :: "bytes \<Rightarrow> RegistrationScriptData \<Rightarrow> bytes" where
  "encode_registration_script prefix d =
     prefix @ rs_validator_pubkey d @ rs_payout_pubkey d @ rs_pop d @ rs_bls_pubkey d @ rs_bls_pop d
     @ (if rs_has_admission_pow d then wr_u64le (rs_admission_pow_epoch d) @ wr_u64le (rs_admission_pow_nonce d)
        else [])"

definition encode_validator_join_request_script :: "RegistrationScriptData \<Rightarrow> bytes" where
  "encode_validator_join_request_script d = encode_registration_script kJoinRequestPrefix d"

definition encode_onboarding_registration_script :: "RegistrationScriptData \<Rightarrow> bytes" where
  "encode_onboarding_registration_script d = encode_registration_script kOnboardingPrefix d"

definition parse_onboarding_registration_script :: "bytes \<Rightarrow> RegistrationScriptData option" where
  "parse_onboarding_registration_script script = parse_registration_script script kOnboardingPrefix"

definition parse_validator_join_request_script :: "bytes \<Rightarrow> RegistrationScriptData option" where
  "parse_validator_join_request_script script = parse_registration_script script kJoinRequestPrefix"

subsection \<open>The codecs\<close>

lemma reject_reason_round_trip [simp]: "reject_reason_of (reject_reason_code x) = Some x"
  by (cases x) (simp_all add: reject_reason_of_def)

lemma reject_reason_of_inv: "reject_reason_of c = Some x \<Longrightarrow> c = reject_reason_code x"
  by (auto simp: reject_reason_of_def split: if_splits)

interpretation c_decision: wire_codec fd_serialize rd_frontier_decision "\<lambda>d. length (fd_record_id d) = 32"
proof
  fix pre bs x r
  assume "rd_frontier_decision (mk_reader pre bs) = Some (x, r)"
  then show "\<exists>rest. length (fd_record_id x) = 32 \<and> bs = fd_serialize x @ rest
      \<and> r = mk_reader (pre @ fd_serialize x) rest"
    by (auto simp: rd_frontier_decision_def fd_serialize_def bind_eq_Some_conv split: if_splits
        dest!: reject_reason_of_inv u8_flag elim!: c_fixed.dec_invE c_u8.dec_invE)
qed (simp add: rd_frontier_decision_def fd_serialize_def)

interpretation c_payout: wire_codec wr_payout rd_payout "\<lambda>p. length (fst p) = 32"
proof
  fix pre bs x r
  assume "rd_payout (mk_reader pre bs) = Some (x, r)"
  then show "\<exists>rest. length (fst x) = 32 \<and> bs = wr_payout x @ rest \<and> r = mk_reader (pre @ wr_payout x) rest"
    by (auto simp: rd_payout_def wr_payout_def bind_eq_Some_conv elim!: c_fixed.dec_invE c_u64le.dec_invE)
qed (simp add: rd_payout_def wr_payout_def)

interpretation c_payouts: wire_codec "wr_vec wr_payout" "rd_vec u64_max rd_payout"
  "\<lambda>xs. length xs \<le> unat u64_max \<and> (\<forall>x \<in> set xs. length (fst x) = 32)"
  by (rule c_payout.vec_codec)

definition wf_settlement :: "FrontierSettlement \<Rightarrow> bool" where
  "wf_settlement s \<longleftrightarrow> length (st_outputs s) \<le> unat u64_max \<and> (\<forall>p \<in> set (st_outputs s). length (fst p) = 32)"

interpretation c_settlement: wire_codec st_serialize rd_settlement wf_settlement
proof
  fix pre bs x r
  assume "rd_settlement (mk_reader pre bs) = Some (x, r)"
  then show "\<exists>rest. wf_settlement x \<and> bs = st_serialize x @ rest \<and> r = mk_reader (pre @ st_serialize x) rest"
    by (auto simp: rd_settlement_def st_serialize_def wf_settlement_def bind_eq_Some_conv
        elim!: c_payouts.dec_invE c_u64le.dec_invE)
qed (simp add: rd_settlement_def st_serialize_def wf_settlement_def)

definition wf_vector :: "FrontierVector \<Rightarrow> bool" where
  "wf_vector v \<longleftrightarrow> length (fv_lane_max_seq v) = INGRESS_LANE_COUNT"

interpretation c_vector: wire_codec fv_serialize rd_frontier_vector wf_vector
proof
  fix x pre rest
  assume "wf_vector x"
  then show "rd_frontier_vector (mk_reader pre (fv_serialize x @ rest)) = Some (x, mk_reader (pre @ fv_serialize x) rest)"
    using c_u64le.rd_repeat_enc [of "fv_lane_max_seq x" pre rest]
    by (simp add: rd_frontier_vector_def fv_serialize_def wf_vector_def)
next
  fix pre bs x r
  assume "rd_frontier_vector (mk_reader pre bs) = Some (x, r)"
  then show "\<exists>rest. wf_vector x \<and> bs = fv_serialize x @ rest \<and> r = mk_reader (pre @ fv_serialize x) rest"
    by (auto simp: rd_frontier_vector_def fv_serialize_def wf_vector_def bind_eq_Some_conv
        elim!: c_u64le.rd_repeat_invE)
qed

lemma index_ucast:
  "i < 128 \<Longrightarrow> (ucast (ucast i :: u64) :: u32) = i" "(v :: u64) < 128 \<Longrightarrow> (ucast (ucast v :: u32) :: u64) = v"
  "(ucast (i :: u32) :: u64) < 128 \<longleftrightarrow> i < 128" "(v :: u64) < 128 \<Longrightarrow> (ucast v :: u32) < 128"
proof -
  have u: "unat (ucast v :: u32) = unat v" if "v < 128" for v :: u64
    using that by (simp add: unsigned_ucast_eq word_less_nat_alt take_bit_nat_eq_self)
  show "i < 128 \<Longrightarrow> (ucast (ucast i :: u64) :: u32) = i"
    using u [of "ucast i"] unfolding word_less_nat_alt unat_eq_iff [of "ucast (ucast i :: u64)"] unat_ucast_u32_u64
    by simp
  show "v < 128 \<Longrightarrow> (ucast (ucast v :: u32) :: u64) = v" for v :: u64
    using u [of v] by (simp add: unat_eq_iff unat_ucast_u32_u64)
  show "(ucast (i :: u32) :: u64) < 128 \<longleftrightarrow> i < 128"
    by (simp add: word_less_nat_alt unat_ucast_u32_u64)
  show "v < 128 \<Longrightarrow> (ucast v :: u32) < 128" for v :: u64
    using u [of v] by (simp add: word_less_nat_alt)
qed

lemma index_le: "(128 :: u64) \<le> ucast (i :: u32) \<longleftrightarrow> \<not> i < 128"
  using index_ucast(3) [of i] by (simp add: not_less [symmetric])

interpretation c_index: wire_codec wr_index rd_index "\<lambda>i. i < 128"
proof
  fix pre bs x r
  assume "rd_index (mk_reader pre bs) = Some (x, r)"
  then show "\<exists>rest. x < 128 \<and> bs = wr_index x @ rest \<and> r = mk_reader (pre @ wr_index x) rest"
    by (auto simp: rd_index_def wr_index_def MAX_COMMITTEE_def bind_eq_Some_conv not_le index_ucast
        split: if_splits elim!: c_varint.dec_invE)
qed (simp add: rd_index_def wr_index_def MAX_COMMITTEE_def index_ucast index_le)

interpretation c_indices: wire_codec "wr_vec wr_index" "rd_vec bound rd_index"
  "\<lambda>xs. length xs \<le> unat bound \<and> (\<forall>x \<in> set xs. x < 128)" for bound
  by (rule c_index.vec_codec)

definition wf_time_signature :: "TimeSignatureAggregate \<Rightarrow> bool" where
  "wf_time_signature t \<longleftrightarrow> length (ts_signer_indices t) \<le> MAX_COMMITTEE \<and> (\<forall>i \<in> set (ts_signer_indices t). i < 128)
     \<and> length (ts_aggregate t) = kBlsSignatureBytes"

interpretation c_time_signature: wire_codec wr_time_signature rd_time_signature wf_time_signature
proof
  fix pre bs x r
  assume "rd_time_signature (mk_reader pre bs) = Some (x, r)"
  then show "\<exists>rest. wf_time_signature x \<and> bs = wr_time_signature x @ rest
      \<and> r = mk_reader (pre @ wr_time_signature x) rest"
    by (auto simp: rd_time_signature_def wr_time_signature_def wf_time_signature_def bind_eq_Some_conv
        elim!: c_indices.dec_invE c_fixed.dec_invE)
qed (simp add: rd_time_signature_def wr_time_signature_def wf_time_signature_def)

definition wf_long_signature :: "LongTimeSignature \<Rightarrow> bool" where
  "wf_long_signature l \<longleftrightarrow> length (lts_committee_root l) = 32 \<and> wf_time_signature (lts_signature l)"

interpretation c_long_signature: wire_codec wr_long_signature rd_long_signature wf_long_signature
proof
  fix pre bs x r
  assume "rd_long_signature (mk_reader pre bs) = Some (x, r)"
  then show "\<exists>rest. wf_long_signature x \<and> bs = wr_long_signature x @ rest
      \<and> r = mk_reader (pre @ wr_long_signature x) rest"
    by (auto simp: rd_long_signature_def wr_long_signature_def wf_long_signature_def bind_eq_Some_conv
        elim!: c_u64le.dec_invE c_fixed.dec_invE c_time_signature.dec_invE)
qed (simp add: rd_long_signature_def wr_long_signature_def wf_long_signature_def)

interpretation c_long_signatures: wire_codec "wr_vec wr_long_signature" "rd_vec bound rd_long_signature"
  "\<lambda>xs. length xs \<le> unat bound \<and> (\<forall>x \<in> set xs. wf_long_signature x)" for bound
  by (rule c_long_signature.vec_codec)

lemma length_fv_serialize: "wf_vector v \<Longrightarrow> length (fv_serialize v) = 64"
proof -
  have "length (concat (map wr_u64le xs)) = 8 * length xs" for xs by (induction xs) simp_all
  then show "wf_vector v \<Longrightarrow> length (fv_serialize v) = 64"
    by (simp add: fv_serialize_def wf_vector_def INGRESS_LANE_COUNT_def)
qed

definition wf_transition :: "FrontierTransition \<Rightarrow> bool" where
  "wf_transition t \<longleftrightarrow>
     length (ft_prev_finalized_hash t) = 32 \<and> length (ft_prev_finality_link_hash t) = 32
     \<and> length (ft_leader_pubkey t) = 32 \<and> length (ft_leader_vrf_proof t) = 80
     \<and> wf_vector (ft_prev_vector t) \<and> wf_vector (ft_next_vector t)
     \<and> length (ft_ingress_commitment t) = 32 \<and> length (ft_prev_state_root t) = 32
     \<and> length (ft_next_state_root t) = 32 \<and> length (ft_next_state_commitment t) = 32
     \<and> length (ft_ordered_slice_commitment t) = 32 \<and> length (ft_decisions_commitment t) = 32
     \<and> length (ft_prev_finality_signers t) \<le> MAX_COMMITTEE \<and> (\<forall>s \<in> set (ft_prev_finality_signers t). wf_sig s)
     \<and> wf_time_signature (ft_prev_time_signature t)
     \<and> length (ft_long_time_signatures t) \<le> unat kMaxLongTimeSignaturesPerBlock
     \<and> (\<forall>l \<in> set (ft_long_time_signatures t). wf_long_signature l)
     \<and> wf_settlement (ft_settlement t) \<and> length (st_serialize (ft_settlement t)) < 18446744073709551616
     \<and> length (ft_settlement_commitment t) = 32"

interpretation c_transition: wire_codec ft_serialize rd_transition wf_transition
proof
  fix x pre rest
  assume "wf_transition x"
  then show "rd_transition (mk_reader pre (ft_serialize x @ rest)) = Some (x, mk_reader (pre @ ft_serialize x) rest)"
    by (simp add: rd_transition_def ft_serialize_def wf_transition_def fv_parse_def st_parse_def
        length_fv_serialize c_vector.parse_exact_enc c_settlement.parse_exact_enc)
next
  fix pre bs x r
  assume "rd_transition (mk_reader pre bs) = Some (x, r)"
  then show "\<exists>rest. wf_transition x \<and> bs = ft_serialize x @ rest \<and> r = mk_reader (pre @ ft_serialize x) rest"
    by (auto simp: rd_transition_def ft_serialize_def wf_transition_def fv_parse_def st_parse_def bind_eq_Some_conv
        c_vector.parse_exact_iff c_settlement.parse_exact_iff
        elim!: c_fixed.dec_invE c_u64le.dec_invE c_u32le.dec_invE c_varbytes.dec_invE c_sigs.dec_invE
          c_time_signature.dec_invE c_long_signatures.dec_invE)
qed

interpretation c_records: wire_codec "wr_vec wr_varbytes" "rd_vec u64_max rd_varbytes"
  "\<lambda>xs. length xs \<le> unat u64_max \<and> (\<forall>x \<in> set xs. length x < 18446744073709551616)"
  by (rule c_varbytes.vec_codec)

definition wf_proposal :: "FrontierProposal \<Rightarrow> bool" where
  "wf_proposal p \<longleftrightarrow> wf_transition (fpr_transition p)
     \<and> length (ft_serialize (fpr_transition p)) < 18446744073709551616
     \<and> length (fpr_ordered_records p) \<le> unat u64_max
     \<and> (\<forall>x \<in> set (fpr_ordered_records p). length x < 18446744073709551616)"

interpretation c_proposal: wire_codec fpr_serialize rd_proposal wf_proposal
proof
  fix x pre rest
  assume "wf_proposal x"
  then show "rd_proposal (mk_reader pre (fpr_serialize x @ rest)) = Some (x, mk_reader (pre @ fpr_serialize x) rest)"
    by (simp add: rd_proposal_def fpr_serialize_def wf_proposal_def ft_parse_def c_transition.parse_exact_enc)
next
  fix pre bs x r
  assume "rd_proposal (mk_reader pre bs) = Some (x, r)"
  then show "\<exists>rest. wf_proposal x \<and> bs = fpr_serialize x @ rest \<and> r = mk_reader (pre @ fpr_serialize x) rest"
    by (auto simp: rd_proposal_def fpr_serialize_def wf_proposal_def ft_parse_def bind_eq_Some_conv
        c_transition.parse_exact_iff elim!: c_varbytes.dec_invE c_records.dec_invE)
qed

definition wf_ingress_body :: "IngressCertificate \<Rightarrow> bool" where
  "wf_ingress_body c \<longleftrightarrow> length (ic_txid c) = 32 \<and> length (ic_tx_hash c) = 32 \<and> length (ic_prev_lane_root c) = 32"

definition wf_ingress_certificate :: "IngressCertificate \<Rightarrow> bool" where
  "wf_ingress_certificate c \<longleftrightarrow> wf_ingress_body c
     \<and> length (ic_sigs c) \<le> unat u64_max \<and> (\<forall>s \<in> set (ic_sigs c). wf_sig s)"

interpretation c_ingress: wire_codec ic_serialize rd_ingress_certificate wf_ingress_certificate
proof
  fix pre bs x r
  assume "rd_ingress_certificate (mk_reader pre bs) = Some (x, r)"
  then show "\<exists>rest. wf_ingress_certificate x \<and> bs = ic_serialize x @ rest \<and> r = mk_reader (pre @ ic_serialize x) rest"
    by (auto simp: rd_ingress_certificate_def ic_serialize_def ic_body_def wf_ingress_certificate_def
        wf_ingress_body_def bind_eq_Some_conv
        elim!: c_fixed.dec_invE c_u64le.dec_invE c_u32le.dec_invE c_sigs.dec_invE)
qed (simp add: rd_ingress_certificate_def ic_serialize_def ic_body_def wf_ingress_certificate_def wf_ingress_body_def)

interpretation c_lane_state: wire_codec ls_serialize rd_lane_state "\<lambda>s. length (ls_lane_root s) = 32"
proof
  fix pre bs x r
  assume "rd_lane_state (mk_reader pre bs) = Some (x, r)"
  then show "\<exists>rest. length (ls_lane_root x) = 32 \<and> bs = ls_serialize x @ rest \<and> r = mk_reader (pre @ ls_serialize x) rest"
    by (auto simp: rd_lane_state_def ls_serialize_def bind_eq_Some_conv
        elim!: c_fixed.dec_invE c_u64le.dec_invE c_u32le.dec_invE)
qed (simp add: rd_lane_state_def ls_serialize_def)

subsection \<open>Registration scripts\<close>

definition wf_registration :: "RegistrationScriptData \<Rightarrow> bool" where
  "wf_registration d \<longleftrightarrow> length (rs_validator_pubkey d) = 32 \<and> length (rs_payout_pubkey d) = 32
     \<and> length (rs_pop d) = 64 \<and> length (rs_bls_pubkey d) = kBlsPublicKeyBytes
     \<and> length (rs_bls_pop d) = kBlsSignatureBytes
     \<and> (rs_has_admission_pow d \<or> rs_admission_pow_epoch d = 0 \<and> rs_admission_pow_nonce d = 0)"

lemmas registration_sizes = kValidatorRegistrationScriptPowBytes_def kValidatorRegistrationScriptBytes_def
  kBlsPublicKeyBytes_def kBlsSignatureBytes_def

lemma parse_registration_encode:
  assumes "wf_registration d" and "length prefix = 8"
  shows "parse_registration_script (encode_registration_script prefix d) prefix = Some d"
proof (cases "rs_has_admission_pow d")
  case True
  with assms show ?thesis
    by (simp add: parse_registration_script_def encode_registration_script_def wf_registration_def Let_def
        registration_sizes parse_exact_mk_reader)
next
  case False
  with assms show ?thesis
    by (simp add: parse_registration_script_def encode_registration_script_def wf_registration_def Let_def
        registration_sizes)
qed

lemma split_at: "n \<le> length xs \<Longrightarrow> \<exists>a b. xs = a @ b \<and> length a = n"
  by (intro exI [of _ "take n xs"] exI [of _ "drop n xs"]) simp

lemma parse_registration_inv:
  assumes "parse_registration_script s prefix = Some d" and "length prefix = 8"
  shows "wf_registration d \<and> s = encode_registration_script prefix d"
proof -
  have "280 \<le> length s"
    using assms(1) by (auto simp: parse_registration_script_def registration_sizes split: if_splits)
  then obtain p a b c e f rest where s: "s = p @ a @ b @ c @ e @ f @ rest" and len: "length p = 8" "length a = 32"
      "length b = 32" "length c = 64" "length e = 48" "length f = 96"
  proof -
    obtain p s1 where "s = p @ s1" "length p = 8" using split_at [of 8 s] \<open>280 \<le> length s\<close> by auto
    moreover obtain a s2 where "s1 = a @ s2" "length a = 32" using split_at [of 32 s1] \<open>280 \<le> length s\<close> calculation by auto
    moreover obtain b s3 where "s2 = b @ s3" "length b = 32" using split_at [of 32 s2] \<open>280 \<le> length s\<close> calculation by auto
    moreover obtain c s4 where "s3 = c @ s4" "length c = 64" using split_at [of 64 s3] \<open>280 \<le> length s\<close> calculation by auto
    moreover obtain e s5 where "s4 = e @ s5" "length e = 48" using split_at [of 48 s4] \<open>280 \<le> length s\<close> calculation by auto
    moreover obtain f rest where "s5 = f @ rest" "length f = 96" using split_at [of 96 s5] \<open>280 \<le> length s\<close> calculation by auto
    ultimately show ?thesis using that by simp
  qed
  show ?thesis
    using assms unfolding s
    by (auto simp: parse_registration_script_def registration_sizes Let_def len wf_registration_def
        encode_registration_script_def parse_exact_mk_reader bind_eq_Some_conv
        split: if_splits option.splits elim!: c_u64le.dec_invE)
qed

subsection \<open>Properties\<close>

text \<open>
  C23. Frontier decisions, settlements, vectors, transitions and proposals, ingress certificates and lane
  states have one encoding each: a parser returns a value if and only if the value is within the limits
  and the bytes are its serialization. Trailing bytes and over-long counts are refused.
\<close>

theorem frontier_wire_exact:
  "(fd_parse bs = Some d \<longleftrightarrow> length (fd_record_id d) = 32 \<and> bs = fd_serialize d)
   \<and> (st_parse bs = Some s \<longleftrightarrow> wf_settlement s \<and> bs = st_serialize s)
   \<and> (fv_parse bs = Some v \<longleftrightarrow> wf_vector v \<and> bs = fv_serialize v)
   \<and> (ft_parse bs = Some t \<longleftrightarrow> wf_transition t \<and> bs = ft_serialize t)
   \<and> (fpr_parse bs = Some p \<longleftrightarrow> wf_proposal p \<and> bs = fpr_serialize p)
   \<and> (ic_parse bs = Some c \<longleftrightarrow> wf_ingress_certificate c \<and> bs = ic_serialize c)
   \<and> (ls_parse bs = Some l \<longleftrightarrow> length (ls_lane_root l) = 32 \<and> bs = ls_serialize l)"
  by (simp add: fd_parse_def st_parse_def fv_parse_def ft_parse_def fpr_parse_def ic_parse_def ls_parse_def
      c_decision.parse_exact_iff c_settlement.parse_exact_iff c_vector.parse_exact_iff c_transition.parse_exact_iff
      c_proposal.parse_exact_iff c_ingress.parse_exact_iff c_lane_state.parse_exact_iff)

text \<open>
  C24. A transition id commits to the whole transition: two transitions the parser can return that have
  the same id are equal, or their preimages are a collision of the hash function.
\<close>

theorem transition_id_binds:
  assumes "wf_transition t" and "wf_transition u" and "transition_id sha256d t = transition_id sha256d u"
  shows "t = u \<or> (\<exists>a b. a \<noteq> b \<and> sha256d a = sha256d b \<and> a = ascii ''SC-FRONTIER-V1'' @ ft_serialize t
           \<and> b = ascii ''SC-FRONTIER-V1'' @ ft_serialize u)"
  using assms c_transition.enc_inject [of t u] by (auto simp: transition_id_def)

definition sample_transition :: FrontierTransition where
  "sample_transition =
     \<lparr>ft_prev_finalized_hash = zero_hash, ft_prev_finality_link_hash = zero_hash, ft_height = 1, ft_timestamp = 0,
      ft_round = 0, ft_leader_pubkey = zero_hash, ft_leader_vrf_proof = replicate 80 0,
      ft_prev_vector = \<lparr>fv_lane_max_seq = replicate 8 0\<rparr>, ft_next_vector = \<lparr>fv_lane_max_seq = replicate 8 0\<rparr>,
      ft_ingress_commitment = zero_hash, ft_prev_frontier = 0, ft_next_frontier = 0, ft_prev_state_root = zero_hash,
      ft_next_state_root = zero_hash, ft_next_state_commitment = zero_hash,
      ft_ordered_slice_commitment = zero_hash, ft_decisions_commitment = zero_hash, ft_quorum_threshold = 1,
      ft_prev_finality_round = 0, ft_prev_finality_signers = [],
      ft_prev_time_signature = \<lparr>ts_signer_indices = [], ts_aggregate = replicate 96 0\<rparr>,
      ft_long_time_signatures = [],
      ft_settlement = \<lparr>st_settlement_epoch_start = 0, st_outputs = [], st_total = 0, st_current_fees = 0,
        st_settled_epoch_fees = 0, st_settled_epoch_rewards = 0, st_reserve_subsidy_units = 0\<rparr>,
      ft_settlement_commitment = zero_hash\<rparr>"

lemma wf_sample_transition: "wf_transition (sample_transition\<lparr>ft_round := x\<rparr>)"
  by (simp add: wf_transition_def sample_transition_def wf_vector_def INGRESS_LANE_COUNT_def MAX_COMMITTEE_def
      wf_time_signature_def kBlsSignatureBytes_def wf_settlement_def st_serialize_def wr_vec_def wr_varint_def
      encode_uleb128.simps)

lemma transition_id_binds_witness:
  "transition_id (\<lambda>b. b) (sample_transition\<lparr>ft_round := 0\<rparr>) \<noteq> transition_id (\<lambda>b. b) (sample_transition\<lparr>ft_round := 1\<rparr>)"
  using transition_id_binds [OF wf_sample_transition wf_sample_transition, of "\<lambda>b. b" 0 1]
  by (auto simp: sample_transition_def)

text \<open>
  C25. The two registration scripts are parsed exactly: a script parses as a join request (or as an
  onboarding registration) with some data if and only if it is the encoding of that data, and no script
  is both.
\<close>

theorem registration_scripts_exact:
  "(parse_validator_join_request_script s = Some d \<longleftrightarrow> wf_registration d \<and> s = encode_validator_join_request_script d)
   \<and> (parse_onboarding_registration_script s = Some d \<longleftrightarrow> wf_registration d \<and> s = encode_onboarding_registration_script d)
   \<and> (parse_validator_join_request_script s = None \<or> parse_onboarding_registration_script s = None)"
proof -
  have len: "length kJoinRequestPrefix = 8" "length kOnboardingPrefix = 8"
    by (simp_all add: kJoinRequestPrefix_def kOnboardingPrefix_def)
  have "kJoinRequestPrefix \<noteq> kOnboardingPrefix"
    by (simp add: kJoinRequestPrefix_def kOnboardingPrefix_def ascii_def)
  then have "parse_registration_script s kJoinRequestPrefix = None \<or> parse_registration_script s kOnboardingPrefix = None"
    by (auto simp: parse_registration_script_def split: if_splits)
  then show ?thesis
    using parse_registration_inv [OF _ len(1), of s d] parse_registration_inv [OF _ len(2), of s d]
      parse_registration_encode [OF _ len(1), of d] parse_registration_encode [OF _ len(2), of d]
    by (auto simp: parse_validator_join_request_script_def parse_onboarding_registration_script_def
        encode_validator_join_request_script_def encode_onboarding_registration_script_def)
qed

end
