(* ===== verification/Registry.thy ===== *)
theory Registry
  imports Tx_Types Network
begin

text \<open>
  The validator registry of \<^verbatim>\<open>src/src/consensus/validator_registry.cpp\<close>: every operation on it with all
  its refusals, the activity test, the quorum threshold and the liveness and join windows. A refused
  operation is \<open>Inl\<close> with the message the code stores in \<^verbatim>\<open>err\<close> and leaves the registry as it was.

  The step relation \<open>reg_step\<close> has one rule per operation that changes the registry in place; the
  invariants are proved over every sequence of them.
\<close>

datatype ValidatorStatus = PENDING | ACTIVE | EXITING | BANNED | SUSPENDED | ONBOARDING

record ValidatorInfo =
  vi_status :: ValidatorStatus
  vi_joined_height :: u64
  vi_bonded_amount :: u64
  vi_operator_id :: pubkey32
  vi_has_bond :: bool
  vi_bond_outpoint :: OutPoint
  vi_unbond_height :: u64
  vi_eligible_count_window :: u64
  vi_participated_count_window :: u64
  vi_liveness_window_start :: u64
  vi_suspended_until_height :: u64
  vi_last_join_height :: u64
  vi_last_exit_height :: u64
  vi_penalty_strikes :: u32
  vi_bls_pubkey :: bytes

record ValidatorRules =
  vr_min_bond :: u64
  vr_warmup_blocks :: u64
  vr_cooldown_blocks :: u64

record ValidatorRegistry =
  reg_validators :: "(pubkey32, ValidatorInfo) omap"
  reg_rules :: ValidatorRules

definition zero_outpoint_value :: OutPoint where "zero_outpoint_value = OutPoint zero_hash 0"
definition zero_pubkey :: pubkey32 where "zero_pubkey = replicate 32 0"
definition zero_bls_pubkey :: bytes where "zero_bls_pubkey = replicate 48 0"

text \<open>The value-initialised \<^verbatim>\<open>ValidatorInfo\<close> that \<^verbatim>\<open>validators_[pub]\<close> creates.\<close>

definition default_info :: ValidatorInfo where
  "default_info =
     \<lparr>vi_status = PENDING, vi_joined_height = 0, vi_bonded_amount = BOND_AMOUNT, vi_operator_id = zero_pubkey,
      vi_has_bond = False, vi_bond_outpoint = zero_outpoint_value, vi_unbond_height = 0,
      vi_eligible_count_window = 0, vi_participated_count_window = 0, vi_liveness_window_start = 0,
      vi_suspended_until_height = 0, vi_last_join_height = 0, vi_last_exit_height = 0, vi_penalty_strikes = 0,
      vi_bls_pubkey = zero_bls_pubkey\<rparr>"

definition zero_outpoint :: "OutPoint \<Rightarrow> bool" where
  "zero_outpoint op \<longleftrightarrow> op_txid op = zero_hash \<and> op_index op = 0"

definition is_genesis_bond_record :: "ValidatorInfo \<Rightarrow> bool" where
  "is_genesis_bond_record v \<longleftrightarrow> vi_joined_height v = 0 \<and> zero_outpoint (vi_bond_outpoint v)"

definition canonical_operator_id :: "pubkey32 \<Rightarrow> ValidatorInfo \<Rightarrow> pubkey32" where
  "canonical_operator_id validator_pubkey info =
     (if vi_operator_id info = zero_pubkey then validator_pubkey else vi_operator_id info)"

definition canonical_operator_id_from_join_request :: "pubkey32 \<Rightarrow> pubkey32" where
  "canonical_operator_id_from_join_request payout_pubkey = payout_pubkey"

definition reg_get :: "ValidatorRegistry \<Rightarrow> pubkey32 \<Rightarrow> ValidatorInfo option" where
  "reg_get reg pub = map_of (reg_validators reg) pub"

definition put :: "pubkey32 \<Rightarrow> ValidatorInfo \<Rightarrow> ValidatorRegistry \<Rightarrow> ValidatorRegistry" where
  "put pub info reg = reg\<lparr>reg_validators := omap_upd pub info (reg_validators reg)\<rparr>"

definition upsert :: "pubkey32 \<Rightarrow> ValidatorInfo \<Rightarrow> ValidatorRegistry \<Rightarrow> ValidatorRegistry" where
  "upsert pub info reg = put pub info reg"

definition set_rules :: "ValidatorRules \<Rightarrow> ValidatorRegistry \<Rightarrow> ValidatorRegistry" where
  "set_rules rules reg = reg\<lparr>reg_rules := rules\<rparr>"

fun first_entry :: "('a \<times> 'b \<Rightarrow> bool) \<Rightarrow> ('a \<times> 'b) list \<Rightarrow> 'a option" where
  "first_entry P [] = None"
| "first_entry P (e # es) = (if P e then Some (fst e) else first_entry P es)"

definition bls_key_owner :: "ValidatorRegistry \<Rightarrow> bytes \<Rightarrow> pubkey32 option" where
  "bls_key_owner reg bls_pubkey =
     (if bls_pubkey = zero_bls_pubkey then None
      else first_entry (\<lambda>(pub, info). vi_bls_pubkey info = bls_pubkey) (reg_validators reg))"

definition bls_key_assignable :: "ValidatorRegistry \<Rightarrow> pubkey32 \<Rightarrow> bytes option \<Rightarrow> string option" where
  "bls_key_assignable reg pub bls_pubkey =
     (case bls_pubkey of
        None \<Rightarrow> None
      | Some key \<Rightarrow>
          if (case bls_key_owner reg key of None \<Rightarrow> False | Some owner \<Rightarrow> owner \<noteq> pub)
          then Some ''bls key already registered''
          else if (case reg_get reg pub of
                     None \<Rightarrow> False
                   | Some cur \<Rightarrow> vi_bls_pubkey cur \<noteq> zero_bls_pubkey \<and> vi_bls_pubkey cur \<noteq> key)
          then Some ''bls key mismatch''
          else None)"

definition register_onboarding ::
  "pubkey32 \<Rightarrow> u64 \<Rightarrow> pubkey32 option \<Rightarrow> bytes option \<Rightarrow> ValidatorRegistry \<Rightarrow> string + ValidatorRegistry" where
  "register_onboarding pub joined_height operator_id bls_pubkey reg =
     (case bls_key_assignable reg pub bls_pubkey of
        Some err \<Rightarrow> Inl err
      | None \<Rightarrow>
          (case reg_get reg pub of
             Some v \<Rightarrow> Inl (if vi_status v = BANNED then ''validator banned'' else ''validator already registered'')
           | None \<Rightarrow>
               Inr (put pub (default_info
                      \<lparr>vi_status := ONBOARDING, vi_joined_height := joined_height,
                       vi_operator_id := (case operator_id of Some x \<Rightarrow> x | None \<Rightarrow> pub),
                       vi_has_bond := False, vi_bond_outpoint := zero_outpoint_value, vi_bonded_amount := 0,
                       vi_unbond_height := 0, vi_suspended_until_height := 0, vi_last_join_height := joined_height,
                       vi_bls_pubkey := (case bls_pubkey of Some k \<Rightarrow> k | None \<Rightarrow> vi_bls_pubkey default_info)\<rparr>) reg)))"

definition can_register_bond :: "ValidatorRegistry \<Rightarrow> pubkey32 \<Rightarrow> u64 \<Rightarrow> u64 \<Rightarrow> string option" where
  "can_register_bond reg pub height bond_amount =
     (if bond_amount < vr_min_bond (reg_rules reg) then Some ''bond below min''
      else case reg_get reg pub of
             None \<Rightarrow> None
           | Some v \<Rightarrow>
               if vi_status v = BANNED then Some ''validator banned''
               else if vi_status v = ACTIVE \<or> vi_status v = PENDING \<or> vi_status v = SUSPENDED
               then Some ''validator already registered''
               else if vi_has_bond v \<and> zero_outpoint (vi_bond_outpoint v) \<and> \<not> is_genesis_bond_record v
               then Some ''validator_bond_outpoint_invalid''
               else if vi_has_bond v \<and> vi_status v = EXITING then Some ''validator_rejoin_exit_not_completed''
               else if vi_has_bond v \<and> vi_status v \<noteq> EXITING then Some ''validator bond already active''
               else if vr_cooldown_blocks (reg_rules reg) > 0 \<and> vi_last_exit_height v > 0 then
                 (if vi_last_exit_height v > u64_max - vr_cooldown_blocks (reg_rules reg)
                  then Some ''validator cooldown overflow''
                  else if height < vi_last_exit_height v + vr_cooldown_blocks (reg_rules reg)
                  then Some ''validator_rejoin_cooldown''
                  else None)
               else None)"

definition register_bond ::
  "pubkey32 \<Rightarrow> OutPoint \<Rightarrow> u64 \<Rightarrow> u64 \<Rightarrow> pubkey32 option \<Rightarrow> bytes option
     \<Rightarrow> ValidatorRegistry \<Rightarrow> string + ValidatorRegistry" where
  "register_bond pub bond_outpoint joined_height bond_amount operator_id bls_pubkey reg =
     (case can_register_bond reg pub joined_height bond_amount of
        Some err \<Rightarrow> Inl err
      | None \<Rightarrow>
          (case bls_key_assignable reg pub bls_pubkey of
             Some err \<Rightarrow> Inl err
           | None \<Rightarrow>
               let v = (case reg_get reg pub of Some v \<Rightarrow> v | None \<Rightarrow> default_info)
               in Inr (put pub (v
                    \<lparr>vi_status := PENDING, vi_joined_height := joined_height, vi_bonded_amount := bond_amount,
                     vi_operator_id := (case operator_id of Some x \<Rightarrow> x | None \<Rightarrow> pub),
                     vi_has_bond := True, vi_bond_outpoint := bond_outpoint, vi_unbond_height := 0,
                     vi_last_join_height := joined_height,
                     vi_liveness_window_start :=
                       (if vi_liveness_window_start v = 0 then joined_height else vi_liveness_window_start v),
                     vi_bls_pubkey := (case bls_pubkey of Some k \<Rightarrow> k | None \<Rightarrow> vi_bls_pubkey v)\<rparr>) reg)))"

definition register_bond_default :: "pubkey32 \<Rightarrow> OutPoint \<Rightarrow> u64 \<Rightarrow> ValidatorRegistry \<Rightarrow> string + ValidatorRegistry" where
  "register_bond_default pub bond_outpoint joined_height reg =
     register_bond pub bond_outpoint joined_height BOND_AMOUNT None None reg"

definition request_unbond :: "pubkey32 \<Rightarrow> u64 \<Rightarrow> ValidatorRegistry \<Rightarrow> ValidatorRegistry option" where
  "request_unbond pub height reg =
     (case reg_get reg pub of
        None \<Rightarrow> None
      | Some v \<Rightarrow>
          if vi_status v = BANNED then None
          else if \<not> vi_has_bond v then None
          else Some (put pub (v\<lparr>vi_status := EXITING, vi_unbond_height := height, vi_last_exit_height := height\<rparr>) reg))"

definition ban :: "pubkey32 \<Rightarrow> u64 \<Rightarrow> ValidatorRegistry \<Rightarrow> ValidatorRegistry" where
  "ban pub height reg =
     (case reg_get reg pub of
        None \<Rightarrow> reg
      | Some v \<Rightarrow>
          let unbond = (if height \<noteq> 0 then max (vi_unbond_height v) height else vi_unbond_height v)
          in put pub (v\<lparr>vi_status := BANNED, vi_unbond_height := unbond,
                        vi_last_exit_height := max (vi_last_exit_height v) (max height unbond)\<rparr>) reg)"

definition finalize_withdrawal :: "pubkey32 \<Rightarrow> ValidatorRegistry \<Rightarrow> ValidatorRegistry option" where
  "finalize_withdrawal pub reg =
     (case reg_get reg pub of
        None \<Rightarrow> None
      | Some v \<Rightarrow> Some (put pub (v\<lparr>vi_has_bond := False, vi_bond_outpoint := zero_outpoint_value\<rparr>) reg))"

definition can_withdraw_bond :: "ValidatorRegistry \<Rightarrow> pubkey32 \<Rightarrow> u64 \<Rightarrow> u64 \<Rightarrow> bool" where
  "can_withdraw_bond reg pub height delay_blocks =
     (case reg_get reg pub of
        None \<Rightarrow> False
      | Some info \<Rightarrow>
          if \<not> vi_has_bond info then False
          else if vi_status info = BANNED then False
          else if vi_status info \<noteq> EXITING then False
          else if vi_unbond_height info = 0 then False
          else if vi_unbond_height info > u64_max - delay_blocks then False
          else height \<ge> vi_unbond_height info + delay_blocks)"

definition advance_info :: "ValidatorRules \<Rightarrow> u64 \<Rightarrow> ValidatorInfo \<Rightarrow> ValidatorInfo" where
  "advance_info rules height info =
     (let info = (if vi_status info = SUSPENDED \<and> vi_suspended_until_height info > 0
                     \<and> height \<ge> vi_suspended_until_height info
                  then info\<lparr>vi_status := ACTIVE, vi_suspended_until_height := 0\<rparr> else info)
      in if vi_status info = PENDING \<and> height \<ge> vi_joined_height info + vr_warmup_blocks rules
         then info\<lparr>vi_status := ACTIVE\<rparr> else info)"

definition advance_height :: "u64 \<Rightarrow> ValidatorRegistry \<Rightarrow> ValidatorRegistry" where
  "advance_height height reg =
     reg\<lparr>reg_validators := map (\<lambda>(pub, info). (pub, advance_info (reg_rules reg) height info)) (reg_validators reg)\<rparr>"

definition is_effectively_active :: "ValidatorRules \<Rightarrow> ValidatorInfo \<Rightarrow> u64 \<Rightarrow> bool" where
  "is_effectively_active rules info height =
     (if \<not> vi_has_bond info then False
      else if vi_status info = BANNED \<or> vi_status info = EXITING \<or> vi_status info = ONBOARDING then False
      else if vi_status info = SUSPENDED then False
      else if vi_suspended_until_height info > height then False
      else if vi_status info = ACTIVE then True
      else vi_status info = PENDING \<and> height \<ge> vi_joined_height info + vr_warmup_blocks rules)"

definition active_sorted :: "ValidatorRegistry \<Rightarrow> u64 \<Rightarrow> pubkey32 list" where
  "active_sorted reg height =
     sort (map fst (filter (\<lambda>(pub, info). is_effectively_active (reg_rules reg) info height) (reg_validators reg)))"

definition is_active_for_height :: "ValidatorRegistry \<Rightarrow> pubkey32 \<Rightarrow> u64 \<Rightarrow> bool" where
  "is_active_for_height reg pub height =
     (case reg_get reg pub of None \<Rightarrow> False | Some info \<Rightarrow> is_effectively_active (reg_rules reg) info height)"

definition pubkey_by_bond_outpoint :: "ValidatorRegistry \<Rightarrow> OutPoint \<Rightarrow> pubkey32 option" where
  "pubkey_by_bond_outpoint reg op =
     first_entry (\<lambda>(pub, info). vi_has_bond info \<and> op_txid (vi_bond_outpoint info) = op_txid op
                    \<and> op_index (vi_bond_outpoint info) = op_index op) (reg_validators reg)"

text \<open>A \<^verbatim>\<open>size_t\<close> count of validators is a natural number: it never comes near \<open>2 ^ 63\<close>.\<close>

definition quorum_threshold :: "nat \<Rightarrow> nat" where
  "quorum_threshold n_active = (2 * n_active) div 3 + 1"

definition validator_liveness_window_should_rollover :: "u64 \<Rightarrow> u64 \<Rightarrow> u64 \<Rightarrow> bool" where
  "validator_liveness_window_should_rollover height window_start window_blocks =
     (if window_blocks = 0 then False
      else if height + 1 < window_start + window_blocks then False
      else (height + 1 - window_start) mod window_blocks = 0)"

definition validator_liveness_next_window_start :: "u64 \<Rightarrow> u64 \<Rightarrow> u64 \<Rightarrow> u64" where
  "validator_liveness_next_window_start height window_start window_blocks =
     (if window_blocks = 0 then window_start
      else if height + 1 < window_start + window_blocks then window_start
      else let completed = (height + 1 - window_start) div window_blocks
           in window_start + completed * window_blocks)"

definition advance_validator_join_window :: "u64 \<Rightarrow> u64 \<Rightarrow> u64 \<times> u32 \<Rightarrow> u64 \<times> u32" where
  "advance_validator_join_window height window_blocks = (\<lambda>(window_start, window_count).
     if window_blocks = 0 then (window_start, window_count)
     else if height < window_start + window_blocks then (window_start, window_count)
     else let delta = height - window_start;
              steps = delta div window_blocks
          in (window_start + steps * window_blocks, 0))"

subsection \<open>Lookups after each operation\<close>

lemma reg_get_put [simp]: "reg_get (put pub info reg) q = (if q = pub then Some info else reg_get reg q)"
  by (simp add: reg_get_def put_def)

lemma reg_get_advance [simp]:
  "reg_get (advance_height h reg) q = map_option (advance_info (reg_rules reg) h) (reg_get reg q)"
  by (simp add: reg_get_def advance_height_def map_of_map)

lemma reg_get_set_rules [simp]: "reg_get (set_rules rules reg) q = reg_get reg q"
  by (simp add: reg_get_def set_rules_def)

lemma advance_info_keeps [simp]:
  "vi_bls_pubkey (advance_info rules h v) = vi_bls_pubkey v"
  "vi_has_bond (advance_info rules h v) = vi_has_bond v"
  "vi_status (advance_info rules h v) = BANNED \<longleftrightarrow> vi_status v = BANNED"
  by (auto simp: advance_info_def Let_def)

lemma first_entry_SomeD: "first_entry P m = Some k \<Longrightarrow> \<exists>v. (k, v) \<in> set m \<and> P (k, v)"
  by (induction m) (auto split: if_splits)

lemma first_entry_None_iff: "first_entry P m = None \<longleftrightarrow> (\<forall>e \<in> set m. \<not> P e)"
  by (induction m) auto

definition reg_ok :: "ValidatorRegistry \<Rightarrow> bool" where
  "reg_ok reg \<longleftrightarrow> omap_ok (reg_validators reg)
     \<and> (\<forall>p q v w. reg_get reg p = Some v \<and> reg_get reg q = Some w \<and> vi_bls_pubkey v = vi_bls_pubkey w
          \<and> vi_bls_pubkey v \<noteq> zero_bls_pubkey \<longrightarrow> p = q)"

lemma reg_ok_omap: "reg_ok reg \<Longrightarrow> omap_ok (reg_validators reg)"
  unfolding reg_ok_def by blast

lemma reg_ok_unique:
  "reg_ok reg \<Longrightarrow> reg_get reg p = Some v \<Longrightarrow> reg_get reg q = Some w \<Longrightarrow> vi_bls_pubkey v = vi_bls_pubkey w
   \<Longrightarrow> vi_bls_pubkey v \<noteq> zero_bls_pubkey \<Longrightarrow> p = q"
  unfolding reg_ok_def by blast

lemma bls_key_owner_iff:
  assumes "reg_ok reg"
  shows "bls_key_owner reg key = Some p \<longleftrightarrow>
    key \<noteq> zero_bls_pubkey \<and> (\<exists>v. reg_get reg p = Some v \<and> vi_bls_pubkey v = key)"
proof -
  have ok: "omap_ok (reg_validators reg)" using assms by (rule reg_ok_omap)
  have fwd: "\<exists>v. reg_get reg q = Some v \<and> vi_bls_pubkey v = key"
    if "first_entry (\<lambda>(pub, info). vi_bls_pubkey info = key) (reg_validators reg) = Some q" for q
    using first_entry_SomeD [OF that] ok by (auto simp: reg_get_def omap_in_set)
  show ?thesis
  proof
    assume "bls_key_owner reg key = Some p"
    then show "key \<noteq> zero_bls_pubkey \<and> (\<exists>v. reg_get reg p = Some v \<and> vi_bls_pubkey v = key)"
      using fwd by (auto simp: bls_key_owner_def split: if_splits)
  next
    assume p: "key \<noteq> zero_bls_pubkey \<and> (\<exists>v. reg_get reg p = Some v \<and> vi_bls_pubkey v = key)"
    then have "first_entry (\<lambda>(pub, info). vi_bls_pubkey info = key) (reg_validators reg) \<noteq> None"
      using ok by (auto simp: first_entry_None_iff reg_get_def omap_in_set [symmetric])
    then obtain q where q: "first_entry (\<lambda>(pub, info). vi_bls_pubkey info = key) (reg_validators reg) = Some q"
      by auto
    then obtain v where "reg_get reg q = Some v" "vi_bls_pubkey v = key" using fwd by blast
    moreover obtain w where "reg_get reg p = Some w" "vi_bls_pubkey w = key" using p by blast
    ultimately have "q = p" using reg_ok_unique [OF assms, of q v p w] p by simp
    with p q show "bls_key_owner reg key = Some p" by (simp add: bls_key_owner_def)
  qed
qed

lemma bls_assignable_holder:
  assumes "reg_ok reg" and "bls_key_assignable reg pub (Some key) = None"
    and "key \<noteq> zero_bls_pubkey" and "reg_get reg q = Some v" and "vi_bls_pubkey v = key"
  shows "q = pub"
  using assms bls_key_owner_iff [OF assms(1), of key q]
  by (auto simp: bls_key_assignable_def split: option.splits if_splits)

lemma bls_assignable_current:
  assumes "bls_key_assignable reg pub (Some key) = None" and "reg_get reg pub = Some v"
  shows "vi_bls_pubkey v = zero_bls_pubkey \<or> vi_bls_pubkey v = key"
  using assms by (auto simp: bls_key_assignable_def split: option.splits if_splits)

lemma reg_ok_put:
  assumes "reg_ok reg"
    and "\<And>q w. reg_get reg q = Some w \<Longrightarrow> q \<noteq> pub \<Longrightarrow> vi_bls_pubkey w = vi_bls_pubkey v
           \<Longrightarrow> vi_bls_pubkey v = zero_bls_pubkey"
  shows "reg_ok (put pub v reg)"
proof -
  have "omap_ok (reg_validators (put pub v reg))" using assms(1) by (simp add: reg_ok_def put_def)
  moreover have "p = q" if "reg_get (put pub v reg) p = Some a" "reg_get (put pub v reg) q = Some b"
    "vi_bls_pubkey a = vi_bls_pubkey b" "vi_bls_pubkey a \<noteq> zero_bls_pubkey" for p q a b
    using that assms(2) [of p a] assms(2) [of q b] reg_ok_unique [OF assms(1), of p a q b]
    by (auto split: if_splits)
  ultimately show ?thesis unfolding reg_ok_def by blast
qed

lemma reg_ok_put_same:
  "reg_ok reg \<Longrightarrow> reg_get reg pub = Some w \<Longrightarrow> vi_bls_pubkey v = vi_bls_pubkey w \<Longrightarrow> reg_ok (put pub v reg)"
  by (rule reg_ok_put) (auto dest: reg_ok_unique)

lemma reg_ok_put_key:
  assumes "reg_ok reg" and "bls_key_assignable reg pub (Some (vi_bls_pubkey v)) = None"
  shows "reg_ok (put pub v reg)"
  using bls_assignable_holder [OF assms] by (intro reg_ok_put [OF assms(1)]) blast

subsection \<open>The registry as a state machine\<close>

inductive reg_step :: "ValidatorRegistry \<Rightarrow> ValidatorRegistry \<Rightarrow> bool" where
  step_onboarding: "register_onboarding pub h operator_id bls reg = Inr reg' \<Longrightarrow> reg_step reg reg'"
| step_bond: "register_bond pub op h amount operator_id bls reg = Inr reg' \<Longrightarrow> reg_step reg reg'"
| step_unbond: "request_unbond pub h reg = Some reg' \<Longrightarrow> reg_step reg reg'"
| step_ban: "reg_step reg (ban pub h reg)"
| step_withdraw: "finalize_withdrawal pub reg = Some reg' \<Longrightarrow> reg_step reg reg'"
| step_advance: "reg_step reg (advance_height h reg)"
| step_rules: "reg_step reg (set_rules rules reg)"

lemma reg_ok_cong: "reg_validators a = reg_validators b \<Longrightarrow> reg_ok a = reg_ok b"
  by (simp only: reg_ok_def reg_get_def)

lemma reg_ok_step: "reg_step reg reg' \<Longrightarrow> reg_ok reg \<Longrightarrow> reg_ok reg'"
proof (induction rule: reg_step.induct)
  case (step_onboarding pub h operator_id bls reg reg')
  show ?case
  proof (cases bls)
    case None
    with step_onboarding show ?thesis
      by (auto simp: register_onboarding_def default_info_def split: option.splits intro!: reg_ok_put)
  next
    case (Some key)
    with step_onboarding show ?thesis
      by (auto simp: register_onboarding_def split: option.splits intro!: reg_ok_put_key)
  qed
next
  case (step_bond pub op h amount operator_id bls reg reg')
  show ?case
  proof (cases bls)
    case None
    with step_bond show ?thesis
      by (auto simp: register_bond_def Let_def default_info_def split: option.splits
          intro!: reg_ok_put dest: reg_ok_unique)
  next
    case (Some key)
    with step_bond show ?thesis
      by (auto simp: register_bond_def Let_def split: option.splits intro!: reg_ok_put_key)
  qed
next
  case (step_unbond pub h reg reg')
  then show ?case by (auto simp: request_unbond_def split: option.splits if_splits intro!: reg_ok_put_same)
next
  case (step_ban reg pub h)
  then show ?case by (auto simp: ban_def Let_def split: option.splits intro!: reg_ok_put_same)
next
  case (step_withdraw pub reg reg')
  then show ?case by (auto simp: finalize_withdrawal_def split: option.splits intro!: reg_ok_put_same)
next
  case (step_advance reg h)
  have "omap_ok (reg_validators (advance_height h reg))"
    using step_advance by (simp add: reg_ok_def advance_height_def omap_ok_def o_def case_prod_unfold)
  moreover have "p = q" if "reg_get (advance_height h reg) p = Some a" "reg_get (advance_height h reg) q = Some b"
    "vi_bls_pubkey a = vi_bls_pubkey b" "vi_bls_pubkey a \<noteq> zero_bls_pubkey" for p q a b
    using that reg_ok_unique [OF step_advance, of p _ q] by auto
  ultimately show ?case unfolding reg_ok_def by blast
next
  case (step_rules reg rules)
  have "reg_validators (set_rules rules reg) = reg_validators reg" by (simp add: set_rules_def)
  with step_rules show ?case using reg_ok_cong by blast
qed

text \<open>An entry is never removed, a ban is never lifted and a BLS key never changes.\<close>

lemma reg_step_keeps:
  assumes "reg_step reg reg'" and "reg_get reg p = Some v"
  shows "\<exists>w. reg_get reg' p = Some w \<and> (vi_status v = BANNED \<longrightarrow> vi_status w = BANNED)
    \<and> (vi_bls_pubkey v \<noteq> zero_bls_pubkey \<longrightarrow> vi_bls_pubkey w = vi_bls_pubkey v)"
  using assms
proof (induction rule: reg_step.induct)
  case (step_onboarding pub h operator_id bls reg reg')
  then show ?case by (auto simp: register_onboarding_def split: option.splits)
next
  case (step_bond pub op h amount operator_id bls reg reg')
  then show ?case
    by (auto simp: register_bond_def Let_def can_register_bond_def split: option.splits if_splits
        dest: bls_assignable_current)
qed (auto simp: request_unbond_def ban_def finalize_withdrawal_def Let_def split: option.splits if_splits)



lemma reg_steps_ok: "reg_step\<^sup>*\<^sup>* reg reg' \<Longrightarrow> reg_ok reg \<Longrightarrow> reg_ok reg'"
  by (induction rule: rtranclp_induct) (auto intro: reg_ok_step)

lemma reg_steps_keep:
  assumes "reg_step\<^sup>*\<^sup>* reg reg'" and "reg_get reg p = Some v"
  shows "\<exists>w. reg_get reg' p = Some w \<and> (vi_status v = BANNED \<longrightarrow> vi_status w = BANNED)
    \<and> (vi_bls_pubkey v \<noteq> zero_bls_pubkey \<longrightarrow> vi_bls_pubkey w = vi_bls_pubkey v)"
  using assms
proof (induction rule: rtranclp_induct)
  case (step b c)
  then obtain w where w: "reg_get b p = Some w" "vi_status v = BANNED \<longrightarrow> vi_status w = BANNED"
    "vi_bls_pubkey v \<noteq> zero_bls_pubkey \<longrightarrow> vi_bls_pubkey w = vi_bls_pubkey v" by blast
  from reg_step_keeps [OF step(2) w(1)] w(2,3) show ?case by metis
qed auto

lemma banned_never_active: "vi_status v = BANNED \<Longrightarrow> \<not> is_effectively_active rules v h"
  by (simp add: is_effectively_active_def)

lemma active_sorted_set: "omap_ok (reg_validators reg) \<Longrightarrow> set (active_sorted reg h) = {p. is_active_for_height reg p h}"
  by (force simp: active_sorted_def is_active_for_height_def reg_get_def omap_in_set split: option.splits)

lemma active_sorted_distinct: "omap_ok (reg_validators reg) \<Longrightarrow> distinct (active_sorted reg h)"
  using omap_ok_distinct [OF omap_ok_filter, of "reg_validators reg"] by (simp add: active_sorted_def)

lemma unat_u64_max: "unat u64_max = 18446744073709551615"
  by (simp add: unsigned_minus_1_eq_mask mask_eq_exp_minus_1)

lemma add_fits_iff: "a \<le> u64_max - b \<longleftrightarrow> unat a + unat b < 18446744073709551616" for a b :: u64
proof -
  have "unat b \<le> unat u64_max" unfolding unat_u64_max using unat_u64_less [of b] by linarith
  then have "unat (u64_max - b) = 18446744073709551615 - unat b" by (simp only: unat_sub_u64 unat_u64_max)
  then show ?thesis unfolding word_le_nat_alt using unat_u64_less [of b] by linarith
qed

lemma word_le_diff_iff: "\<not> (a > u64_max - b) \<and> a + b \<le> h \<longleftrightarrow> unat a + unat b \<le> unat h" for a b h :: u64
proof (cases "unat a + unat b < 18446744073709551616")
  case True
  then have "unat (a + b) = unat a + unat b" by (rule unat_add_u64)
  with True show ?thesis unfolding not_less add_fits_iff unfolding word_le_nat_alt by linarith
next
  case False
  then show ?thesis using unat_u64_less [of h] unfolding not_less add_fits_iff by linarith
qed

lemma can_withdraw_bond_iff:
  "can_withdraw_bond reg pub h d \<longleftrightarrow> (\<exists>v. reg_get reg pub = Some v \<and> vi_has_bond v \<and> vi_status v = EXITING
     \<and> vi_unbond_height v \<noteq> 0 \<and> unat (vi_unbond_height v) + unat d \<le> unat h)"
  unfolding word_le_diff_iff [symmetric] by (auto simp: can_withdraw_bond_def split: option.splits)

definition demo_rules :: ValidatorRules where
  "demo_rules = \<lparr>vr_min_bond = 100, vr_warmup_blocks = 10, vr_cooldown_blocks = 20\<rparr>"

definition demo_reg :: ValidatorRegistry where
  "demo_reg = \<lparr>reg_validators = [([1], default_info\<lparr>vi_has_bond := True, vi_bls_pubkey := [9]\<rparr>)], reg_rules = demo_rules\<rparr>"

lemma demo_reg_ok: "reg_ok demo_reg" "reg_ok (ban [1] 7 demo_reg)"
proof -
  have "reg_ok (\<lparr>reg_validators = [([1], v)], reg_rules = r\<rparr>)" for v r
    unfolding reg_ok_def reg_get_def by (auto simp: omap_ok_def split: if_splits)
  then show "reg_ok demo_reg" "reg_ok (ban [1] 7 demo_reg)"
    by (simp_all add: demo_reg_def ban_def reg_get_def put_def Let_def)
qed

subsection \<open>The properties of the registry\<close>






end
