(* ===== verification/Votes.thy ===== *)
theory Votes
  imports Tx_Types
begin

text \<open>
  The vote trackers of \<^verbatim>\<open>src/src/consensus/votes.cpp\<close>: \<^verbatim>\<open>VoteTracker\<close> for precommits and prevotes and
  \<^verbatim>\<open>TimeoutVoteTracker\<close> for timeouts. The nested \<^verbatim>\<open>std::map\<close>s are nested ordered maps; every call that
  changes a tracker returns its result and the new tracker.

  Both trackers are state machines (\<open>vt_reach\<close>, \<open>tt_reach\<close>). Their invariants say that a validator
  counts once per height and round, that the capacity limits hold, and which vote is remembered as the
  latest one.
\<close>

subsection \<open>The precommit tracker\<close>

record VoteTallyResult =
  vr_accepted :: bool
  vr_duplicate :: bool
  vr_equivocation :: bool
  vr_evidence :: "EquivocationEvidence option"
  vr_votes_for_block :: nat

record VoteSet =
  vs_round :: u32
  vs_transition_id :: hash32
  vs_signatures :: "FinalitySig list"

record VoteLimits =
  vl_max_blocks_per_height_round :: nat
  vl_max_votes_global :: nat

type_synonym vote_key = "u64 \<times> u32 \<times> hash32"

record VoteTracker =
  vt_by_block :: "(vote_key, (pubkey32, sig64) omap) omap"
  vt_last_vote :: "(u64, (pubkey32, Vote) omap) omap"
  vt_limits :: VoteLimits

definition vt_new :: "VoteLimits \<Rightarrow> VoteTracker" where
  "vt_new limits = \<lparr>vt_by_block = [], vt_last_vote = [], vt_limits = limits\<rparr>"

definition no_tally :: VoteTallyResult where
  "no_tally = \<lparr>vr_accepted = False, vr_duplicate = False, vr_equivocation = False, vr_evidence = None,
     vr_votes_for_block = 0\<rparr>"

text \<open>The map that \<^verbatim>\<open>m[k]\<close> refers to: an empty one when the key is new.\<close>

definition entry :: "('k, ('a, 'b) omap) omap \<Rightarrow> 'k \<Rightarrow> ('a, 'b) omap" where
  "entry m k = (case map_of m k of None \<Rightarrow> [] | Some e \<Rightarrow> e)"

definition total_entries :: "('k, ('a, 'b) omap) omap \<Rightarrow> nat" where
  "total_entries m = (\<Sum>(k, e) \<leftarrow> m. length e)"

definition key_of :: "Vote \<Rightarrow> vote_key" where
  "key_of vote = (vote_height vote, vote_round vote, vote_frontier_transition_id vote)"

text \<open>The second half of \<^verbatim>\<open>add_vote\<close>: the vote is new for its validator and round.\<close>

definition vt_put :: "Vote \<Rightarrow> VoteTracker \<Rightarrow> VoteTracker" where
  "vt_put vote t =
     t\<lparr>vt_by_block := omap_upd (key_of vote)
         (omap_upd (vote_validator_pubkey vote) (vote_signature vote) (entry (vt_by_block t) (key_of vote)))
         (vt_by_block t),
       vt_last_vote := omap_upd (vote_height vote)
         (omap_upd (vote_validator_pubkey vote) vote (entry (vt_last_vote t) (vote_height vote))) (vt_last_vote t)\<rparr>"

definition block_keys_for_hr :: "VoteTracker \<Rightarrow> u64 \<Rightarrow> u32 \<Rightarrow> nat" where
  "block_keys_for_hr t height round =
     length (filter (\<lambda>e. fst (fst e) = height \<and> fst (snd (fst e)) = round) (vt_by_block t))"

definition vt_record :: "Vote \<Rightarrow> VoteTracker \<Rightarrow> VoteTallyResult \<times> VoteTracker" where
  "vt_record vote t =
     (if map_of (vt_by_block t) (key_of vote) = None
         \<and> block_keys_for_hr t (vote_height vote) (vote_round vote) \<ge> vl_max_blocks_per_height_round (vt_limits t)
      then (no_tally, t)
      else (no_tally\<lparr>vr_accepted := True,
                     vr_votes_for_block := length (entry (vt_by_block (vt_put vote t)) (key_of vote))\<rparr>,
            vt_put vote t))"

definition vt_add_vote :: "Vote \<Rightarrow> VoteTracker \<Rightarrow> VoteTallyResult \<times> VoteTracker" where
  "vt_add_vote vote t =
     (let seen = entry (vt_last_vote t) (vote_height vote);
          t = t\<lparr>vt_last_vote := omap_upd (vote_height vote) seen (vt_last_vote t)\<rparr>
      in if total_entries (vt_by_block t) \<ge> vl_max_votes_global (vt_limits t) then (no_tally, t)
         else case map_of seen (vote_validator_pubkey vote) of
                None \<Rightarrow> vt_record vote t
              | Some prior \<Rightarrow>
                  if vote_round prior = vote_round vote then
                    (if vote_frontier_transition_id prior = vote_frontier_transition_id vote
                     then (no_tally\<lparr>vr_duplicate := True\<rparr>, t)
                     else (no_tally\<lparr>vr_equivocation := True, vr_evidence := Some \<lparr>ev_a = prior, ev_b = vote\<rparr>\<rparr>, t))
                  else if vote_round vote < vote_round prior then (no_tally\<lparr>vr_duplicate := True\<rparr>, t)
                  else vt_record vote t)"

definition sig_list :: "(pubkey32, sig64) omap \<Rightarrow> FinalitySig list" where
  "sig_list m = map (\<lambda>(pub, sig). \<lparr>fs_validator_pubkey = pub, fs_signature = sig\<rparr>) m"

definition vt_signatures_for :: "VoteTracker \<Rightarrow> u64 \<Rightarrow> u32 \<Rightarrow> hash32 \<Rightarrow> FinalitySig list" where
  "vt_signatures_for t height round transition_id =
     (case map_of (vt_by_block t) (height, round, transition_id) of None \<Rightarrow> [] | Some sigs \<Rightarrow> sig_list sigs)"

text \<open>A \<^verbatim>\<open>std::set\<close> is the sorted list of its elements.\<close>

definition vt_participants_for :: "VoteTracker \<Rightarrow> u64 \<Rightarrow> u32 \<Rightarrow> pubkey32 list" where
  "vt_participants_for t height round =
     sort (remdups (concat (map (\<lambda>(k, sigs). map fst sigs)
       (filter (\<lambda>(k, sigs). \<not> (fst k \<noteq> height \<or> fst (snd k) \<noteq> round)) (vt_by_block t)))))"

text \<open>\<^verbatim>\<open>lower_bound(k)\<close> skips the keys below \<open>k\<close>.\<close>

definition vt_vote_sets_for_height :: "VoteTracker \<Rightarrow> u64 \<Rightarrow> VoteSet list" where
  "vt_vote_sets_for_height t height =
     map (\<lambda>((h, r, tid), sigs). \<lparr>vs_round = r, vs_transition_id = tid, vs_signatures = sig_list sigs\<rparr>)
       (takeWhile (\<lambda>(k, sigs). fst k = height)
         (dropWhile (\<lambda>(k, sigs). k < (height, 0, zero_hash)) (vt_by_block t)))"

definition vt_clear_height :: "u64 \<Rightarrow> VoteTracker \<Rightarrow> VoteTracker" where
  "vt_clear_height height t =
     t\<lparr>vt_by_block := filter (\<lambda>e. fst (fst e) \<noteq> height) (vt_by_block t),
       vt_last_vote := filter (\<lambda>e. fst e \<noteq> height) (vt_last_vote t)\<rparr>"

subsection \<open>The timeout tracker\<close>

record TimeoutVoteTallyResult =
  tr_accepted :: bool
  tr_duplicate :: bool
  tr_stale :: bool
  tr_evicted_round :: "u32 option"
  tr_votes_for_round :: nat

record TimeoutLimits =
  tl_max_rounds_per_height :: nat
  tl_max_votes_global :: nat

record TimeoutVoteTracker =
  tt_by_round :: "(u64 \<times> u32, (pubkey32, sig64) omap) omap"
  tt_last_vote :: "(u64, (pubkey32, TimeoutVote) omap) omap"
  tt_limits :: TimeoutLimits

definition tt_new :: "TimeoutLimits \<Rightarrow> TimeoutVoteTracker" where
  "tt_new limits = \<lparr>tt_by_round = [], tt_last_vote = [], tt_limits = limits\<rparr>"

definition no_timeout_tally :: TimeoutVoteTallyResult where
  "no_timeout_tally = \<lparr>tr_accepted = False, tr_duplicate = False, tr_stale = False, tr_evicted_round = None,
     tr_votes_for_round = 0\<rparr>"

text \<open>The last lines of \<^verbatim>\<open>add_vote\<close>: the bucket of the vote's round exists or has room.\<close>

definition tt_put :: "TimeoutVote \<Rightarrow> TimeoutVoteTracker \<Rightarrow> TimeoutVoteTracker" where
  "tt_put vote t =
     (let key = (tv_height vote, tv_round vote)
      in t\<lparr>tt_by_round := omap_upd key
             (omap_upd (tv_validator_pubkey vote) (tv_signature vote) (entry (tt_by_round t) key)) (tt_by_round t),
           tt_last_vote := omap_upd (tv_height vote)
             (omap_upd (tv_validator_pubkey vote) vote (entry (tt_last_vote t) (tv_height vote))) (tt_last_vote t)\<rparr>)"

definition tt_store ::
  "TimeoutVote \<Rightarrow> u32 option \<Rightarrow> TimeoutVoteTracker \<Rightarrow> TimeoutVoteTallyResult \<times> TimeoutVoteTracker" where
  "tt_store vote evicted t =
     (no_timeout_tally\<lparr>tr_accepted := True, tr_evicted_round := evicted,
        tr_votes_for_round := length (entry (tt_by_round (tt_put vote t)) (tv_height vote, tv_round vote))\<rparr>,
      tt_put vote t)"

text \<open>
  The buckets of the height, from the lowest retained round. When the window is full its first
  bucket is the one to evict; the window is then not empty, since a limit of zero returns before.
\<close>

definition height_buckets ::
  "(u64 \<times> u32, (pubkey32, sig64) omap) omap \<Rightarrow> u64 \<Rightarrow> (u64 \<times> u32, (pubkey32, sig64) omap) omap" where
  "height_buckets m height =
     takeWhile (\<lambda>(k, sigs). fst k = height) (dropWhile (\<lambda>(k, sigs). k < (height, 0)) m)"

definition tt_bucket :: "TimeoutVote \<Rightarrow> TimeoutVoteTracker \<Rightarrow> TimeoutVoteTallyResult \<times> TimeoutVoteTracker" where
  "tt_bucket vote t =
     (if map_of (tt_by_round t) (tv_height vote, tv_round vote) \<noteq> None then tt_store vote None t
      else if tl_max_rounds_per_height (tt_limits t) = 0 then (no_timeout_tally, t)
      else case height_buckets (tt_by_round t) (tv_height vote) of
             [] \<Rightarrow> tt_store vote None t
           | (oldest, sigs) # rest \<Rightarrow>
               if Suc (length rest) \<ge> tl_max_rounds_per_height (tt_limits t) then
                 (if tv_round vote < snd oldest then (no_timeout_tally\<lparr>tr_stale := True\<rparr>, t)
                  else tt_store vote (Some (snd oldest)) (t\<lparr>tt_by_round := omap_del oldest (tt_by_round t)\<rparr>))
               else tt_store vote None t)"

definition tt_add_vote :: "TimeoutVote \<Rightarrow> TimeoutVoteTracker \<Rightarrow> TimeoutVoteTallyResult \<times> TimeoutVoteTracker" where
  "tt_add_vote vote t =
     (let seen = entry (tt_last_vote t) (tv_height vote);
          t = t\<lparr>tt_last_vote := omap_upd (tv_height vote) seen (tt_last_vote t)\<rparr>
      in if total_entries (tt_by_round t) \<ge> tl_max_votes_global (tt_limits t) then (no_timeout_tally, t)
         else case map_of seen (tv_validator_pubkey vote) of
                None \<Rightarrow> tt_bucket vote t
              | Some prior \<Rightarrow>
                  if tv_round prior = tv_round vote then (no_timeout_tally\<lparr>tr_duplicate := True\<rparr>, t)
                  else if tv_round vote < tv_round prior then (no_timeout_tally\<lparr>tr_duplicate := True\<rparr>, t)
                  else tt_bucket vote t)"

definition note_latest_round :: "TimeoutVote \<Rightarrow> TimeoutVoteTracker \<Rightarrow> TimeoutVoteTracker" where
  "note_latest_round vote t =
     (let seen = entry (tt_last_vote t) (tv_height vote);
          seen = (case map_of seen (tv_validator_pubkey vote) of
                    None \<Rightarrow> omap_upd (tv_validator_pubkey vote) vote seen
                  | Some prior \<Rightarrow> if tv_round vote > tv_round prior
                                 then omap_upd (tv_validator_pubkey vote) vote seen else seen)
      in t\<lparr>tt_last_vote := omap_upd (tv_height vote) seen (tt_last_vote t)\<rparr>)"

text \<open>\<^verbatim>\<open>nth_element\<close> with \<^verbatim>\<open>std::greater\<close> puts at its index the element a descending sort puts there.\<close>

definition round_reached_by :: "TimeoutVoteTracker \<Rightarrow> u64 \<Rightarrow> nat \<Rightarrow> u32 option" where
  "round_reached_by t height cnt =
     (if cnt = 0 then None
      else case map_of (tt_last_vote t) height of
             None \<Rightarrow> None
           | Some seen \<Rightarrow>
               if length seen < cnt then None
               else Some (rev (sort (map (\<lambda>(pub, vote). tv_round vote) seen)) ! (cnt - 1)))"

definition tt_signatures_for :: "TimeoutVoteTracker \<Rightarrow> u64 \<Rightarrow> u32 \<Rightarrow> FinalitySig list" where
  "tt_signatures_for t height round =
     (case map_of (tt_by_round t) (height, round) of None \<Rightarrow> [] | Some sigs \<Rightarrow> sig_list sigs)"

definition tt_clear_height :: "u64 \<Rightarrow> TimeoutVoteTracker \<Rightarrow> TimeoutVoteTracker" where
  "tt_clear_height height t =
     t\<lparr>tt_by_round := filter (\<lambda>e. fst (fst e) \<noteq> height) (tt_by_round t),
       tt_last_vote := filter (\<lambda>e. fst e \<noteq> height) (tt_last_vote t)\<rparr>"

subsection \<open>Nested maps\<close>

definition nested_ok :: "('k::linorder, ('a::linorder, 'b) omap) omap \<Rightarrow> bool" where
  "nested_ok m \<longleftrightarrow> omap_ok m \<and> (\<forall>k e. map_of m k = Some e \<longrightarrow> omap_ok e)"

lemma nested_ok_Nil [simp]: "nested_ok []"
  by (simp add: nested_ok_def)

lemma nested_ok_upd [simp]: "nested_ok m \<Longrightarrow> omap_ok e \<Longrightarrow> nested_ok (omap_upd k e m)"
  by (auto simp: nested_ok_def)

lemma nested_ok_entry [simp]: "nested_ok m \<Longrightarrow> omap_ok (entry m k)"
  by (auto simp: nested_ok_def entry_def split: option.split)

lemma nested_ok_filter [simp]: "nested_ok m \<Longrightarrow> nested_ok (filter (\<lambda>e. P (fst e)) m)"
  by (auto simp: nested_ok_def map_of_omap_filter_keys split: if_splits)

lemma nested_ok_del [simp]: "nested_ok m \<Longrightarrow> nested_ok (omap_del k m)"
  by (auto simp: nested_ok_def split: if_splits)

lemma entry_upd [simp]: "entry (omap_upd k e m) j = (if j = k then e else entry m j)"
  by (simp add: entry_def)

lemma entry_del [simp]: "entry (omap_del k m) j = (if j = k then [] else entry m j)"
  by (simp add: entry_def)

lemma entry_filter [simp]: "entry (filter (\<lambda>e. P (fst e)) m) k = (if P k then entry m k else [])"
  by (simp add: entry_def map_of_omap_filter_keys)

lemma entry_Nil [simp]: "entry [] k = []"
  by (simp add: entry_def)

lemma total_entries_upd:
  "omap_ok m \<Longrightarrow> total_entries (omap_upd k e m) + length (entry m k) = total_entries m + length e"
proof (induction k e m rule: omap_upd.induct)
  case (2 k v a b m)
  then have "k < a \<Longrightarrow> map_of ((a, b) # m) k = None"
    by (auto simp: omap_ok_Cons map_of_eq_None_iff)
  with 2 show ?case by (auto simp: omap_ok_Cons total_entries_def entry_def)
qed (simp add: total_entries_def)

lemma total_entries_filter: "total_entries (filter P m) \<le> total_entries m"
  by (induction m) (auto simp: total_entries_def)

lemma total_entries_insert:
  assumes "nested_ok m"
  shows "total_entries (omap_upd k (omap_upd p s (entry m k)) m) \<le> Suc (total_entries m)"
  using total_entries_upd [of m k "omap_upd p s (entry m k)"] assms
  by (auto simp: nested_ok_def length_omap_upd [OF nested_ok_entry [OF assms]] split: if_splits)

lemma filter_upd_length:
  "omap_ok m \<Longrightarrow> length (filter (\<lambda>e. P (fst e)) (omap_upd k v m))
     = (if map_of m k = None \<and> P k then Suc (length (filter (\<lambda>e. P (fst e)) m)) else length (filter (\<lambda>e. P (fst e)) m))"
proof (induction k v m rule: omap_upd.induct)
  case (2 k v a b m)
  then have "k < a \<Longrightarrow> map_of ((a, b) # m) k = None"
    by (auto simp: omap_ok_Cons map_of_eq_None_iff)
  with 2 show ?case by (auto simp: omap_ok_Cons split: if_splits)
qed simp

lemma filter_filter_length: "length (filter P (filter Q m)) \<le> length (filter P m)"
  by (induction m) auto

subsection \<open>What a precommit tracker remembers\<close>

definition has_vote :: "VoteTracker \<Rightarrow> u64 \<Rightarrow> u32 \<Rightarrow> pubkey32 \<Rightarrow> hash32 \<Rightarrow> sig64 \<Rightarrow> bool" where
  "has_vote t h r p tid s \<longleftrightarrow> map_of (entry (vt_by_block t) (h, r, tid)) p = Some s"

definition latest_vote :: "VoteTracker \<Rightarrow> u64 \<Rightarrow> pubkey32 \<Rightarrow> Vote option" where
  "latest_vote t h p = map_of (entry (vt_last_vote t) h) p"

definition vt_shape :: "VoteTracker \<Rightarrow> bool" where
  "vt_shape t \<longleftrightarrow> nested_ok (vt_by_block t) \<and> nested_ok (vt_last_vote t)"

definition vt_bounded :: "VoteTracker \<Rightarrow> bool" where
  "vt_bounded t \<longleftrightarrow> total_entries (vt_by_block t) \<le> vl_max_votes_global (vt_limits t)
     \<and> (\<forall>h r. block_keys_for_hr t h r \<le> vl_max_blocks_per_height_round (vt_limits t))"

definition vt_votes_ok :: "VoteTracker \<Rightarrow> bool" where
  "vt_votes_ok t \<longleftrightarrow>
     (\<forall>h p v. latest_vote t h p = Some v \<longrightarrow> vote_height v = h \<and> vote_validator_pubkey v = p
        \<and> has_vote t h (vote_round v) p (vote_frontier_transition_id v) (vote_signature v))
     \<and> (\<forall>h r p tid s. has_vote t h r p tid s \<longrightarrow> (\<exists>v. latest_vote t h p = Some v \<and> r \<le> vote_round v))
     \<and> (\<forall>h r p tid s tid' s'. has_vote t h r p tid s \<and> has_vote t h r p tid' s' \<longrightarrow> tid = tid')"

lemma vt_votes_okD:
  assumes "vt_votes_ok t"
  shows "latest_vote t h p = Some v \<Longrightarrow> vote_height v = h \<and> vote_validator_pubkey v = p
        \<and> has_vote t h (vote_round v) p (vote_frontier_transition_id v) (vote_signature v)"
    and "has_vote t h r p tid s \<Longrightarrow> \<exists>v. latest_vote t h p = Some v \<and> r \<le> vote_round v"
    and "has_vote t h r p tid s \<Longrightarrow> has_vote t h r p tid' s' \<Longrightarrow> tid = tid'"
  using assms unfolding vt_votes_ok_def by blast+

lemma has_vote_put:
  "has_vote (vt_put vote t) h r p tid s \<longleftrightarrow>
     (if (h, r, tid) = key_of vote \<and> p = vote_validator_pubkey vote then s = vote_signature vote
      else has_vote t h r p tid s)"
  by (auto simp: has_vote_def vt_put_def)

lemma latest_vote_put:
  "latest_vote (vt_put vote t) h p =
     (if h = vote_height vote \<and> p = vote_validator_pubkey vote then Some vote else latest_vote t h p)"
  by (auto simp: latest_vote_def vt_put_def)

text \<open>\<^verbatim>\<open>last_vote_by_validator_[height]\<close> alone creates an empty entry and changes no lookup.\<close>

definition vt_touch :: "u64 \<Rightarrow> VoteTracker \<Rightarrow> VoteTracker" where
  "vt_touch h t = t\<lparr>vt_last_vote := omap_upd h (entry (vt_last_vote t) h) (vt_last_vote t)\<rparr>"

lemma touch_simps [simp]:
  "has_vote (vt_touch h t) = has_vote t" "latest_vote (vt_touch h t) = latest_vote t"
  "vt_limits (vt_touch h t) = vt_limits t" "vt_by_block (vt_touch h t) = vt_by_block t"
  "block_keys_for_hr (vt_touch h t) = block_keys_for_hr t"
  by (auto simp: has_vote_def latest_vote_def vt_touch_def block_keys_for_hr_def fun_eq_iff)

lemma touch_ok [simp]:
  "vt_shape t \<Longrightarrow> vt_shape (vt_touch h t)"
  "vt_bounded (vt_touch h t) \<longleftrightarrow> vt_bounded t"
  "vt_votes_ok (vt_touch h t) \<longleftrightarrow> vt_votes_ok t"
  unfolding vt_bounded_def vt_votes_ok_def touch_simps
  by (auto simp: vt_shape_def vt_touch_def)

lemma vt_add_vote_eq:
  "vt_add_vote vote t =
     (let h = vote_height vote; p = vote_validator_pubkey vote; t' = vt_touch h t
      in if total_entries (vt_by_block t) \<ge> vl_max_votes_global (vt_limits t) then (no_tally, t')
         else case latest_vote t h p of
                None \<Rightarrow> vt_record vote t'
              | Some prior \<Rightarrow>
                  if vote_round prior = vote_round vote then
                    (if vote_frontier_transition_id prior = vote_frontier_transition_id vote
                     then (no_tally\<lparr>vr_duplicate := True\<rparr>, t')
                     else (no_tally\<lparr>vr_equivocation := True, vr_evidence := Some \<lparr>ev_a = prior, ev_b = vote\<rparr>\<rparr>, t'))
                  else if vote_round vote < vote_round prior then (no_tally\<lparr>vr_duplicate := True\<rparr>, t')
                  else vt_record vote t')"
  by (simp add: vt_add_vote_def vt_touch_def latest_vote_def Let_def)

lemma vt_put_votes_ok:
  assumes ok: "vt_votes_ok t"
    and fresh: "\<And>v. latest_vote t (vote_height vote) (vote_validator_pubkey vote) = Some v \<Longrightarrow> vote_round v < vote_round vote"
  shows "vt_votes_ok (vt_put vote t)"
proof -
  let ?h = "vote_height vote" and ?p = "vote_validator_pubkey vote" and ?r = "vote_round vote"
  have new: False if "has_vote t ?h ?r ?p tid s" for tid s
    using vt_votes_okD(2) [OF ok that] fresh by (auto simp: not_le [symmetric])
  show ?thesis
    unfolding vt_votes_ok_def
  proof (intro conjI allI impI)
    fix h p v assume "latest_vote (vt_put vote t) h p = Some v"
    then have v: "(h = ?h \<and> p = ?p \<and> v = vote) \<or> (\<not> (h = ?h \<and> p = ?p) \<and> latest_vote t h p = Some v)"
      by (auto simp: latest_vote_put split: if_splits)
    then show "vote_height v = h" "vote_validator_pubkey v = p"
      "has_vote (vt_put vote t) h (vote_round v) p (vote_frontier_transition_id v) (vote_signature v)"
      using vt_votes_okD(1) [OF ok, of h p v] by (auto simp: has_vote_put key_of_def)
  next
    fix h r p tid s assume "has_vote (vt_put vote t) h r p tid s"
    then consider "(h, r, tid) = key_of vote" "p = ?p" | "has_vote t h r p tid s"
      by (auto simp: has_vote_put split: if_splits)
    then show "\<exists>v. latest_vote (vt_put vote t) h p = Some v \<and> r \<le> vote_round v"
    proof cases
      case 2
      then obtain v where "latest_vote t h p = Some v" "r \<le> vote_round v" using vt_votes_okD(2) [OF ok] by blast
      then show ?thesis using fresh [of v] by (auto simp: latest_vote_put)
    qed (simp add: latest_vote_put key_of_def)
  next
    fix h r p tid s tid' s'
    assume *: "has_vote (vt_put vote t) h r p tid s \<and> has_vote (vt_put vote t) h r p tid' s'"
    show "tid = tid'"
    proof (cases "h = ?h \<and> r = ?r \<and> p = ?p")
      case True
      then have "x = vote_frontier_transition_id vote" if "has_vote (vt_put vote t) h r p x y" for x y
        using that new [of x y] by (auto simp: has_vote_put key_of_def split: if_splits)
      then show ?thesis using * by metis
    next
      case False
      then have "has_vote t h r p tid s" "has_vote t h r p tid' s'" using * by (auto simp: has_vote_put key_of_def)
      then show ?thesis by (rule vt_votes_okD(3) [OF ok])
    qed
  qed
qed

lemma vt_put_shape: "vt_shape t \<Longrightarrow> vt_shape (vt_put vote t)"
  by (simp add: vt_shape_def vt_put_def)

lemma vt_put_bounded:
  assumes "vt_bounded t" and "vt_shape t"
    and "total_entries (vt_by_block t) < vl_max_votes_global (vt_limits t)"
    and "\<not> (map_of (vt_by_block t) (key_of vote) = None
         \<and> block_keys_for_hr t (vote_height vote) (vote_round vote) \<ge> vl_max_blocks_per_height_round (vt_limits t))"
  shows "vt_bounded (vt_put vote t)"
proof -
  have nested: "nested_ok (vt_by_block t)" and om: "omap_ok (vt_by_block t)"
    using assms(2) by (auto simp: vt_shape_def nested_ok_def)
  have "block_keys_for_hr (vt_put vote t) h r \<le> vl_max_blocks_per_height_round (vt_limits t)" for h r
  proof -
    have "block_keys_for_hr t h r \<le> vl_max_blocks_per_height_round (vt_limits t)"
      using assms(1) by (simp add: vt_bounded_def)
    then show ?thesis
      using assms(4) filter_upd_length [OF om, of "\<lambda>k. fst k = h \<and> fst (snd k) = r" "key_of vote"]
      by (auto simp: block_keys_for_hr_def vt_put_def key_of_def)
  qed
  moreover have "total_entries (vt_by_block (vt_put vote t)) \<le> vl_max_votes_global (vt_limits t)"
    using total_entries_insert [OF nested, of "key_of vote" "vote_validator_pubkey vote" "vote_signature vote"] assms(3)
    by (simp add: vt_put_def)
  moreover have "vt_limits (vt_put vote t) = vt_limits t" by (simp add: vt_put_def)
  ultimately show ?thesis by (simp add: vt_bounded_def)
qed

definition vt_ok :: "VoteTracker \<Rightarrow> bool" where
  "vt_ok t \<longleftrightarrow> vt_shape t \<and> vt_bounded t \<and> vt_votes_ok t"

text \<open>One call either stores the vote or, up to an empty entry, leaves the tracker as it was.\<close>

lemma vt_add_vote_cases:
  obtains (stored) "snd (vt_add_vote vote t) = vt_put vote (vt_touch (vote_height vote) t)"
      and "vr_accepted (fst (vt_add_vote vote t))" and "\<not> vr_duplicate (fst (vt_add_vote vote t))"
      and "vr_evidence (fst (vt_add_vote vote t)) = None"
      and "vr_votes_for_block (fst (vt_add_vote vote t))
             = length (entry (vt_by_block (snd (vt_add_vote vote t))) (key_of vote))"
      and "\<And>v. latest_vote t (vote_height vote) (vote_validator_pubkey vote) = Some v \<Longrightarrow> vote_round v < vote_round vote"
      and "total_entries (vt_by_block t) < vl_max_votes_global (vt_limits t)"
      and "\<not> (map_of (vt_by_block t) (key_of vote) = None
            \<and> block_keys_for_hr t (vote_height vote) (vote_round vote) \<ge> vl_max_blocks_per_height_round (vt_limits t))"
  | (rejected) "snd (vt_add_vote vote t) = vt_touch (vote_height vote) t" and "\<not> vr_accepted (fst (vt_add_vote vote t))"
proof (cases "vr_accepted (fst (vt_add_vote vote t))")
  case True
  then show ?thesis
    by (intro stored)
       (auto simp: vt_add_vote_eq vt_record_def no_tally_def Let_def not_le split: option.splits if_splits)
next
  case False
  then show ?thesis
    by (intro rejected)
       (auto simp: vt_add_vote_eq vt_record_def no_tally_def Let_def split: option.splits if_splits)
qed

lemma vt_ok_add:
  assumes "vt_ok t"
  shows "vt_ok (snd (vt_add_vote vote t))"
proof (cases rule: vt_add_vote_cases [of vote t])
  case stored
  have "vt_votes_ok (vt_put vote (vt_touch (vote_height vote) t))"
    by (rule vt_put_votes_ok) (use assms stored in \<open>auto simp: vt_ok_def\<close>)
  with assms stored show ?thesis by (simp add: vt_ok_def vt_put_shape vt_put_bounded)
qed (use assms in \<open>simp add: vt_ok_def\<close>)

lemma clear_lookups:
  "has_vote (vt_clear_height c t) h r p tid s \<longleftrightarrow> h \<noteq> c \<and> has_vote t h r p tid s"
  "latest_vote (vt_clear_height c t) h p = (if h = c then None else latest_vote t h p)"
  using entry_filter [of "\<lambda>k. fst k \<noteq> c" "vt_by_block t"] entry_filter [of "\<lambda>k. k \<noteq> c" "vt_last_vote t"]
  by (auto simp: has_vote_def latest_vote_def vt_clear_height_def)

lemma vt_ok_clear:
  assumes "vt_ok t"
  shows "vt_ok (vt_clear_height c t)"
proof -
  have "vt_shape (vt_clear_height c t)"
    using assms nested_ok_filter [of "vt_by_block t" "\<lambda>k. fst k \<noteq> c"] nested_ok_filter [of "vt_last_vote t" "\<lambda>k. k \<noteq> c"]
    by (simp add: vt_ok_def vt_shape_def vt_clear_height_def)
  moreover have "vt_bounded (vt_clear_height c t)"
  proof -
    have "total_entries (vt_by_block (vt_clear_height c t)) \<le> total_entries (vt_by_block t)"
      by (simp add: vt_clear_height_def total_entries_filter)
    moreover have "block_keys_for_hr (vt_clear_height c t) h r \<le> block_keys_for_hr t h r" for h r
      by (simp add: vt_clear_height_def block_keys_for_hr_def filter_filter_length del: filter_filter)
    moreover have "vt_limits (vt_clear_height c t) = vt_limits t" by (simp add: vt_clear_height_def)
    ultimately show ?thesis using assms unfolding vt_ok_def vt_bounded_def by (metis le_trans)
  qed
  moreover have "vt_votes_ok (vt_clear_height c t)"
  proof -
    have ok: "vt_votes_ok t" using assms by (simp add: vt_ok_def)
    show ?thesis
      unfolding vt_votes_ok_def
    proof (intro conjI allI impI)
      fix h p v assume "latest_vote (vt_clear_height c t) h p = Some v"
      then have "h \<noteq> c" "latest_vote t h p = Some v" by (simp_all add: clear_lookups split: if_splits)
      with vt_votes_okD(1) [OF ok this(2)] show "vote_height v = h" "vote_validator_pubkey v = p"
        "has_vote (vt_clear_height c t) h (vote_round v) p (vote_frontier_transition_id v) (vote_signature v)"
        by (simp_all add: clear_lookups)
    next
      fix h r p tid s assume "has_vote (vt_clear_height c t) h r p tid s"
      then show "\<exists>v. latest_vote (vt_clear_height c t) h p = Some v \<and> r \<le> vote_round v"
        using vt_votes_okD(2) [OF ok, of h r p tid s] by (simp add: clear_lookups)
    next
      fix h r p tid s tid' s'
      assume "has_vote (vt_clear_height c t) h r p tid s \<and> has_vote (vt_clear_height c t) h r p tid' s'"
      then show "tid = tid'" using vt_votes_okD(3) [OF ok, of h r p tid s tid' s'] by (simp add: clear_lookups)
    qed
  qed
  ultimately show ?thesis by (simp add: vt_ok_def)
qed

inductive vt_reach :: "VoteLimits \<Rightarrow> VoteTracker \<Rightarrow> bool" for limits where
  vt_init: "vt_reach limits (vt_new limits)"
| vt_add: "vt_reach limits t \<Longrightarrow> vt_reach limits (snd (vt_add_vote vote t))"
| vt_clear: "vt_reach limits t \<Longrightarrow> vt_reach limits (vt_clear_height c t)"

lemma vt_new_ok: "vt_ok (vt_new limits)"
  by (auto simp: vt_ok_def vt_new_def vt_shape_def vt_bounded_def vt_votes_ok_def has_vote_def latest_vote_def
      total_entries_def block_keys_for_hr_def)

lemma vt_reach_ok: "vt_reach limits t \<Longrightarrow> vt_ok t"
  by (induction rule: vt_reach.induct) (auto intro: vt_new_ok vt_ok_add vt_ok_clear)

lemma vt_add_limits [simp]: "vt_limits (snd (vt_add_vote vote t)) = vt_limits t"
  by (cases rule: vt_add_vote_cases [of vote t]) (simp_all add: vt_put_def)

lemma vt_reach_limits: "vt_reach limits t \<Longrightarrow> vt_limits t = limits"
  by (induction rule: vt_reach.induct) (auto simp: vt_new_def vt_clear_height_def)

lemma length_omap: "omap_ok m \<Longrightarrow> length m = card {k. \<exists>v. map_of m k = Some v}"
proof -
  assume "omap_ok m"
  then have "length m = card (fst ` set m)" by (metis distinct_card length_map omap_ok_distinct list.set_map)
  also have "fst ` set m = {k. \<exists>v. map_of m k = Some v}" 
    unfolding dom_map_of_conv_image_fst [symmetric] dom_def by (simp add: not_None_eq)
  finally show ?thesis .
qed

lemma entry_votes: "vt_shape t \<Longrightarrow> length (entry (vt_by_block t) (h, r, tid)) = card {p. \<exists>s. has_vote t h r p tid s}"
  by (simp add: vt_shape_def has_vote_def length_omap)

lemma signatures_length: "vt_shape t \<Longrightarrow> length (vt_signatures_for t h r tid) = card {p. \<exists>s. has_vote t h r p tid s}"
  using entry_votes [of t h r tid] by (simp add: vt_signatures_for_def entry_def sig_list_def split: option.splits)

lemma vt_equivocation_iff:
  "vr_equivocation (fst (vt_add_vote vote t)) \<longleftrightarrow>
     total_entries (vt_by_block t) < vl_max_votes_global (vt_limits t)
     \<and> (\<exists>a. latest_vote t (vote_height vote) (vote_validator_pubkey vote) = Some a \<and> vote_round a = vote_round vote
          \<and> vote_frontier_transition_id a \<noteq> vote_frontier_transition_id vote)"
  by (auto simp: vt_add_vote_eq vt_record_def no_tally_def Let_def not_le split: option.splits)

lemma vt_evidence_iff:
  "vr_evidence (fst (vt_add_vote vote t)) = Some ev \<longleftrightarrow>
     total_entries (vt_by_block t) < vl_max_votes_global (vt_limits t) \<and> ev_b ev = vote
     \<and> latest_vote t (vote_height vote) (vote_validator_pubkey vote) = Some (ev_a ev)
     \<and> vote_round (ev_a ev) = vote_round vote
     \<and> vote_frontier_transition_id (ev_a ev) \<noteq> vote_frontier_transition_id vote"
  by (cases ev) (auto simp: vt_add_vote_eq vt_record_def no_tally_def Let_def not_le split: option.splits)

subsection \<open>What a timeout tracker remembers\<close>

definition has_timeout :: "TimeoutVoteTracker \<Rightarrow> u64 \<Rightarrow> u32 \<Rightarrow> pubkey32 \<Rightarrow> sig64 \<Rightarrow> bool" where
  "has_timeout t h r p s \<longleftrightarrow> map_of (entry (tt_by_round t) (h, r)) p = Some s"

definition latest_timeout :: "TimeoutVoteTracker \<Rightarrow> u64 \<Rightarrow> pubkey32 \<Rightarrow> TimeoutVote option" where
  "latest_timeout t h p = map_of (entry (tt_last_vote t) h) p"

definition rounds_for_height :: "TimeoutVoteTracker \<Rightarrow> u64 \<Rightarrow> nat" where
  "rounds_for_height t h = length (filter (\<lambda>e. fst (fst e) = h) (tt_by_round t))"

definition tt_ok :: "TimeoutVoteTracker \<Rightarrow> bool" where
  "tt_ok t \<longleftrightarrow> nested_ok (tt_by_round t) \<and> nested_ok (tt_last_vote t)
     \<and> total_entries (tt_by_round t) \<le> tl_max_votes_global (tt_limits t)
     \<and> (\<forall>h. rounds_for_height t h \<le> tl_max_rounds_per_height (tt_limits t))"

text \<open>From \<^verbatim>\<open>lower_bound({h, 0})\<close> while the height is \<open>h\<close>: the part of a sorted map at that height.\<close>

lemma height_range:
  fixes m :: "(u64 \<times> u32, 'v) omap"
  shows "omap_ok m \<Longrightarrow> takeWhile (\<lambda>(k, v). fst k = h) (dropWhile (\<lambda>(k, v). k < (h, 0)) m) = filter (\<lambda>e. fst (fst e) = h) m"
proof (induction m)
  case (Cons e m)
  have sorted: "\<And>k. k \<in> fst ` set m \<Longrightarrow> fst e < k" and ok: "omap_ok m"
    using Cons.prems by (cases e, auto simp: omap_ok_Cons)+
  consider "fst (fst e) < h" | "fst (fst e) = h" | "h < fst (fst e)" by fastforce
  then show ?case
  proof cases
    case 1
    then show ?thesis using Cons.IH [OF ok] by (cases e) (auto simp: less_prod_def')
  next
    case 2
    have "dropWhile (\<lambda>(k, s). k < (h, 0)) m = m"
      using sorted 2 by (cases m) (force simp: less_prod_def')+
    then show ?thesis using Cons.IH [OF ok] 2 by (cases e) (auto simp: less_prod_def')
  next
    case 3
    have "fst (fst x) \<noteq> h" if "x \<in> set m" for x
      using sorted [OF imageI [OF that]] 3 by (cases e, cases x) (auto simp: less_prod_def')
    then show ?thesis using 3 by (cases e) (auto simp: less_prod_def' filter_empty_conv)
  qed
qed simp

lemma height_buckets_filter: "omap_ok m \<Longrightarrow> height_buckets m h = filter (\<lambda>e. fst (fst e) = h) m"
  unfolding height_buckets_def by (rule height_range)

lemma tt_put_simps [simp]:
  "tt_limits (tt_put vote t) = tt_limits t"
  "nested_ok (tt_by_round t) \<Longrightarrow> nested_ok (tt_by_round (tt_put vote t))"
  "nested_ok (tt_last_vote t) \<Longrightarrow> nested_ok (tt_last_vote (tt_put vote t))"
  by (simp_all add: tt_put_def Let_def)

lemma rounds_put:
  assumes "nested_ok (tt_by_round t)"
  shows "rounds_for_height (tt_put vote t) h = (if map_of (tt_by_round t) (tv_height vote, tv_round vote) = None
     \<and> tv_height vote = h then Suc (rounds_for_height t h) else rounds_for_height t h)"
  using filter_upd_length [of "tt_by_round t" "\<lambda>k. fst k = h" "(tv_height vote, tv_round vote)"] assms
  unfolding rounds_for_height_def tt_put_def Let_def nested_ok_def by simp

lemma rounds_del:
  assumes "(k, e) \<in> set (tt_by_round t)"
  shows "rounds_for_height (t\<lparr>tt_by_round := omap_del k (tt_by_round t)\<rparr>) (fst k) < rounds_for_height t (fst k)"
    and "rounds_for_height (t\<lparr>tt_by_round := omap_del k (tt_by_round t)\<rparr>) h \<le> rounds_for_height t h"
proof -
  have "length (filter (\<lambda>e. fst (fst e) = fst k) (filter (\<lambda>e. fst e \<noteq> k) m)) < length (filter (\<lambda>e. fst (fst e) = fst k) m)"
    if "(k, e) \<in> set m" for m
    using that
  proof (induction m)
    case (Cons x m)
    then show ?case
      using filter_filter_length [of "\<lambda>e. fst (fst e) = fst k" "\<lambda>e. fst e \<noteq> k" m]
      by (cases "x = (k, e)") (auto simp del: filter_filter simp: less_Suc_eq_le)
  qed simp
  then show "rounds_for_height (t\<lparr>tt_by_round := omap_del k (tt_by_round t)\<rparr>) (fst k) < rounds_for_height t (fst k)"
    using assms by (simp add: rounds_for_height_def omap_del_def del: filter_filter)
  show "rounds_for_height (t\<lparr>tt_by_round := omap_del k (tt_by_round t)\<rparr>) h \<le> rounds_for_height t h"
    by (simp add: rounds_for_height_def omap_del_def filter_filter_length del: filter_filter)
qed

lemma total_put:
  "nested_ok (tt_by_round t) \<Longrightarrow> total_entries (tt_by_round (tt_put vote t)) \<le> Suc (total_entries (tt_by_round t))"
  by (simp add: tt_put_def Let_def total_entries_insert)

lemma tt_ok_put:
  assumes "nested_ok (tt_by_round t)" "nested_ok (tt_last_vote t)"
    and "total_entries (tt_by_round t) < tl_max_votes_global (tt_limits t)"
    and "\<And>h. rounds_for_height t h \<le> tl_max_rounds_per_height (tt_limits t)"
    and "map_of (tt_by_round t) (tv_height vote, tv_round vote) \<noteq> None
      \<or> rounds_for_height t (tv_height vote) < tl_max_rounds_per_height (tt_limits t)"
  shows "tt_ok (tt_put vote t)"
  using assms total_put [OF assms(1), of vote] by (auto simp: tt_ok_def rounds_put)

text \<open>How \<^verbatim>\<open>add_vote\<close> treats a vote that needs a bucket.\<close>

lemma tt_bucket_cases [consumes 1, case_names present room evict refused]:
  assumes "nested_ok (tt_by_round t)"
  obtains (present) "map_of (tt_by_round t) (tv_height vote, tv_round vote) \<noteq> None" "tt_bucket vote t = tt_store vote None t"
  | (room) "map_of (tt_by_round t) (tv_height vote, tv_round vote) = None"
      "rounds_for_height t (tv_height vote) < tl_max_rounds_per_height (tt_limits t)"
      "tt_bucket vote t = tt_store vote None t"
  | (evict) oldest e where "((tv_height vote, oldest), e) \<in> set (tt_by_round t)"
      "\<And>r e. ((tv_height vote, r), e) \<in> set (tt_by_round t) \<Longrightarrow> oldest \<le> r" "oldest < tv_round vote"
      "rounds_for_height t (tv_height vote) \<ge> tl_max_rounds_per_height (tt_limits t)"
      "map_of (tt_by_round t) (tv_height vote, tv_round vote) = None"
      "tt_bucket vote t = tt_store vote (Some oldest)
         (t\<lparr>tt_by_round := omap_del (tv_height vote, oldest) (tt_by_round t)\<rparr>)"
  | (refused) "snd (tt_bucket vote t) = t" "\<not> tr_accepted (fst (tt_bucket vote t))"
      "tr_evicted_round (fst (tt_bucket vote t)) = None"
      "rounds_for_height t (tv_height vote) \<ge> tl_max_rounds_per_height (tt_limits t)"
      "map_of (tt_by_round t) (tv_height vote, tv_round vote) = None"
      "tl_max_rounds_per_height (tt_limits t) = 0
       \<or> (\<forall>r e. ((tv_height vote, r), e) \<in> set (tt_by_round t) \<longrightarrow> tv_round vote < r)"
proof -
  let ?h = "tv_height vote"
  have om: "omap_ok (tt_by_round t)" using assms by (simp add: nested_ok_def)
  note hb = height_buckets_filter [OF om, of ?h]
  consider "map_of (tt_by_round t) (?h, tv_round vote) \<noteq> None"
    | "map_of (tt_by_round t) (?h, tv_round vote) = None" "tl_max_rounds_per_height (tt_limits t) = 0"
    | "map_of (tt_by_round t) (?h, tv_round vote) = None" "0 < tl_max_rounds_per_height (tt_limits t)"
    by blast
  then show ?thesis
  proof cases
    case 1 then show ?thesis by (intro present) (auto simp: tt_bucket_def)
  next
    case 2 then show ?thesis by (intro refused) (auto simp: tt_bucket_def no_timeout_tally_def)
  next
    case 3
    show ?thesis
    proof (cases "height_buckets (tt_by_round t) ?h")
      case Nil
      then show ?thesis using 3 hb by (intro room) (auto simp: tt_bucket_def rounds_for_height_def)
    next
      case (Cons b rest)
      obtain k e where b: "b = (k, e)" by (cases b)
      have flt: "filter (\<lambda>e. fst (fst e) = ?h) (tt_by_round t) = b # rest" using hb Cons by metis
      have len: "rounds_for_height t ?h = Suc (length rest)" by (simp add: rounds_for_height_def flt)
      have "(k, e) \<in> set (filter (\<lambda>e. fst (fst e) = ?h) (tt_by_round t))" unfolding flt b by simp
      then have k: "k = (?h, snd k)" "(k, e) \<in> set (tt_by_round t)" by (cases k, auto)
      have "omap_ok (b # rest)" using omap_ok_filter [OF om] flt by metis
      then have lo: "k < x" if "x \<in> fst ` set rest" for x using that b by (auto simp: omap_ok_Cons)
      have least: "snd k \<le> r" if "((?h, r), e') \<in> set (tt_by_round t)" for r e'
      proof -
        have "((?h, r), e') \<in> set (b # rest)" unfolding flt [symmetric] using that by simp
        then show ?thesis using b k(1) lo [of "(?h, r)"] by (cases k) (force simp: less_prod_def')
      qed
      have ne: "snd k \<noteq> tv_round vote" using 3(1) k om by (metis omap_in_set option.distinct(1))
      show ?thesis
      proof (cases "Suc (length rest) \<ge> tl_max_rounds_per_height (tt_limits t)")
        case False
        then show ?thesis using 3 Cons b len by (intro room) (auto simp: tt_bucket_def)
      next
        case full: True
        show ?thesis
        proof (cases "tv_round vote < snd k")
          case True
          with full 3 Cons b least len show ?thesis
            by (intro refused) (auto simp: tt_bucket_def no_timeout_tally_def intro: less_le_trans)
        next
          case False
          then have "snd k < tv_round vote" using ne by simp
          with full 3 Cons b least len k show ?thesis
            by (intro evict [of "snd k" e]) (auto simp: tt_bucket_def)
        qed
      qed
    qed
  qed
qed

lemma tt_ok_bucket:
  assumes "tt_ok t" and "total_entries (tt_by_round t) < tl_max_votes_global (tt_limits t)"
  shows "tt_ok (snd (tt_bucket vote t))"
proof -
  have nested: "nested_ok (tt_by_round t)" "nested_ok (tt_last_vote t)"
    and rounds: "rounds_for_height t h \<le> tl_max_rounds_per_height (tt_limits t)" for h
    using assms(1) by (simp_all add: tt_ok_def)
  show ?thesis
    using nested(1)
  proof (cases rule: tt_bucket_cases [where vote = vote])
    case present
    then show ?thesis using assms nested rounds by (simp add: tt_store_def tt_ok_put)
  next
    case room
    then show ?thesis using assms nested rounds by (simp add: tt_store_def tt_ok_put)
  next
    case (evict oldest e)
    let ?t = "t\<lparr>tt_by_round := omap_del (tv_height vote, oldest) (tt_by_round t)\<rparr>"
    have "rounds_for_height ?t (tv_height vote) < tl_max_rounds_per_height (tt_limits t)"
      using rounds_del(1) [OF evict(1)] rounds [of "tv_height vote"] by simp
    moreover have "rounds_for_height ?t h \<le> tl_max_rounds_per_height (tt_limits t)" for h
      using rounds_del(2) [OF evict(1), of h] rounds [of h] by linarith
    moreover have "total_entries (tt_by_round ?t) < tl_max_votes_global (tt_limits t)"
      using total_entries_filter [of "\<lambda>e. fst e \<noteq> (tv_height vote, oldest)" "tt_by_round t"] assms(2)
      by (simp add: omap_del_def)
    ultimately have "tt_ok (tt_put vote ?t)"
      using nested by (intro tt_ok_put) simp_all
    with evict show ?thesis by (simp add: tt_store_def)
  next
    case refused
    then show ?thesis using assms by simp
  qed
qed

definition tt_touch :: "u64 \<Rightarrow> TimeoutVoteTracker \<Rightarrow> TimeoutVoteTracker" where
  "tt_touch h t = t\<lparr>tt_last_vote := omap_upd h (entry (tt_last_vote t) h) (tt_last_vote t)\<rparr>"

lemma tt_touch_simps [simp]:
  "has_timeout (tt_touch h t) = has_timeout t" "latest_timeout (tt_touch h t) = latest_timeout t"
  "tt_limits (tt_touch h t) = tt_limits t" "tt_by_round (tt_touch h t) = tt_by_round t"
  "rounds_for_height (tt_touch h t) = rounds_for_height t"
  "nested_ok (tt_last_vote t) \<Longrightarrow> nested_ok (tt_last_vote (tt_touch h t))"
  by (auto simp: has_timeout_def latest_timeout_def tt_touch_def rounds_for_height_def fun_eq_iff)

lemma tt_touch_ok [simp]: "tt_ok t \<Longrightarrow> tt_ok (tt_touch h t)"
  by (simp add: tt_ok_def)

lemma tt_add_vote_eq:
  "tt_add_vote vote t =
     (let h = tv_height vote; p = tv_validator_pubkey vote; t' = tt_touch h t
      in if total_entries (tt_by_round t) \<ge> tl_max_votes_global (tt_limits t) then (no_timeout_tally, t')
         else if (case latest_timeout t h p of None \<Rightarrow> False | Some prior \<Rightarrow> tv_round vote \<le> tv_round prior)
         then (no_timeout_tally\<lparr>tr_duplicate := True\<rparr>, t')
         else tt_bucket vote t')"
  by (auto simp: tt_add_vote_def tt_touch_def latest_timeout_def Let_def le_less split: option.splits)

lemma tt_ok_add: "tt_ok t \<Longrightarrow> tt_ok (snd (tt_add_vote vote t))"
  using tt_ok_bucket [of "tt_touch (tv_height vote) t" vote] by (auto simp: tt_add_vote_eq Let_def not_le)

lemma tt_ok_note: "tt_ok t \<Longrightarrow> tt_ok (note_latest_round vote t)"
  by (auto simp: tt_ok_def note_latest_round_def Let_def rounds_for_height_def split: option.splits)

lemma tt_ok_clear:
  assumes "tt_ok t"
  shows "tt_ok (tt_clear_height c t)"
proof -
  have "total_entries (tt_by_round (tt_clear_height c t)) \<le> total_entries (tt_by_round t)"
    by (simp add: tt_clear_height_def total_entries_filter)
  moreover have "rounds_for_height (tt_clear_height c t) h \<le> rounds_for_height t h" for h
    by (simp add: tt_clear_height_def rounds_for_height_def filter_filter_length del: filter_filter)
  moreover have "nested_ok (tt_by_round (tt_clear_height c t))" "nested_ok (tt_last_vote (tt_clear_height c t))"
    using assms nested_ok_filter [of "tt_by_round t" "\<lambda>k. fst k \<noteq> c"] nested_ok_filter [of "tt_last_vote t" "\<lambda>k. k \<noteq> c"]
    by (simp_all add: tt_ok_def tt_clear_height_def)
  moreover have "tt_limits (tt_clear_height c t) = tt_limits t" by (simp add: tt_clear_height_def)
  ultimately show ?thesis using assms unfolding tt_ok_def by (metis le_trans)
qed

inductive tt_reach :: "TimeoutLimits \<Rightarrow> TimeoutVoteTracker \<Rightarrow> bool" for limits where
  tt_init: "tt_reach limits (tt_new limits)"
| tt_add: "tt_reach limits t \<Longrightarrow> tt_reach limits (snd (tt_add_vote vote t))"
| tt_note: "tt_reach limits t \<Longrightarrow> tt_reach limits (note_latest_round vote t)"
| tt_clear: "tt_reach limits t \<Longrightarrow> tt_reach limits (tt_clear_height c t)"

lemma tt_reach_ok: "tt_reach limits t \<Longrightarrow> tt_ok t"
proof (induction rule: tt_reach.induct)
  case tt_init
  show ?case by (simp add: tt_ok_def tt_new_def total_entries_def rounds_for_height_def)
qed (auto intro: tt_ok_add tt_ok_note tt_ok_clear)

lemma tt_add_limits [simp]: "tt_limits (snd (tt_add_vote vote t)) = tt_limits t"
proof -
  have "tt_limits (snd (tt_store vote ev t)) = tt_limits t" for ev t by (simp add: tt_store_def)
  then have "tt_limits (snd (tt_bucket vote t)) = tt_limits t" for t
    by (simp add: tt_bucket_def split: list.split)
  then show ?thesis by (simp add: tt_add_vote_eq Let_def)
qed

lemma tt_reach_limits: "tt_reach limits t \<Longrightarrow> tt_limits t = limits"
  by (induction rule: tt_reach.induct) (auto simp: tt_new_def tt_clear_height_def note_latest_round_def Let_def)

subsection \<open>The count-th largest round\<close>

lemma rev_sort_ge:
  fixes xs :: "'a::linorder list"
  assumes "i < length xs" and "j \<le> i"
  shows "rev (sort xs) ! i \<le> rev (sort xs) ! j"
  using assms sorted_nth_mono [OF sorted_sort, of "length xs - Suc i" "length xs - Suc j" xs] by (simp add: rev_nth)

lemma nth_largest:
  fixes xs :: "'a::linorder list"
  assumes "0 < c" and "c \<le> length xs" and R: "R = rev (sort xs) ! (c - 1)"
  shows "c \<le> length (filter (\<lambda>x. R \<le> x) xs)"
    and "R < R' \<Longrightarrow> length (filter (\<lambda>x. R' \<le> x) xs) < c"
proof -
  let ?ys = "rev (sort xs)"
  have cnt: "length (filter P xs) = card {i. i < length xs \<and> P (?ys ! i)}" for P
  proof -
    have "length (filter P xs) = length (filter P ?ys)" by (metis mset_filter mset_rev mset_sort size_mset)
    then show ?thesis by (simp add: length_filter_conv_card)
  qed
  have "card {..<c} \<le> card {i. i < length xs \<and> R \<le> ?ys ! i}"
    using assms rev_sort_ge [of "c - 1" xs] by (intro card_mono) auto
  then show "c \<le> length (filter (\<lambda>x. R \<le> x) xs)" by (simp add: cnt)
  assume "R < R'"
  have "{i. i < length xs \<and> R' \<le> ?ys ! i} \<subseteq> {..<c - 1}"
  proof
    fix i assume "i \<in> {i. i < length xs \<and> R' \<le> ?ys ! i}"
    then have i: "i < length xs" "R' \<le> ?ys ! i" by simp_all
    show "i \<in> {..<c - 1}"
    proof (rule ccontr)
      assume "i \<notin> {..<c - 1}"
      then have "?ys ! i \<le> R" using rev_sort_ge [OF i(1), of "c - 1"] R by simp
      with i(2) \<open>R < R'\<close> show False by simp
    qed
  qed
  from card_mono [OF _ this] have "card {i. i < length xs \<and> R' \<le> ?ys ! i} \<le> c - 1" by simp
  then show "length (filter (\<lambda>x. R' \<le> x) xs) < c" using assms(1) by (simp add: cnt)
qed

text \<open>The validators whose latest timeout at a height is for round \<open>r\<close> or later.\<close>

definition timed_out :: "TimeoutVoteTracker \<Rightarrow> u64 \<Rightarrow> u32 \<Rightarrow> pubkey32 set" where
  "timed_out t h r = {p. \<exists>v. latest_timeout t h p = Some v \<and> r \<le> tv_round v}"

lemma card_timed_out:
  assumes "nested_ok (tt_last_vote t)"
  shows "card (timed_out t h r) = length (filter (\<lambda>x. r \<le> x) (map (\<lambda>(p, v). tv_round v) (entry (tt_last_vote t) h)))"
proof -
  let ?m = "entry (tt_last_vote t) h"
  have om: "omap_ok ?m" using assms by simp
  let ?f = "filter (\<lambda>e. r \<le> tv_round (snd e)) ?m"
  have "{k. \<exists>v. map_of ?f k = Some v} = timed_out t h r"
    using om omap_ok_filter [OF om] by (auto simp: timed_out_def latest_timeout_def simp flip: omap_in_set)
  then have "card (timed_out t h r) = length ?f" using length_omap [OF omap_ok_filter [OF om]] by simp
  then show ?thesis by (simp add: filter_map o_def case_prod_unfold)
qed

lemma timed_out_antimono: "r \<le> r' \<Longrightarrow> timed_out t h r' \<subseteq> timed_out t h r"
  by (auto simp: timed_out_def intro: order_trans)

lemma round_reached_by_Some:
  assumes "nested_ok (tt_last_vote t)" and "round_reached_by t h c = Some R"
  shows "0 < c \<and> c \<le> card (timed_out t h R) \<and> (\<forall>R' > R. card (timed_out t h R') < c)"
proof -
  let ?xs = "map (\<lambda>(p, v). tv_round v) (entry (tt_last_vote t) h)"
  have "0 < c" "c \<le> length ?xs" "R = rev (sort ?xs) ! (c - 1)"
    using assms(2) by (auto simp: round_reached_by_def entry_def split: if_splits option.splits)
  from this(1) nth_largest [OF this] show ?thesis by (simp add: card_timed_out [OF assms(1)])
qed

lemma round_reached_by_None:
  assumes "nested_ok (tt_last_vote t)" and "round_reached_by t h c = None"
  shows "c = 0 \<or> card (timed_out t h R) < c"
proof -
  let ?xs = "map (\<lambda>(p, v). tv_round v) (entry (tt_last_vote t) h)"
  have "c = 0 \<or> length ?xs < c"
    using assms(2) by (auto simp: round_reached_by_def entry_def split: if_splits option.splits)
  moreover have "card (timed_out t h R) \<le> length ?xs"
    unfolding card_timed_out [OF assms(1)] by (rule length_filter_le)
  ultimately show ?thesis by linarith
qed

definition demo_limits :: VoteLimits where
  "demo_limits = \<lparr>vl_max_blocks_per_height_round = 2, vl_max_votes_global = 10\<rparr>"

definition demo_vote :: "u32 \<Rightarrow> hash32 \<Rightarrow> Vote" where
  "demo_vote r tid = \<lparr>vote_height = 5, vote_round = r, vote_frontier_transition_id = tid,
     vote_validator_pubkey = [1], vote_signature = [7]\<rparr>"

definition demo_tracker :: VoteTracker where
  "demo_tracker = snd (vt_add_vote (demo_vote 2 [8]) (vt_new demo_limits))"

lemma demo_tracker_reach: "vt_reach demo_limits demo_tracker"
  unfolding demo_tracker_def by (intro vt_reach.intros)

lemmas demo_vote_defs = demo_tracker_def demo_vote_def demo_limits_def vt_new_def vt_add_vote_def vt_record_def vt_put_def
  key_of_def entry_def no_tally_def total_entries_def block_keys_for_hr_def

definition demo_timeouts :: TimeoutVoteTracker where
  "demo_timeouts =
     snd (tt_add_vote \<lparr>tv_height = 5, tv_round = 4, tv_validator_pubkey = [2], tv_signature = [7]\<rparr>
       (snd (tt_add_vote \<lparr>tv_height = 5, tv_round = 3, tv_validator_pubkey = [1], tv_signature = [7]\<rparr>
         (tt_new \<lparr>tl_max_rounds_per_height = 1, tl_max_votes_global = 10\<rparr>))))"

lemma demo_timeouts_reach: "tt_reach \<lparr>tl_max_rounds_per_height = 1, tl_max_votes_global = 10\<rparr> demo_timeouts"
  unfolding demo_timeouts_def by (intro tt_reach.intros)

subsection \<open>The properties of the trackers\<close>

text \<open>
  C29. In every tracker that calls of \<^verbatim>\<open>add_vote\<close> and \<^verbatim>\<open>clear_height\<close> can build, a validator is counted for
  at most one transition per height and round, the signatures returned for a transition are one per
  validator, and both capacity limits hold.
\<close>

theorem one_vote_per_round:
  assumes "vt_reach limits t"
  shows "(\<forall>h r p tid s tid' s'. has_vote t h r p tid s \<and> has_vote t h r p tid' s' \<longrightarrow> tid = tid' \<and> s = s')
    \<and> length (vt_signatures_for t h r tid) = card {p. \<exists>s. has_vote t h r p tid s}
    \<and> total_entries (vt_by_block t) \<le> vl_max_votes_global limits
    \<and> block_keys_for_hr t h r \<le> vl_max_blocks_per_height_round limits"
proof -
  have ok: "vt_shape t" "vt_bounded t" "vt_votes_ok t" and lim: "vt_limits t = limits"
    using vt_reach_ok [OF assms] vt_reach_limits [OF assms] by (simp_all add: vt_ok_def)
  have "tid = tid' \<and> s = s'" if "has_vote t h r p tid s" "has_vote t h r p tid' s'" for h r p tid s tid' s'
    using vt_votes_okD(3) [OF ok(3) that] that by (simp add: has_vote_def)
  moreover have "total_entries (vt_by_block t) \<le> vl_max_votes_global limits"
    "block_keys_for_hr t h r \<le> vl_max_blocks_per_height_round limits"
    using ok(2) lim by (simp_all add: vt_bounded_def)
  ultimately show ?thesis using signatures_length [OF ok(1)] by blast
qed

theorem one_vote_per_round_witness:
  "has_vote demo_tracker 5 2 [1] [8] [7] \<and> total_entries (vt_by_block demo_tracker) \<le> 10"
  using one_vote_per_round [OF demo_tracker_reach, of 5 2 "[8]"] by (simp add: has_vote_def demo_vote_defs)



text \<open>
  C31. \<^verbatim>\<open>round_reached_by\<close> returns the highest round that at least \<open>c\<close> validators have timed out of, by
  their latest timeout votes, and nothing exactly when no round qualifies.
\<close>

theorem round_reached_by_exact:
  assumes "tt_reach limits t"
  shows "round_reached_by t h c = Some R \<longleftrightarrow>
    0 < c \<and> c \<le> card (timed_out t h R) \<and> (\<forall>R'. \<not> R' \<le> R \<longrightarrow> card (timed_out t h R') < c)"
proof -
  have n: "nested_ok (tt_last_vote t)" using tt_reach_ok [OF assms] by (simp add: tt_ok_def)
  show ?thesis
  proof
    assume "round_reached_by t h c = Some R"
    from round_reached_by_Some [OF n this]
    show "0 < c \<and> c \<le> card (timed_out t h R) \<and> (\<forall>R'. \<not> R' \<le> R \<longrightarrow> card (timed_out t h R') < c)"
      by (simp add: not_le)
  next
    assume R: "0 < c \<and> c \<le> card (timed_out t h R) \<and> (\<forall>R'. \<not> R' \<le> R \<longrightarrow> card (timed_out t h R') < c)"
    then obtain Q where Q: "round_reached_by t h c = Some Q"
      using round_reached_by_None [OF n, of h c R] by (cases "round_reached_by t h c") auto
    have q: "c \<le> card (timed_out t h Q)" "\<And>R'. Q < R' \<Longrightarrow> card (timed_out t h R') < c"
      using round_reached_by_Some [OF n Q] by auto
    have "Q = R"
    proof (rule linorder_cases [of Q R])
      assume "Q < R" with q(2) [of R] R show ?thesis by simp
    next
      assume "R < Q" with q(1) R show ?thesis by (auto simp: not_le)
    qed
    with Q show "round_reached_by t h c = Some R" by simp
  qed
qed

lemma demo_timeouts_eval: "round_reached_by demo_timeouts 5 2 = Some 3"
  by (simp add: demo_timeouts_def tt_new_def tt_add_vote_def tt_bucket_def height_buckets_def tt_store_def tt_put_def
      entry_def total_entries_def round_reached_by_def omap_del_def Let_def)

theorem round_reached_by_exact_witness:
  "2 \<le> card (timed_out demo_timeouts 5 3) \<and> card (timed_out demo_timeouts 5 4) < 2"
  using round_reached_by_exact [OF demo_timeouts_reach, of 5 2 3] demo_timeouts_eval by simp

text \<open>
  C32. The sliding window of timeout rounds: at most the configured number of rounds is retained per
  height and of votes overall. A vote is accepted exactly when the tracker is not full, the vote is newer
  than the validator's latest one and its round is retained already, fits, or is newer than some retained
  round. An eviction removes the oldest retained round of that height and the votes of no other round.
\<close>

theorem timeout_window:
  assumes reach: "tt_reach limits t" and res: "tt_add_vote vote t = (res, t')"
  shows "rounds_for_height t h \<le> tl_max_rounds_per_height limits
    \<and> total_entries (tt_by_round t) \<le> tl_max_votes_global limits
    \<and> (tr_accepted res \<longleftrightarrow> total_entries (tt_by_round t) < tl_max_votes_global limits
        \<and> \<not> (\<exists>v. latest_timeout t (tv_height vote) (tv_validator_pubkey vote) = Some v \<and> tv_round vote \<le> tv_round v)
        \<and> ((tv_height vote, tv_round vote) \<in> fst ` set (tt_by_round t)
           \<or> rounds_for_height t (tv_height vote) < tl_max_rounds_per_height limits
           \<or> (\<exists>r. (tv_height vote, r) \<in> fst ` set (tt_by_round t) \<and> r < tv_round vote)
              \<and> 0 < tl_max_rounds_per_height limits))
    \<and> (\<forall>r. tr_evicted_round res = Some r \<longrightarrow> r < tv_round vote
        \<and> (\<forall>r'. (tv_height vote, r') \<in> fst ` set (tt_by_round t) \<longrightarrow> r \<le> r'))
    \<and> (tr_accepted res \<longrightarrow> (\<forall>h r p s. has_timeout t' h r p s \<longleftrightarrow>
        (if (h, r, p) = (tv_height vote, tv_round vote, tv_validator_pubkey vote) then s = tv_signature vote
         else has_timeout t h r p s \<and> \<not> (h = tv_height vote \<and> tr_evicted_round res = Some r))))"
proof -
  have ok: "tt_ok t" and lim: "tt_limits t = limits" using tt_reach_ok [OF reach] tt_reach_limits [OF reach] .
  have n: "nested_ok (tt_by_round (tt_touch (tv_height vote) t))" using ok by (simp add: tt_ok_def)
  have key: "k \<in> fst ` set (tt_by_round t) \<longleftrightarrow> map_of (tt_by_round t) k \<noteq> None" for k
    by (simp add: map_of_eq_None_iff)
  have put: "has_timeout (tt_put vote u) h r p s \<longleftrightarrow>
      (if (h, r, p) = (tv_height vote, tv_round vote, tv_validator_pubkey vote) then s = tv_signature vote
       else has_timeout u h r p s)" for u h r p s
    by (auto simp: has_timeout_def tt_put_def Let_def)
  have del: "has_timeout (u\<lparr>tt_by_round := omap_del k (tt_by_round u)\<rparr>) h r p s
      \<longleftrightarrow> has_timeout u h r p s \<and> (h, r) \<noteq> k" for u k h r p s
    by (simp add: has_timeout_def)
  have bounds: "rounds_for_height t h \<le> tl_max_rounds_per_height limits"
    "total_entries (tt_by_round t) \<le> tl_max_votes_global limits" for h using ok lim by (simp_all add: tt_ok_def)
  consider (early) "total_entries (tt_by_round t) \<ge> tl_max_votes_global limits
      \<or> (\<exists>v. latest_timeout t (tv_height vote) (tv_validator_pubkey vote) = Some v \<and> tv_round vote \<le> tv_round v)"
    | (bucket) "total_entries (tt_by_round t) < tl_max_votes_global limits"
      "\<not> (\<exists>v. latest_timeout t (tv_height vote) (tv_validator_pubkey vote) = Some v \<and> tv_round vote \<le> tv_round v)"
      "tt_bucket vote (tt_touch (tv_height vote) t) = (res, t')"
    using res lim by (auto simp: tt_add_vote_eq Let_def not_le split: if_splits option.splits)
  then show ?thesis
  proof cases
    case early
    then have "\<not> tr_accepted res" "tr_evicted_round res = None"
      using res lim by (auto simp: tt_add_vote_eq Let_def no_timeout_tally_def split: if_splits)
    with early bounds show ?thesis by auto
  next
    case bucket
    from n show ?thesis
    proof (cases rule: tt_bucket_cases [where vote = vote])
      case present
      with bucket bounds show ?thesis by (auto simp: tt_store_def no_timeout_tally_def key put)
    next
      case room
      with bucket bounds lim show ?thesis by (auto simp: tt_store_def no_timeout_tally_def key put)
    next
      case (evict oldest e)
      have "0 < rounds_for_height t (tv_height vote)"
        using rounds_del(1) [OF evict(1)] by simp
      with evict bounds(1) [of "tv_height vote"] lim have "0 < tl_max_rounds_per_height limits" by simp
      moreover have "(tv_height vote, oldest) \<in> fst ` set (tt_by_round t)" using evict(1) by force
      ultimately show ?thesis
        using evict bucket bounds del [where u = "tt_touch (tv_height vote) t" and k = "(tv_height vote, oldest)"]
        by (auto simp: tt_store_def no_timeout_tally_def put)
    next
      case refused
      then have "\<not> tr_accepted res" "tr_evicted_round res = None" using bucket(3) by simp_all
      moreover have "\<not> (\<exists>r. (tv_height vote, r) \<in> fst ` set (tt_by_round t) \<and> r < tv_round vote)
          \<or> tl_max_rounds_per_height limits = 0"
        using refused(6) lim by fastforce
      ultimately show ?thesis using refused(4,5) bucket bounds lim by (simp add: key)
    qed
  qed
qed

theorem timeout_window_witness:
  "rounds_for_height demo_timeouts 5 \<le> 1
   \<and> tr_evicted_round (fst (tt_add_vote \<lparr>tv_height = 5, tv_round = 6, tv_validator_pubkey = [3], tv_signature = [7]\<rparr> demo_timeouts))
     = Some 4"
proof -
  let ?v = "\<lparr>tv_height = 5, tv_round = 6, tv_validator_pubkey = [3], tv_signature = [7]\<rparr> :: TimeoutVote"
  have "tr_evicted_round (fst (tt_add_vote ?v demo_timeouts)) = Some 4"
    by (simp add: demo_timeouts_def tt_new_def tt_add_vote_def tt_bucket_def height_buckets_def tt_store_def tt_put_def
        entry_def total_entries_def omap_del_def Let_def)
  then show ?thesis
    using timeout_window [OF demo_timeouts_reach, of ?v "fst (tt_add_vote ?v demo_timeouts)" "snd (tt_add_vote ?v demo_timeouts)" 5]
    by simp
qed

end
