(* ===== verification/Tickets.thy ===== *)
theory Tickets
  imports Codec Monetary
begin

text \<open>
  Epoch tickets (\<^verbatim>\<open>src/src/consensus/epoch_tickets.cpp\<close>): the work hash of a ticket, its difficulty and
  bonus, the bounded difficulty adjustment and the search for the best ticket of an operator.
  \<^verbatim>\<open>crypto::sha256d\<close> is the parameter \<open>sha256d\<close>.
\<close>

datatype EpochTicketOrigin = LOCAL | NETWORK

record EpochTicket =
  et_epoch :: u64
  et_participant_pubkey :: pubkey32
  et_challenge_anchor :: hash32
  et_nonce :: u64
  et_work_hash :: hash32
  et_source_height :: u64
  et_origin :: EpochTicketOrigin

definition EPOCH_TICKET_MAX_NONCE :: u64 where "EPOCH_TICKET_MAX_NONCE = 4095"
definition DEFAULT_TICKET_DIFFICULTY_BITS :: u8 where "DEFAULT_TICKET_DIFFICULTY_BITS = 8"
definition MIN_BOUNDED_TICKET_DIFFICULTY_BITS :: u8 where "MIN_BOUNDED_TICKET_DIFFICULTY_BITS = 8"
definition MAX_BOUNDED_TICKET_DIFFICULTY_BITS :: u8 where "MAX_BOUNDED_TICKET_DIFFICULTY_BITS = 12"

definition make_epoch_ticket_work_hash ::
  "(bytes \<Rightarrow> hash32) \<Rightarrow> u64 \<Rightarrow> hash32 \<Rightarrow> pubkey32 \<Rightarrow> u64 \<Rightarrow> hash32" where
  "make_epoch_ticket_work_hash sha256d epoch challenge_anchor operator_id nonce =
     sha256d (wr_bytes (ascii ''SC-EPOCH-TICKET-V2'') @ wr_u64le epoch @ wr_bytes_fixed challenge_anchor
              @ wr_bytes_fixed operator_id @ wr_u64le nonce)"

definition validate_epoch_ticket :: "(bytes \<Rightarrow> hash32) \<Rightarrow> EpochTicket \<Rightarrow> bool" where
  "validate_epoch_ticket sha256d ticket \<longleftrightarrow>
     et_work_hash ticket = make_epoch_ticket_work_hash sha256d (et_epoch ticket) (et_challenge_anchor ticket)
       (et_participant_pubkey ticket) (et_nonce ticket)"

text \<open>
  The loop over the bits of a byte, from bit \<open>k - 1\<close> down: \<open>Inl\<close> is a \<^verbatim>\<open>return\<close>, \<open>Inr\<close> the count after the
  loop. The count never reaches the end of its 16-bit type: it is returned at 255.
\<close>

fun zero_bits_of_byte :: "u8 \<Rightarrow> nat \<Rightarrow> nat \<Rightarrow> nat + nat" where
  "zero_bits_of_byte b 0 zeros = Inr zeros"
| "zero_bits_of_byte b (Suc k) zeros =
     (if \<not> bit b k then (if zeros + 1 \<ge> 255 then Inl 255 else zero_bits_of_byte b k (zeros + 1)) else Inl zeros)"

fun zero_bits_loop :: "bytes \<Rightarrow> nat \<Rightarrow> nat" where
  "zero_bits_loop [] zeros = min zeros 255"
| "zero_bits_loop (b # bs) zeros =
     (if b = 0 then (if zeros + 8 \<ge> 255 then 255 else zero_bits_loop bs (zeros + 8))
      else case zero_bits_of_byte b 8 zeros of Inl z \<Rightarrow> z | Inr z \<Rightarrow> zero_bits_loop bs z)"

definition leading_zero_bits :: "hash32 \<Rightarrow> u8" where
  "leading_zero_bits hash = word_of_nat (zero_bits_loop hash 0)"

definition epoch_ticket_meets_difficulty :: "EpochTicket \<Rightarrow> u8 \<Rightarrow> bool" where
  "epoch_ticket_meets_difficulty ticket difficulty_bits \<longleftrightarrow> leading_zero_bits (et_work_hash ticket) \<ge> difficulty_bits"

definition ticket_pow_bonus_bps :: "EpochTicket \<Rightarrow> u8 \<Rightarrow> u32 \<Rightarrow> u32" where
  "ticket_pow_bonus_bps ticket difficulty_bits cap_bps =
     (let zeros = leading_zero_bits (et_work_hash ticket)
      in if zeros < difficulty_bits then 0
         else let surplus = ucast zeros - ucast difficulty_bits :: u32;
                  smooth = ucast (integer_sqrt (ucast (surplus + 1))) :: u32
              in min cap_bps (500 + smooth * 400))"

definition ticket_pow_bonus_bps_default :: "EpochTicket \<Rightarrow> u8 \<Rightarrow> u32" where
  "ticket_pow_bonus_bps_default ticket difficulty_bits = ticket_pow_bonus_bps ticket difficulty_bits 2500"

definition quorum_relative_participation_bps :: "u64 \<Rightarrow> u64 \<Rightarrow> u32" where
  "quorum_relative_participation_bps signature_count quorum_size =
     (let denom = max 1 quorum_size;
          num = min signature_count denom
      in ucast ((num * 10000) div denom))"

definition ticket_difficulty_epoch_is_healthy :: "nat \<Rightarrow> nat \<Rightarrow> u32 \<Rightarrow> u32 \<Rightarrow> bool" where
  "ticket_difficulty_epoch_is_healthy active_validator_count committee_capacity average_round_x1000 average_participation_bps
     \<longleftrightarrow> active_validator_count > committee_capacity \<and> average_round_x1000 \<le> 1250 \<and> average_participation_bps \<ge> 9500"

definition ticket_difficulty_epoch_is_unhealthy :: "u32 \<Rightarrow> u32 \<Rightarrow> bool" where
  "ticket_difficulty_epoch_is_unhealthy average_round_x1000 average_participation_bps
     \<longleftrightarrow> average_round_x1000 \<ge> 2500 \<and> average_participation_bps < 8500"

definition adjust_bounded_ticket_difficulty_bits :: "u8 \<Rightarrow> nat \<Rightarrow> nat \<Rightarrow> nat \<Rightarrow> nat \<Rightarrow> u8 \<Rightarrow> u8 \<Rightarrow> u8" where
  "adjust_bounded_ticket_difficulty_bits previous_bits active_validator_count committee_capacity
       consecutive_healthy_epochs consecutive_unhealthy_epochs min_bits max_bits =
     (let out = min max_bits (max min_bits previous_bits)
      in if active_validator_count > committee_capacity \<and> consecutive_healthy_epochs \<ge> 2 \<and> out < max_bits then out + 1
         else if consecutive_unhealthy_epochs \<ge> 3 \<and> out > min_bits then out - 1
         else out)"

definition epoch_ticket_better :: "EpochTicket \<Rightarrow> EpochTicket \<Rightarrow> bool" where
  "epoch_ticket_better candidate current_best =
     (if et_work_hash candidate \<noteq> et_work_hash current_best then et_work_hash candidate < et_work_hash current_best
      else if et_nonce candidate \<noteq> et_nonce current_best then et_nonce candidate < et_nonce current_best
      else et_participant_pubkey candidate < et_participant_pubkey current_best)"

definition candidate_ticket :: "(bytes \<Rightarrow> hash32) \<Rightarrow> u64 \<Rightarrow> hash32 \<Rightarrow> pubkey32 \<Rightarrow> u64 \<Rightarrow> u64 \<Rightarrow> EpochTicket" where
  "candidate_ticket sha256d epoch anchor operator_id source_height nonce =
     \<lparr>et_epoch = epoch, et_participant_pubkey = operator_id, et_challenge_anchor = anchor, et_nonce = nonce,
      et_work_hash = make_epoch_ticket_work_hash sha256d epoch anchor operator_id nonce,
      et_source_height = source_height, et_origin = LOCAL\<rparr>"

text \<open>
  The search loop \<^verbatim>\<open>for (nonce = 0; nonce <= max_nonce; ++nonce)\<close>. It may run forever: the 64-bit counter
  wraps when \<open>max_nonce\<close> is the largest value. A loop that does not end is \<open>None\<close>.
\<close>

partial_function (option) ticket_search ::
  "(u64 \<Rightarrow> EpochTicket) \<Rightarrow> u64 \<Rightarrow> u64 \<Rightarrow> EpochTicket option \<Rightarrow> EpochTicket option option" where
  [code]: "ticket_search candidate max_nonce nonce best =
     (if nonce \<le> max_nonce then
        let c = candidate nonce
        in ticket_search candidate max_nonce (nonce + 1)
             (case best of None \<Rightarrow> Some c | Some b \<Rightarrow> if epoch_ticket_better c b then Some c else best)
      else Some best)"

definition best_epoch_ticket_for_operator_id ::
  "(bytes \<Rightarrow> hash32) \<Rightarrow> u64 \<Rightarrow> hash32 \<Rightarrow> pubkey32 \<Rightarrow> u64 \<Rightarrow> u64 \<Rightarrow> EpochTicket option option" where
  "best_epoch_ticket_for_operator_id sha256d epoch challenge_anchor operator_id source_height max_nonce =
     (if epoch = 0 then Some None
      else ticket_search (candidate_ticket sha256d epoch challenge_anchor operator_id source_height) max_nonce 0 None)"

definition best_epoch_tickets_by_pubkey :: "(bytes \<Rightarrow> hash32) \<Rightarrow> EpochTicket list \<Rightarrow> (pubkey32, EpochTicket) omap" where
  "best_epoch_tickets_by_pubkey sha256d tickets =
     foldl (\<lambda>out ticket.
       if \<not> validate_epoch_ticket sha256d ticket then out
       else case map_of out (et_participant_pubkey ticket) of
              None \<Rightarrow> omap_upd (et_participant_pubkey ticket) ticket out
            | Some b \<Rightarrow> if epoch_ticket_better ticket b then omap_upd (et_participant_pubkey ticket) ticket out else out)
       [] tickets"

subsection \<open>Leading zero bits and the value of a hash\<close>

text \<open>The hash as a big-endian number.\<close>

fun be_value :: "bytes \<Rightarrow> nat" where
  "be_value [] = 0"
| "be_value (b # bs) = unat b * 256 ^ length bs + be_value bs"

fun clz :: "u8 \<Rightarrow> nat \<Rightarrow> nat" where
  "clz b 0 = 0"
| "clz b (Suc k) = (if \<not> bit b k then Suc (clz b k) else 0)"

fun lz :: "bytes \<Rightarrow> nat" where
  "lz [] = 0"
| "lz (b # bs) = (if b = 0 then 8 + lz bs else clz b 8)"

lemma zero_bits_of_byte_eq:
  "zeros < 255 \<Longrightarrow> zero_bits_of_byte b k zeros =
     (if clz b k < k \<or> zeros + k \<ge> 255 \<and> 0 < k then Inl (min 255 (zeros + clz b k)) else Inr (zeros + k))"
proof (induction k arbitrary: zeros)
  case (Suc k)
  show ?case
  proof (cases "bit b k \<or> zeros + 1 \<ge> 255")
    case True
    then show ?thesis using Suc.prems by auto
  next
    case False
    then have "zeros + 1 < 255" by simp
    from Suc.IH [OF this] False show ?thesis by (cases k) auto
  qed
qed simp

lemma clz_le: "clz b k \<le> k"
  by (induction k) auto

lemma clz_value: "d \<le> k \<Longrightarrow> d \<le> clz b k \<longleftrightarrow> take_bit k (unat b) < 2 ^ (k - d)"
proof (induction k arbitrary: d)
  case (Suc k)
  have tb: "take_bit (Suc k) (unat b) = take_bit k (unat b) + (if bit b k then 2 ^ k else 0)"
    by (simp add: take_bit_Suc_from_most bit_unsigned_iff)
  have lt: "take_bit k (unat b) < 2 ^ k" by simp
  show ?case
  proof (cases d)
    case 0
    then show ?thesis using take_bit_nat_less_exp [of "Suc k" "unat b"] by simp
  next
    case (Suc e)
    have "2 ^ (k - e) \<le> (2::nat) ^ k" by (rule power_increasing) auto
    then have "\<not> take_bit k (unat b) + 2 ^ k < 2 ^ (k - e)" by linarith
    then show ?thesis using Suc Suc.IH [of e] Suc.prems tb by auto
  qed
qed simp

lemma clz_full: "b \<noteq> 0 \<Longrightarrow> clz b 8 < 8"
proof (rule ccontr)
  assume "b \<noteq> 0" "\<not> clz b 8 < 8"
  then have "take_bit 8 (unat b) < 2 ^ (8 - 8)" using clz_value [of 8 8 b] by simp
  moreover have "take_bit 8 (unat b) = unat b" by (simp add: take_bit_nat_eq_self)
  ultimately have "unat b = 0" by simp
  with \<open>b \<noteq> 0\<close> show False by (simp add: unat_eq_zero)
qed

lemma zero_bits_loop_eq: "zeros < 255 \<Longrightarrow> zero_bits_loop bs zeros = min 255 (zeros + lz bs)"
proof (induction bs arbitrary: zeros)
  case (Cons b bs)
  show ?case
  proof (cases "b = 0")
    case True
    then show ?thesis using Cons by (auto simp: add.assoc)
  next
    case False
    then show ?thesis using Cons.prems clz_full [OF False] by (simp add: zero_bits_of_byte_eq)
  qed
qed simp

lemma be_value_less: "be_value bs < 256 ^ length bs"
proof (induction bs)
  case (Cons b bs)
  have "unat b * 256 ^ length bs \<le> 255 * 256 ^ length bs" using unat_u8_less [of b] by (intro mult_right_mono) linarith+
  with Cons have "unat b * 256 ^ length bs + be_value bs < 256 * 256 ^ length bs" by linarith
  then show ?case by simp
qed simp

lemma mult_add_less_iff: "r < m \<Longrightarrow> a * m + r < c * m \<longleftrightarrow> a < c" for a c m r :: nat
proof
  assume r: "r < m" and "a < c"
  then have "Suc a * m \<le> c * m" by (intro mult_right_mono) auto
  with r show "a * m + r < c * m" by simp
next
  assume "r < m" "a * m + r < c * m"
  then have "a * m < c * m" by linarith
  then show "a < c" by simp
qed

lemma lz_value: "d \<le> 8 * length bs \<Longrightarrow> d \<le> lz bs \<longleftrightarrow> be_value bs < 2 ^ (8 * length bs - d)"
proof (induction bs arbitrary: d)
  case (Cons b bs)
  let ?n = "length bs"
  have p: "(256::nat) ^ ?n = 2 ^ (8 * ?n)" by (simp add: power_mult)
  show ?case
  proof (cases "d \<le> 8")
    case True
    then have e: "(2::nat) ^ (8 * length (b # bs) - d) = 2 ^ (8 - d) * 256 ^ ?n"
      unfolding p power_add [symmetric] by simp
    have "take_bit 8 (unat b) = unat b" by (simp add: take_bit_nat_eq_self)
    then have "d \<le> clz b 8 \<longleftrightarrow> unat b < 2 ^ (8 - d)" using clz_value [OF True, of b] by simp
    moreover have "b = 0 \<Longrightarrow> unat b < 2 ^ (8 - d)" by simp
    ultimately have "d \<le> lz (b # bs) \<longleftrightarrow> unat b < 2 ^ (8 - d)" using True by auto
    also have "\<dots> \<longleftrightarrow> be_value (b # bs) < 2 ^ (8 - d) * 256 ^ ?n"
      using mult_add_less_iff [OF be_value_less [of bs], of "unat b" "2 ^ (8 - d)"] by simp
    finally show ?thesis by (simp only: e)
  next
    case False
    show ?thesis
    proof (cases "b = 0")
      case True
      have "d - 8 \<le> lz bs \<longleftrightarrow> be_value bs < 2 ^ (8 * ?n - (d - 8))" using Cons.prems by (intro Cons.IH) simp
      moreover have "8 * ?n - (d - 8) = 8 * length (b # bs) - d" using False by simp
      moreover have "d \<le> lz (b # bs) \<longleftrightarrow> d - 8 \<le> lz bs" "be_value (b # bs) = be_value bs" using True False by auto
      ultimately show ?thesis by simp
    next
      case b: False
      have "2 ^ (8 * length (b # bs) - d) \<le> (2::nat) ^ (8 * ?n)" using False by (intro power_increasing) auto
      also have "\<dots> = 1 * 256 ^ ?n" by (simp add: p)
      also have "\<dots> \<le> unat b * 256 ^ ?n"
        using b by (intro mult_right_mono) (simp_all add: Suc_le_eq unat_gt_0)
      also have "\<dots> \<le> be_value (b # bs)" by simp
      finally show ?thesis using clz_full [OF b] b False by simp
    qed
  qed
qed simp

lemma unat_leading_zero_bits: "unat (leading_zero_bits h) = min 255 (lz h)"
  by (simp add: leading_zero_bits_def zero_bits_loop_eq unsigned_of_nat take_bit_nat_eq_self)

lemma meets_difficulty_value:
  assumes "length (et_work_hash t) = 32"
  shows "epoch_ticket_meets_difficulty t d \<longleftrightarrow> be_value (et_work_hash t) < 2 ^ (256 - unat d)"
proof -
  have d: "unat d \<le> 255" using unat_u8_less [of d] by linarith
  then have "epoch_ticket_meets_difficulty t d \<longleftrightarrow> unat d \<le> lz (et_work_hash t)"
    by (auto simp: epoch_ticket_meets_difficulty_def word_le_nat_alt unat_leading_zero_bits)
  also have "\<dots> \<longleftrightarrow> be_value (et_work_hash t) < 2 ^ (256 - unat d)"
    using lz_value [of "unat d" "et_work_hash t"] d assms by simp
  finally show ?thesis .
qed

subsection \<open>The best ticket\<close>

definition ticket_key :: "EpochTicket \<Rightarrow> hash32 \<times> u64 \<times> pubkey32" where
  "ticket_key t = (et_work_hash t, et_nonce t, et_participant_pubkey t)"

lemma epoch_ticket_better_iff: "epoch_ticket_better a b \<longleftrightarrow> ticket_key a < ticket_key b"
  by (auto simp: epoch_ticket_better_def ticket_key_def less_prod_def')

definition pick_ticket :: "EpochTicket option \<Rightarrow> EpochTicket \<Rightarrow> EpochTicket option" where
  "pick_ticket best c = (case best of None \<Rightarrow> Some c | Some b \<Rightarrow> if epoch_ticket_better c b then Some c else best)"

lemma pick_ticket_Some:
  obtains t where "pick_ticket best c = Some t" "t = c \<or> best = Some t"
    "ticket_key t \<le> ticket_key c" "\<And>b. best = Some b \<Longrightarrow> ticket_key t \<le> ticket_key b"
proof (cases best)
  case None
  then show ?thesis by (intro that [of c]) (auto simp: pick_ticket_def)
next
  case (Some b)
  then show ?thesis
    by (intro that [of "if ticket_key c < ticket_key b then c else b"]) (auto simp: pick_ticket_def epoch_ticket_better_iff)
qed

lemma ticket_search_step:
  "ticket_search cand m n best =
     (if n \<le> m then ticket_search cand m (n + 1) (pick_ticket best (cand n)) else Some best)"
  by (subst ticket_search.simps) (simp add: pick_ticket_def Let_def)

lemma unat_Suc_u64: "n \<noteq> u64_max \<Longrightarrow> unat (n + 1) = Suc (unat n)"
proof -
  assume "n \<noteq> u64_max"
  then have "n + 1 \<noteq> 0" by (metis add_eq_0_iff minus_equation_iff)
  then show ?thesis by (simp add: unatSuc add.commute)
qed

lemma ticket_search_ends:
  assumes m: "m \<noteq> u64_max"
  shows "k = Suc (unat m) - unat n \<Longrightarrow> n \<le> m \<Longrightarrow>
    \<exists>t. ticket_search cand m n best = Some (Some t)
      \<and> (best = Some t \<or> (\<exists>i. n \<le> i \<and> i \<le> m \<and> t = cand i))
      \<and> (\<forall>i. n \<le> i \<and> i \<le> m \<longrightarrow> ticket_key t \<le> ticket_key (cand i))
      \<and> (\<forall>b. best = Some b \<longrightarrow> ticket_key t \<le> ticket_key b)"
proof (induction k arbitrary: n best)
  case 0
  then show ?case by (simp add: word_le_nat_alt)
next
  case (Suc k)
  obtain t where t: "pick_ticket best (cand n) = Some t" "t = cand n \<or> best = Some t"
    "ticket_key t \<le> ticket_key (cand n)" "\<And>b. best = Some b \<Longrightarrow> ticket_key t \<le> ticket_key b"
    by (rule pick_ticket_Some [of best "cand n"]) blast
  have "n \<noteq> u64_max" using Suc.prems m by (auto simp: word_order.extremum_unique)
  note n1 = unat_Suc_u64 [OF this]
  have iv: "(n \<le> i \<and> i \<le> m) \<longleftrightarrow> i = n \<or> (n + 1 \<le> i \<and> i \<le> m)" for i
    using Suc.prems(2) n1 by (auto simp: word_le_nat_alt unat_eq_iff)
  have up: "n \<le> i" if "n + 1 \<le> i" for i using that n1 by (simp add: word_le_nat_alt)
  show ?case
  proof (cases "n + 1 \<le> m")
    case True
    have "k = Suc (unat m) - unat (n + 1)" using Suc.prems n1 by simp
    from Suc.IH [OF this True, of "Some t"] obtain r where r: "ticket_search cand m (n + 1) (Some t) = Some (Some r)"
      "t = r \<or> (\<exists>i. n + 1 \<le> i \<and> i \<le> m \<and> r = cand i)"
      "\<And>i. n + 1 \<le> i \<and> i \<le> m \<Longrightarrow> ticket_key r \<le> ticket_key (cand i)" "ticket_key r \<le> ticket_key t" by blast
    have "ticket_search cand m n best = Some (Some r)" using r(1) t(1) Suc.prems(2) by (subst ticket_search_step) simp
    moreover have "best = Some r \<or> (\<exists>i. n \<le> i \<and> i \<le> m \<and> r = cand i)" 
      using r(2) t(2) up Suc.prems(2) by (metis order_refl)
    moreover have "ticket_key r \<le> ticket_key (cand i)" if "n \<le> i \<and> i \<le> m" for i
      using that r(3) [of i] order_trans [OF r(4) t(3)] iv [of i] by blast
    moreover have "ticket_key r \<le> ticket_key b" if "best = Some b" for b
      using order_trans [OF r(4) t(4) [OF that]] .
    ultimately show ?thesis by blast
  next
    case False
    have "ticket_search cand m n best = Some (Some t)"
      using False t(1) Suc.prems(2) by (subst ticket_search_step, subst ticket_search_step) simp
    moreover have "i = n" if "n \<le> i \<and> i \<le> m" for i using that False iv [of i] by auto
    moreover have "best = Some t \<or> (\<exists>i. n \<le> i \<and> i \<le> m \<and> t = cand i)" using t(2) Suc.prems(2) by auto
    ultimately show ?thesis using t(3,4) by blast
  qed
qed

lemma ticket_search_diverges: "ticket_search cand u64_max n best = None"
proof -
  have "m \<noteq> u64_max" if "ticket_search cand m n best = Some r" for m r
    by (rule ticket_search.raw_induct [OF _ that, of "\<lambda>cand m n best r. m \<noteq> u64_max"])
       (auto simp: Let_def split: if_splits)
  then show ?thesis by (cases "ticket_search cand u64_max n best") auto
qed

subsection \<open>The properties of tickets\<close>

text \<open>
  C33. Counting leading zero bits is the usual target test: a ticket meets \<open>d\<close> bits of difficulty exactly
  when its 256-bit work hash, read as a big-endian number, is below \<open>2 ^ (256 - d)\<close>.
\<close>

theorem meets_difficulty_iff:
  assumes "length (et_work_hash t) = 32"
  shows "epoch_ticket_meets_difficulty t d \<longleftrightarrow> be_value (et_work_hash t) < 2 ^ (256 - unat d)"
  using assms by (rule meets_difficulty_value)

theorem meets_difficulty_iff_witness:
  "epoch_ticket_meets_difficulty (candidate_ticket (\<lambda>_. 0 # 1 # replicate 30 0) 1 [] [] 0 0) 15
   \<and> be_value (0 # 1 # replicate 30 0) < 2 ^ 241"
proof -
  let ?t = "candidate_ticket (\<lambda>_. 0 # 1 # replicate 30 0) 1 [] [] 0 0"
  have len: "length (et_work_hash ?t) = 32" and h: "et_work_hash ?t = 0 # 1 # replicate 30 0"
    by (simp_all add: candidate_ticket_def make_epoch_ticket_work_hash_def)
  have "be_value (replicate n 0) = 0" for n by (induction n) auto
  then have "be_value (0 # 1 # replicate 30 0) < 2 ^ 241" by simp
  then show ?thesis using meets_difficulty_iff [OF len, of 15] h by simp
qed

text \<open>
  C34. The search for the best ticket of an operator ends for every bound but the largest 64-bit value, and
  then returns a valid ticket whose nonce is within the bound and that no other nonce beats. For the largest
  bound the counter wraps and the loop never ends.
\<close>

theorem best_ticket_search:
  assumes "epoch \<noteq> 0"
  shows "(max_nonce \<noteq> u64_max \<longrightarrow>
      (\<exists>t. best_epoch_ticket_for_operator_id sha256d epoch anchor operator_id sh max_nonce = Some (Some t)
         \<and> validate_epoch_ticket sha256d t \<and> et_nonce t \<le> max_nonce \<and> et_participant_pubkey t = operator_id
         \<and> (\<forall>n \<le> max_nonce. \<not> epoch_ticket_better (candidate_ticket sha256d epoch anchor operator_id sh n) t)))
    \<and> best_epoch_ticket_for_operator_id sha256d epoch anchor operator_id sh u64_max = None"
proof (intro conjI impI)
  let ?c = "candidate_ticket sha256d epoch anchor operator_id sh"
  show "best_epoch_ticket_for_operator_id sha256d epoch anchor operator_id sh u64_max = None"
    using assms by (simp add: best_epoch_ticket_for_operator_id_def ticket_search_diverges)
  assume "max_nonce \<noteq> u64_max"
  from ticket_search_ends [OF this refl, of 0 ?c None]
  obtain t i where t: "ticket_search ?c max_nonce 0 None = Some (Some t)" "i \<le> max_nonce" "t = ?c i"
    "\<And>n. n \<le> max_nonce \<Longrightarrow> ticket_key t \<le> ticket_key (?c n)" by auto
  moreover have "validate_epoch_ticket sha256d (?c i)" "et_nonce (?c i) = i" "et_participant_pubkey (?c i) = operator_id"
    by (simp_all add: validate_epoch_ticket_def candidate_ticket_def)
  ultimately show "\<exists>t. best_epoch_ticket_for_operator_id sha256d epoch anchor operator_id sh max_nonce = Some (Some t)
         \<and> validate_epoch_ticket sha256d t \<and> et_nonce t \<le> max_nonce \<and> et_participant_pubkey t = operator_id
         \<and> (\<forall>n \<le> max_nonce. \<not> epoch_ticket_better (?c n) t)"
    using assms by (auto simp: best_epoch_ticket_for_operator_id_def epoch_ticket_better_iff not_less)
qed

theorem best_ticket_search_witness:
  "\<exists>t. best_epoch_ticket_for_operator_id (\<lambda>b. take 32 b) 1 [] [2] 7 EPOCH_TICKET_MAX_NONCE = Some (Some t)"
  using best_ticket_search [of 1 EPOCH_TICKET_MAX_NONCE "\<lambda>b. take 32 b" "[]" "[2]" 7]
  by (auto simp: EPOCH_TICKET_MAX_NONCE_def)

end
