(* ===== verification/Committee.thy ===== *)
theory Committee
  imports Registry Tickets Tx_Codec
begin

text \<open>
  Committee selection: \<^verbatim>\<open>src/src/consensus/finalized_committee.cpp\<close> (operator aggregation, ranking and
  selection), \<^verbatim>\<open>committee_schedule.cpp\<close> (committee root and proposer schedule), \<^verbatim>\<open>epoch_committee.cpp\<close>
  (ticket winners), \<^verbatim>\<open>randomness.cpp\<close> (epoch boundaries and seeds), and from \<^verbatim>\<open>canonical_derivation.cpp\<close> the
  committee and the leader that a checkpoint gives for a round.

  Every choice must come out the same on every node, whatever order the inputs arrive in; the lemmas show
  that the comparison functions are strict orders and that the selections depend on the set of inputs only.
\<close>

subsection \<open>Sorting with a comparison function\<close>

text \<open>
  \<^verbatim>\<open>std::sort\<close> with a comparison \<open>lt\<close>. Its result is determined only up to elements that \<open>lt\<close> does not
  separate; this one keeps those in their given order.
\<close>

fun insert_by :: "('a \<Rightarrow> 'a \<Rightarrow> bool) \<Rightarrow> 'a \<Rightarrow> 'a list \<Rightarrow> 'a list" where
  "insert_by lt x [] = [x]"
| "insert_by lt x (y # ys) = (if lt y x then y # insert_by lt x ys else x # y # ys)"

definition sort_by :: "('a \<Rightarrow> 'a \<Rightarrow> bool) \<Rightarrow> 'a list \<Rightarrow> 'a list" where
  "sort_by lt xs = foldr (insert_by lt) xs []"

lemma sort_by_key:
  assumes "\<And>a b. lt a b \<longleftrightarrow> key a < key b"
  shows "sort_by lt xs = sort_key key xs"
proof -
  have "insert_by lt x ys = insort_key key x ys" for x ys
    by (induction ys) (auto simp: assms)
  then have "insert_by lt = insort_key key" by (simp add: fun_eq_iff)
  then show ?thesis by (simp add: sort_by_def sort_key_def)
qed

subsection \<open>Epochs and randomness\<close>

definition committee_epoch_start :: "u64 \<Rightarrow> u64 \<Rightarrow> u64" where
  "committee_epoch_start height epoch_blocks =
     (if height = 0 then 0
      else let epoch_blocks = (if epoch_blocks = 0 then 1 else epoch_blocks)
           in ((height - 1) div epoch_blocks) * epoch_blocks + 1)"

text \<open>\<open>genesis_hash_hex\<close> is the only field of \<^verbatim>\<open>ChainId\<close> the randomness reads.\<close>

definition initial_finalized_randomness :: "(bytes \<Rightarrow> hash32) \<Rightarrow> bytes \<Rightarrow> string \<Rightarrow> hash32" where
  "initial_finalized_randomness sha256d network_id genesis_hash_hex =
     sha256d (wr_bytes (ascii ''SC-RAND-GEN-V1'') @ wr_bytes_fixed network_id
       @ (case hex_decode genesis_hash_hex of
            None \<Rightarrow> []
          | Some gh \<Rightarrow> if length gh = 32 then wr_bytes gh else []))"

definition advance_finalized_randomness_header :: "(bytes \<Rightarrow> hash32) \<Rightarrow> hash32 \<Rightarrow> BlockHeader \<Rightarrow> hash32" where
  "advance_finalized_randomness_header sha256d prev_randomness header =
     sha256d (wr_bytes (ascii ''SC-RAND-ACC-V1'') @ wr_bytes_fixed prev_randomness
       @ wr_bytes_fixed (block_id sha256d header) @ wr_bytes_fixed (bh_leader_pubkey header)
       @ wr_u64le (bh_height header) @ wr_u32le (bh_round header))"

definition leader_vrf_alpha :: "hash32 \<Rightarrow> u64 \<Rightarrow> bytes" where
  "leader_vrf_alpha prev_randomness height =
     wr_bytes (ascii ''SC-RAND-VRF-V1'') @ wr_bytes_fixed prev_randomness @ wr_u64le height"

text \<open>\<^verbatim>\<open>crypto::vrf_proof_to_output\<close> is the parameter \<open>vrf_output\<close>.\<close>

definition advance_finalized_randomness ::
  "(bytes \<Rightarrow> hash32) \<Rightarrow> (bytes \<Rightarrow> bytes) \<Rightarrow> hash32 \<Rightarrow> FrontierTransition \<Rightarrow> hash32" where
  "advance_finalized_randomness sha256d vrf_output prev_randomness transition =
     sha256d (wr_bytes (ascii ''SC-RAND-FRONT-V2'') @ wr_bytes_fixed prev_randomness
       @ wr_bytes_fixed (vrf_output (ft_leader_vrf_proof transition)) @ wr_u64le (ft_height transition))"

definition committee_epoch_seed :: "(bytes \<Rightarrow> hash32) \<Rightarrow> hash32 \<Rightarrow> u64 \<Rightarrow> hash32" where
  "committee_epoch_seed sha256d epoch_randomness epoch_start_height =
     sha256d (wr_bytes (ascii ''SC-COMM-EPOCH-V1'') @ wr_bytes_fixed epoch_randomness @ wr_u64le epoch_start_height)"

subsection \<open>Ranking and selecting candidates\<close>

record FinalizedCommitteeCandidate =
  cc_pubkey :: pubkey32
  cc_selection_id :: pubkey32
  cc_bonded_amount :: u64
  cc_capped_bonded_amount :: u64
  cc_effective_weight :: u64
  cc_ticket_work_hash :: hash32
  cc_ticket_nonce :: u64
  cc_ticket_bonus_bps :: u32
  cc_ticket_bonus_cap_bps :: u32

record OperatorCommitteeInput =
  oi_pubkey :: pubkey32
  oi_operator_id :: pubkey32
  oi_bonded_amount :: u64
  oi_ticket_work_hash :: hash32
  oi_ticket_nonce :: u64
  oi_ticket_bonus_bps :: u32

definition hash64_prefix :: "hash32 \<Rightarrow> u64" where
  "hash64_prefix h = foldl (\<lambda>out b. or (push_bit 8 out) (ucast b)) 0 (take 8 h)"

definition finalized_committee_candidate_hash :: "(bytes \<Rightarrow> hash32) \<Rightarrow> hash32 \<Rightarrow> pubkey32 \<Rightarrow> hash32" where
  "finalized_committee_candidate_hash sha256d seed pub =
     sha256d (wr_bytes (ascii ''SC-COMMITTEE-V3'') @ wr_bytes_fixed seed @ wr_bytes_fixed pub)"

definition operator_representative_hash :: "(bytes \<Rightarrow> hash32) \<Rightarrow> pubkey32 \<Rightarrow> u64 \<Rightarrow> pubkey32 \<Rightarrow> hash32" where
  "operator_representative_hash sha256d operator_id height pubkey =
     sha256d (wr_bytes (ascii ''SC-REP-V1'') @ wr_bytes_fixed operator_id @ wr_u64le height @ wr_bytes_fixed pubkey)"

definition candidate_strength :: "FinalizedCommitteeCandidate \<Rightarrow> u64" where
  "candidate_strength candidate =
     (let base_weight = (if cc_effective_weight candidate \<noteq> 0 then cc_effective_weight candidate
                         else effective_weight (cc_bonded_amount candidate));
          bounded_bonus = min (cc_ticket_bonus_bps candidate) (cc_ticket_bonus_cap_bps candidate);
          bonded_coins = max 1 (cc_bonded_amount candidate div kCoin);
          bonus_scale = 1 + integer_sqrt bonded_coins;
          adjusted_bonus = ucast bounded_bonus div bonus_scale
      in max 1 (base_weight * (10000 + adjusted_bonus)))"

definition selection_id_of :: "FinalizedCommitteeCandidate \<Rightarrow> pubkey32" where
  "selection_id_of a = (if cc_selection_id a = zero_pubkey then cc_pubkey a else cc_selection_id a)"

definition compare_ranked_candidates ::
  "(bytes \<Rightarrow> hash32) \<Rightarrow> hash32 \<Rightarrow> FinalizedCommitteeCandidate \<Rightarrow> FinalizedCommitteeCandidate \<Rightarrow> bool" where
  "compare_ranked_candidates sha256d seed a b =
     (let a_selection_id = selection_id_of a; b_selection_id = selection_id_of b;
          a_hash = finalized_committee_candidate_hash sha256d seed a_selection_id;
          b_hash = finalized_committee_candidate_hash sha256d seed b_selection_id;
          rank_cmp = compare_mul_u64 (hash64_prefix a_hash) (candidate_strength b)
                                     (hash64_prefix b_hash) (candidate_strength a)
      in if rank_cmp \<noteq> 0 then rank_cmp < 0
         else if a_hash \<noteq> b_hash then a_hash < b_hash
         else if a_selection_id \<noteq> b_selection_id then a_selection_id < b_selection_id
         else if cc_pubkey a \<noteq> cc_pubkey b then cc_pubkey a < cc_pubkey b
         else if cc_effective_weight a \<noteq> cc_effective_weight b then cc_effective_weight a > cc_effective_weight b
         else if cc_capped_bonded_amount a \<noteq> cc_capped_bonded_amount b
         then cc_capped_bonded_amount a > cc_capped_bonded_amount b
         else if cc_bonded_amount a \<noteq> cc_bonded_amount b then cc_bonded_amount a > cc_bonded_amount b
         else if cc_ticket_bonus_bps a \<noteq> cc_ticket_bonus_bps b then cc_ticket_bonus_bps a > cc_ticket_bonus_bps b
         else if cc_ticket_work_hash a \<noteq> cc_ticket_work_hash b then cc_ticket_work_hash a < cc_ticket_work_hash b
         else if cc_ticket_nonce a \<noteq> cc_ticket_nonce b then cc_ticket_nonce a < cc_ticket_nonce b
         else cc_ticket_bonus_cap_bps a < cc_ticket_bonus_cap_bps b)"

definition rank_finalized_committee_candidates ::
  "(bytes \<Rightarrow> hash32) \<Rightarrow> FinalizedCommitteeCandidate list \<Rightarrow> hash32 \<Rightarrow> FinalizedCommitteeCandidate list" where
  "rank_finalized_committee_candidates sha256d candidates seed =
     sort_by (compare_ranked_candidates sha256d seed) candidates"

definition select_finalized_committee ::
  "(bytes \<Rightarrow> hash32) \<Rightarrow> FinalizedCommitteeCandidate list \<Rightarrow> hash32 \<Rightarrow> nat \<Rightarrow> pubkey32 list" where
  "select_finalized_committee sha256d candidates seed committee_size =
     (if candidates = [] \<or> committee_size = 0 then []
      else let ranked = rank_finalized_committee_candidates sha256d candidates seed
           in map cc_pubkey (take (min committee_size (length ranked)) ranked))"

definition select_finalized_committee_leader :: "pubkey32 list \<Rightarrow> pubkey32 option" where
  "select_finalized_committee_leader committee = (case committee of [] \<Rightarrow> None | p # ps \<Rightarrow> Some p)"

definition finalized_committee_size :: "nat \<Rightarrow> nat \<Rightarrow> nat" where
  "finalized_committee_size active_count configured_max_committee =
     (if active_count \<le> 2 then active_count
      else let k = min active_count configured_max_committee in max 2 k)"

subsection \<open>Operators behind several validators\<close>

record Aggregate =
  ag_representative_pub :: pubkey32
  ag_total_bonded_amount :: u64
  ag_best_ticket_work_hash :: hash32
  ag_best_ticket_nonce :: u64
  ag_best_ticket_bonus_bps :: u32
  ag_has_representative :: bool

definition empty_aggregate :: Aggregate where
  "empty_aggregate = \<lparr>ag_representative_pub = zero_pubkey, ag_total_bonded_amount = 0, ag_best_ticket_work_hash = zero_hash,
     ag_best_ticket_nonce = 0, ag_best_ticket_bonus_bps = 0, ag_has_representative = False\<rparr>"

definition operator_of :: "OperatorCommitteeInput \<Rightarrow> pubkey32" where
  "operator_of v = (if oi_operator_id v = zero_pubkey then oi_pubkey v else oi_operator_id v)"

text \<open>One iteration of the loop over the validators, on the entry of the validator's operator.\<close>

definition aggregate_step ::
  "(bytes \<Rightarrow> hash32) \<Rightarrow> u64 \<Rightarrow> pubkey32 \<Rightarrow> OperatorCommitteeInput \<Rightarrow> Aggregate \<Rightarrow> Aggregate" where
  "aggregate_step sha256d height operator_id v agg =
     (let rep = operator_representative_hash sha256d operator_id height;
          agg = agg\<lparr>ag_total_bonded_amount :=
                      (if ag_total_bonded_amount agg > u64_max - oi_bonded_amount v then u64_max
                       else ag_total_bonded_amount agg + oi_bonded_amount v)\<rparr>;
          prefer = (\<not> ag_has_representative agg
                    \<or> rep (oi_pubkey v) < rep (ag_representative_pub agg)
                    \<or> (rep (oi_pubkey v) = rep (ag_representative_pub agg) \<and> oi_pubkey v < ag_representative_pub agg));
          agg = (if prefer then agg\<lparr>ag_representative_pub := oi_pubkey v, ag_has_representative := True\<rparr> else agg)
      in if \<not> ag_has_representative agg \<or> ag_best_ticket_work_hash agg = zero_hash \<or> oi_pubkey v = ag_representative_pub agg
         then (if oi_pubkey v = ag_representative_pub agg
               then agg\<lparr>ag_best_ticket_work_hash := oi_ticket_work_hash v, ag_best_ticket_nonce := oi_ticket_nonce v,
                        ag_best_ticket_bonus_bps := oi_ticket_bonus_bps v\<rparr>
               else agg)
         else agg)"

definition aggregate_by_operator ::
  "(bytes \<Rightarrow> hash32) \<Rightarrow> u64 \<Rightarrow> OperatorCommitteeInput list \<Rightarrow> (pubkey32, Aggregate) omap" where
  "aggregate_by_operator sha256d height validators =
     foldl (\<lambda>m v. let op = operator_of v
                 in omap_upd op (aggregate_step sha256d height op v
                                   (case map_of m op of None \<Rightarrow> empty_aggregate | Some a \<Rightarrow> a)) m)
           [] validators"

definition candidate_of_aggregate :: "EconomicsConfig \<Rightarrow> u64 \<Rightarrow> u64 \<Rightarrow> pubkey32 \<Rightarrow> Aggregate \<Rightarrow> FinalizedCommitteeCandidate" where
  "candidate_of_aggregate economics height active_operator_count op agg =
     \<lparr>cc_pubkey = ag_representative_pub agg, cc_selection_id = op,
      cc_bonded_amount = ag_total_bonded_amount agg,
      cc_capped_bonded_amount =
        capped_effective_bond_units economics height active_operator_count (ag_total_bonded_amount agg),
      cc_effective_weight = effective_weight_cfg economics height active_operator_count (ag_total_bonded_amount agg),
      cc_ticket_work_hash = ag_best_ticket_work_hash agg,
      cc_ticket_nonce = ag_best_ticket_nonce agg,
      cc_ticket_bonus_bps = min (ag_best_ticket_bonus_bps agg) (ec_ticket_bonus_cap_bps economics),
      cc_ticket_bonus_cap_bps = ec_ticket_bonus_cap_bps economics\<rparr>"

definition aggregate_operator_committee_candidates ::
  "(bytes \<Rightarrow> hash32) \<Rightarrow> OperatorCommitteeInput list \<Rightarrow> EconomicsConfig \<Rightarrow> u64 \<Rightarrow> u64 \<Rightarrow> FinalizedCommitteeCandidate list" where
  "aggregate_operator_committee_candidates sha256d validators economics height finalized_active_operators =
     (let by_operator = aggregate_by_operator sha256d height validators;
          active_operator_count = (if finalized_active_operators = 0 then word_of_nat (length by_operator)
                                   else finalized_active_operators);
          out = map (\<lambda>(op, agg). candidate_of_aggregate economics height active_operator_count op agg)
                    (filter (\<lambda>(op, agg). ag_has_representative agg) by_operator)
      in sort_key (\<lambda>c. (selection_id_of c, cc_pubkey c)) out)"

subsection \<open>Entropy, seeds and participation\<close>

definition compute_finality_entropy :: "(bytes \<Rightarrow> hash32) \<Rightarrow> hash32 \<Rightarrow> FinalityProof \<Rightarrow> hash32" where
  "compute_finality_entropy sha256d prev_block_id prev_finality_proof =
     (let canon = sort_key (\<lambda>s. (fs_validator_pubkey s, fs_signature s)) (fp_sigs prev_finality_proof);
          deduped = unique_by fs_validator_pubkey canon
      in sha256d (wr_bytes (ascii ''SC-ENTROPY-V2'') @ wr_bytes_fixed prev_block_id
           @ concat (map (\<lambda>s. wr_bytes_fixed (fs_validator_pubkey s) @ wr_bytes_fixed (fs_signature s)) deduped)))"

definition make_finalized_committee_seed :: "(bytes \<Rightarrow> hash32) \<Rightarrow> hash32 \<Rightarrow> u64 \<Rightarrow> u32 \<Rightarrow> hash32" where
  "make_finalized_committee_seed sha256d prev_entropy height round =
     sha256d (wr_bytes (ascii ''SC-SEED-V2'') @ wr_bytes_fixed prev_entropy @ wr_u64le height @ wr_u32le round)"

definition committee_participants_from_finality :: "pubkey32 list \<Rightarrow> FinalitySig list \<Rightarrow> pubkey32 list" where
  "committee_participants_from_finality committee sigs =
     sort (remdups (filter (\<lambda>p. p \<in> set committee) (map fs_validator_pubkey sigs)))"

subsection \<open>Ticket winners and the proposer schedule\<close>

record EpochCommitteeMember =
  em_participant_pubkey :: pubkey32
  em_work_hash :: hash32
  em_nonce :: u64
  em_source_height :: u64

record EpochCommitteeSnapshot =
  es_epoch :: u64
  es_challenge_anchor :: hash32
  es_selected_winners :: "EpochCommitteeMember list"
  es_ordered_members :: "pubkey32 list"

definition epoch_committee_bond_ok :: "pubkey32 \<Rightarrow> (pubkey32, ValidatorInfo) omap option \<Rightarrow> bool \<Rightarrow> bool" where
  "epoch_committee_bond_ok pub validators require_bonded_validator =
     (if \<not> require_bonded_validator then True
      else case validators of
             None \<Rightarrow> True
           | Some m \<Rightarrow> (case map_of m pub of None \<Rightarrow> False | Some v \<Rightarrow> vi_has_bond v \<and> vi_status v \<noteq> BANNED))"

definition derive_epoch_committee_snapshot ::
  "(bytes \<Rightarrow> hash32) \<Rightarrow> u64 \<Rightarrow> hash32 \<Rightarrow> (pubkey32, EpochTicket) omap \<Rightarrow> nat
     \<Rightarrow> (pubkey32, ValidatorInfo) omap option \<Rightarrow> bool \<Rightarrow> EpochCommitteeSnapshot" where
  "derive_epoch_committee_snapshot sha256d epoch challenge_anchor best_tickets committee_size_limit validators
       require_bonded_validator =
     (let eligible = map (\<lambda>(pub, best). \<lparr>em_participant_pubkey = pub, em_work_hash = et_work_hash best,
                                          em_nonce = et_nonce best, em_source_height = et_source_height best\<rparr>)
                         (filter (\<lambda>(pub, best). validate_epoch_ticket sha256d best
                                    \<and> \<not> (et_epoch best \<noteq> epoch \<or> et_challenge_anchor best \<noteq> challenge_anchor)
                                    \<and> epoch_committee_bond_ok pub validators require_bonded_validator) best_tickets);
          sorted = sort_key (\<lambda>m. (em_work_hash m, em_nonce m, em_participant_pubkey m)) eligible;
          winners = take (min committee_size_limit (length sorted)) sorted
      in \<lparr>es_epoch = epoch, es_challenge_anchor = challenge_anchor, es_selected_winners = winners,
          es_ordered_members = map em_participant_pubkey winners\<rparr>)"

record ValidatorBestTicket =
  bt_validator_pubkey :: pubkey32
  bt_best_ticket_hash :: hash32
  bt_nonce :: u64

definition hash_bytes :: "(bytes \<Rightarrow> hash32) \<Rightarrow> bytes \<Rightarrow> bytes list \<Rightarrow> hash32" where
  "hash_bytes sha256d domain parts = sha256d (wr_bytes domain @ concat (map wr_varbytes parts))"

definition compute_committee_root :: "(bytes \<Rightarrow> hash32) \<Rightarrow> ValidatorBestTicket list \<Rightarrow> hash32" where
  "compute_committee_root sha256d committee =
     hash_bytes sha256d (ascii ''FINALIS_COMMITTEE_V1'')
       (map (\<lambda>e. wr_bytes_fixed (bt_validator_pubkey e) @ wr_bytes_fixed (bt_best_ticket_hash e) @ wr_u64le (bt_nonce e))
            committee)"

definition compute_proposer_seed :: "(bytes \<Rightarrow> hash32) \<Rightarrow> hash32 \<Rightarrow> u64 \<Rightarrow> hash32 \<Rightarrow> hash32" where
  "compute_proposer_seed sha256d epoch_anchor height committee_root =
     sha256d (wr_bytes (ascii ''FINALIS_PROPOSER_V1'') @ wr_bytes_fixed epoch_anchor @ wr_u64le height
              @ wr_bytes_fixed committee_root)"

definition proposer_schedule_from_committee :: "(bytes \<Rightarrow> hash32) \<Rightarrow> ValidatorBestTicket list \<Rightarrow> hash32 \<Rightarrow> pubkey32 list" where
  "proposer_schedule_from_committee sha256d committee proposer_seed =
     map snd (sort (map (\<lambda>e. (sha256d (wr_bytes_fixed proposer_seed @ wr_bytes_fixed (bt_validator_pubkey e)),
                             bt_validator_pubkey e)) committee))"

subsection \<open>Checkpoints\<close>

datatype FinalizedCommitteeDerivationMode = NORMAL | FALLBACK

datatype FinalizedCommitteeFallbackReason =
  FALLBACK_NONE | INSUFFICIENT_ELIGIBLE_OPERATORS | HYSTERESIS_RECOVERY_PENDING | EMERGENCY_PRIOR_COMMITTEE

record FinalizedCommitteeCheckpoint =
  cp_epoch_start_height :: u64
  cp_epoch_seed :: hash32
  cp_ticket_difficulty_bits :: u8
  cp_derivation_mode :: FinalizedCommitteeDerivationMode
  cp_fallback_reason :: FinalizedCommitteeFallbackReason
  cp_availability_eligible_operator_count :: u64
  cp_availability_min_eligible_operators :: u64
  cp_adaptive_target_committee_size :: u64
  cp_adaptive_min_eligible :: u64
  cp_adaptive_min_bond :: u64
  cp_qualified_depth :: u64
  cp_target_expand_streak :: u32
  cp_target_contract_streak :: u32
  cp_ordered_members :: "pubkey32 list"
  cp_ordered_operator_ids :: "pubkey32 list"
  cp_ordered_base_weights :: "u64 list"
  cp_ordered_ticket_bonus_bps :: "u32 list"
  cp_ordered_final_weights :: "u64 list"
  cp_ordered_ticket_hashes :: "hash32 list"
  cp_ordered_ticket_nonces :: "u64 list"
  cp_ordered_bls_keys :: "bytes list"

definition ticket_hash_at :: "FinalizedCommitteeCheckpoint \<Rightarrow> nat \<Rightarrow> hash32" where
  "ticket_hash_at cp index =
     (if index < length (cp_ordered_ticket_hashes cp) then cp_ordered_ticket_hashes cp ! index else replicate 32 255)"

definition ticket_nonce_at :: "FinalizedCommitteeCheckpoint \<Rightarrow> nat \<Rightarrow> u64" where
  "ticket_nonce_at cp index =
     (if index < length (cp_ordered_ticket_nonces cp) then cp_ordered_ticket_nonces cp ! index else u64_max)"

text \<open>One iteration of the scan for the best ticket: \<open>b\<close> is \<^verbatim>\<open>best_index\<close>.\<close>

definition fallback_scan :: "FinalizedCommitteeCheckpoint \<Rightarrow> nat \<Rightarrow> nat \<Rightarrow> nat" where
  "fallback_scan cp b i =
     (if ticket_hash_at cp i \<noteq> ticket_hash_at cp b then (if ticket_hash_at cp i < ticket_hash_at cp b then i else b)
      else if ticket_nonce_at cp i \<noteq> ticket_nonce_at cp b then (if ticket_nonce_at cp i < ticket_nonce_at cp b then i else b)
      else if cp_ordered_members cp ! i < cp_ordered_members cp ! b then i else b)"

definition checkpoint_ticket_pow_fallback_member :: "FinalizedCommitteeCheckpoint \<Rightarrow> pubkey32 option" where
  "checkpoint_ticket_pow_fallback_member cp =
     (if cp_ordered_members cp = [] then None
      else Some (cp_ordered_members cp ! foldl (fallback_scan cp) 0 [1..<length (cp_ordered_members cp)]))"

definition checkpoint_ticket_pow_fallback_member_for_round :: "FinalizedCommitteeCheckpoint \<Rightarrow> u32 \<Rightarrow> pubkey32 option" where
  "checkpoint_ticket_pow_fallback_member_for_round cp round =
     (if cp_ordered_members cp = [] then None
      else let committee_size = word_of_nat (length (cp_ordered_members cp)) :: u32
           in if round < committee_size then None
              else let ranked = sort_key (\<lambda>i. (ticket_hash_at cp i, ticket_nonce_at cp i, cp_ordered_members cp ! i))
                                         [0..<length (cp_ordered_members cp)];
                       selected = unat (round - committee_size) mod length ranked
                   in Some (cp_ordered_members cp ! (ranked ! selected)))"

definition checkpoint_committee_for_round :: "FinalizedCommitteeCheckpoint \<Rightarrow> u32 \<Rightarrow> pubkey32 list" where
  "checkpoint_committee_for_round cp round =
     (if length (cp_ordered_members cp) \<ge> 2 then cp_ordered_members cp
      else if unat round < length (cp_ordered_members cp) then cp_ordered_members cp
      else case checkpoint_ticket_pow_fallback_member_for_round cp round of
             Some fallback \<Rightarrow> [fallback]
           | None \<Rightarrow> [])"

definition canonical_committee_for_height_round ::
  "(u64, FinalizedCommitteeCheckpoint) omap \<Rightarrow> u64 \<Rightarrow> u64 \<Rightarrow> u32 \<Rightarrow> pubkey32 list" where
  "canonical_committee_for_height_round checkpoints epoch_blocks height round =
     (if height = 0 then []
      else case map_of checkpoints (committee_epoch_start height epoch_blocks) of
             None \<Rightarrow> []
           | Some cp \<Rightarrow> checkpoint_committee_for_round cp round)"

text \<open>
  The ticket of a checkpoint member. The search for a missing ticket may in general not end
  (\<open>best_epoch_ticket_for_operator_id\<close>), so these definitions return \<open>None\<close> then.
\<close>

definition checkpoint_member_operator_id :: "(pubkey32, ValidatorInfo) omap \<Rightarrow> FinalizedCommitteeCheckpoint \<Rightarrow> nat \<Rightarrow> pubkey32" where
  "checkpoint_member_operator_id validators cp index =
     (let pub = cp_ordered_members cp ! index
      in if index < length (cp_ordered_operator_ids cp) \<and> cp_ordered_operator_ids cp ! index \<noteq> zero_pubkey
         then cp_ordered_operator_ids cp ! index
         else case map_of validators pub of
                None \<Rightarrow> pub
              | Some info \<Rightarrow> canonical_operator_id pub info)"

definition checkpoint_best_ticket_for_member ::
  "(bytes \<Rightarrow> hash32) \<Rightarrow> (pubkey32, ValidatorInfo) omap \<Rightarrow> FinalizedCommitteeCheckpoint \<Rightarrow> nat \<Rightarrow> ValidatorBestTicket option" where
  "checkpoint_best_ticket_for_member sha256d validators cp index =
     (let pub = cp_ordered_members cp ! index
      in if index < length (cp_ordered_ticket_hashes cp) \<and> index < length (cp_ordered_ticket_nonces cp)
         then Some \<lparr>bt_validator_pubkey = pub, bt_best_ticket_hash = cp_ordered_ticket_hashes cp ! index,
                    bt_nonce = cp_ordered_ticket_nonces cp ! index\<rparr>
         else let operator_id = checkpoint_member_operator_id validators cp index
              in case best_epoch_ticket_for_operator_id sha256d (cp_epoch_start_height cp) (cp_epoch_seed cp) operator_id
                        (cp_epoch_start_height cp) EPOCH_TICKET_MAX_NONCE of
                   None \<Rightarrow> None
                 | Some None \<Rightarrow> Some \<lparr>bt_validator_pubkey = pub, bt_best_ticket_hash = zero_hash, bt_nonce = 0\<rparr>
                 | Some (Some ticket) \<Rightarrow>
                     if epoch_ticket_meets_difficulty ticket (cp_ticket_difficulty_bits cp)
                     then Some \<lparr>bt_validator_pubkey = pub, bt_best_ticket_hash = et_work_hash ticket, bt_nonce = et_nonce ticket\<rparr>
                     else Some \<lparr>bt_validator_pubkey = pub, bt_best_ticket_hash = zero_hash, bt_nonce = 0\<rparr>)"

definition checkpoint_winners ::
  "(bytes \<Rightarrow> hash32) \<Rightarrow> (pubkey32, ValidatorInfo) omap \<Rightarrow> FinalizedCommitteeCheckpoint \<Rightarrow> ValidatorBestTicket list option" where
  "checkpoint_winners sha256d validators cp =
     those (map (checkpoint_best_ticket_for_member sha256d validators cp) [0..<length (cp_ordered_members cp)])"

definition proposer_schedule_from_checkpoint ::
  "(bytes \<Rightarrow> hash32) \<Rightarrow> (pubkey32, ValidatorInfo) omap \<Rightarrow> FinalizedCommitteeCheckpoint \<Rightarrow> u64 \<Rightarrow> pubkey32 list option" where
  "proposer_schedule_from_checkpoint sha256d validators cp height =
     map_option (\<lambda>winners. proposer_schedule_from_committee sha256d winners
       (compute_proposer_seed sha256d (cp_epoch_seed cp) height (compute_committee_root sha256d winners)))
       (checkpoint_winners sha256d validators cp)"

definition canonical_leader_for_height_round ::
  "(bytes \<Rightarrow> hash32) \<Rightarrow> (pubkey32, ValidatorInfo) omap \<Rightarrow> (u64, FinalizedCommitteeCheckpoint) omap \<Rightarrow> u64
     \<Rightarrow> u64 \<Rightarrow> u32 \<Rightarrow> pubkey32 option option" where
  "canonical_leader_for_height_round sha256d validators checkpoints epoch_blocks height round =
     (if height = 0 then Some None
      else case map_of checkpoints (committee_epoch_start height epoch_blocks) of
             None \<Rightarrow> Some None
           | Some cp \<Rightarrow>
               (case checkpoint_ticket_pow_fallback_member_for_round cp round of
                  Some fallback \<Rightarrow> Some (Some fallback)
                | None \<Rightarrow>
                    (case proposer_schedule_from_checkpoint sha256d validators cp height of
                       None \<Rightarrow> None
                     | Some schedule \<Rightarrow>
                         if schedule = [] then Some None
                         else Some (Some (schedule ! (unat round mod length schedule))))))"

definition validate_checkpoint_schedule_for_height ::
  "(bytes \<Rightarrow> hash32) \<Rightarrow> (pubkey32, ValidatorInfo) omap \<Rightarrow> FinalizedCommitteeCheckpoint \<Rightarrow> u64 \<Rightarrow> (string + unit) option" where
  "validate_checkpoint_schedule_for_height sha256d validators cp height =
     (if cp_ordered_members cp = [] then Some (Inl ''empty-checkpoint-committee'')
      else map_option (\<lambda>schedule.
        if schedule = [] then Inl ''empty-proposer-schedule''
        else if card (set (cp_ordered_members cp)) \<noteq> length (cp_ordered_members cp) then Inl ''duplicate-checkpoint-members''
        else if \<exists>p \<in> set schedule. p \<notin> set (cp_ordered_members cp) then Inl ''schedule-proposer-outside-committee''
        else Inr ())
        (proposer_schedule_from_checkpoint sha256d validators cp height))"

subsection \<open>The committee of a round\<close>

lemma committee_for_round: "checkpoint_committee_for_round cp round = cp_ordered_members cp"
proof (cases "cp_ordered_members cp")
  case Nil
  then show ?thesis
    by (simp add: checkpoint_committee_for_round_def checkpoint_ticket_pow_fallback_member_for_round_def)
next
  case (Cons p ps)
  show ?thesis
  proof (cases ps)
    case Nil
    have "sort_key f [0..<Suc 0] = [0]" for f :: "nat \<Rightarrow> hash32 \<times> u64 \<times> pubkey32" by simp
    moreover have "round < 1 \<longleftrightarrow> unat round = 0" by (simp add: word_less_nat_alt)
    ultimately show ?thesis using Cons Nil
      by (simp add: checkpoint_committee_for_round_def checkpoint_ticket_pow_fallback_member_for_round_def)
  qed (simp add: Cons checkpoint_committee_for_round_def)
qed

lemma epoch_start_props:
  assumes "height \<noteq> 0" and "epoch_blocks \<noteq> 0"
  shows "unat (committee_epoch_start height epoch_blocks)
    = ((unat height - 1) div unat epoch_blocks) * unat epoch_blocks + 1"
proof -
  have h1: "unat (height - 1) = unat height - 1" using assms(1) by (simp add: unat_minus_one)
  let ?q = "(height - 1) div epoch_blocks"
  have q: "unat ?q * unat epoch_blocks \<le> unat height - 1"
    by (simp add: unat_div_distrib h1)
  have pos: "0 < unat height" using assms(1) by (simp add: unat_gt_0)
  have "unat (?q * epoch_blocks) = unat ?q * unat epoch_blocks"
    using q unat_u64_less [of height] by (intro unat_mult_u64) linarith
  moreover have "unat (?q * epoch_blocks + 1) = unat (?q * epoch_blocks) + 1"
  proof -
    have "unat (?q * epoch_blocks) + 1 < 18446744073709551616"
      unfolding calculation using q pos unat_u64_less [of height] by linarith
    then show ?thesis using unat_add_u64 [of "?q * epoch_blocks" 1] by simp
  qed
  ultimately show ?thesis using assms by (simp add: committee_epoch_start_def unat_div_distrib h1)
qed

subsection \<open>The ranking is a strict order\<close>

text \<open>
  Comparing \<open>hash / strength\<close> by cross-multiplication is comparing multiples of a common denominator.
\<close>

definition common_multiple :: nat where
  "common_multiple = \<Prod>{1..<2 ^ 64}"

lemma common_multiple_pos: "0 < common_multiple"
  unfolding common_multiple_def by (rule prod_pos) simp

lemma dvd_common_multiple: "0 < s \<Longrightarrow> s < 2 ^ 64 \<Longrightarrow> s dvd common_multiple"
  unfolding common_multiple_def by (rule dvd_prodI) (simp_all add: Suc_le_eq)

definition scaled :: "nat \<Rightarrow> nat \<Rightarrow> nat" where
  "scaled h s = h * (common_multiple div s)"

lemma scaled_cmp:
  assumes "0 < s" "s < 2 ^ 64" "0 < t" "t < 2 ^ 64"
  shows "scaled h s < scaled g t \<longleftrightarrow> h * t < g * s" and "scaled h s = scaled g t \<longleftrightarrow> h * t = g * s"
proof -
  obtain u v where u: "common_multiple = s * u" and v: "common_multiple = t * v"
    using dvd_common_multiple assms by (metis dvd_def)
  have d: "common_multiple div s = u" unfolding u using assms by simp
  have d': "common_multiple div t = v" unfolding v using assms by simp
  have "scaled h s * (s * t) = h * t * (s * u)" unfolding scaled_def d by (simp only: ac_simps)
  then have e: "scaled h s * (s * t) = h * t * common_multiple" by (simp only: u)
  have "scaled g t * (s * t) = g * s * (t * v)" unfolding scaled_def d' by (simp only: ac_simps)
  then have e': "scaled g t * (s * t) = g * s * common_multiple" by (simp only: v)
  have pos: "0 < s * t" using assms by simp
  show "scaled h s < scaled g t \<longleftrightarrow> h * t < g * s"
    using mult_less_cancel2 [of "scaled h s" "s * t" "scaled g t"] pos common_multiple_pos unfolding e e' by simp
  show "scaled h s = scaled g t \<longleftrightarrow> h * t = g * s"
    using mult_cancel2 [of "scaled h s" "s * t" "scaled g t"] pos common_multiple_pos unfolding e e' by simp
qed

lemma candidate_strength_pos: "0 < unat (candidate_strength c)" "unat (candidate_strength c) < 2 ^ 64"
  unfolding candidate_strength_def Let_def by (simp_all add: unat_max_u64)

definition rank_key where
  "rank_key sha256d seed c =
     (let h = finalized_committee_candidate_hash sha256d seed (selection_id_of c)
      in (scaled (unat (hash64_prefix h)) (unat (candidate_strength c)), h, selection_id_of c, cc_pubkey c,
          - uint (cc_effective_weight c), - uint (cc_capped_bonded_amount c), - uint (cc_bonded_amount c),
          - uint (cc_ticket_bonus_bps c), cc_ticket_work_hash c, cc_ticket_nonce c, cc_ticket_bonus_cap_bps c))"

lemma less_pair_if: "(a, b) < (c, d) \<longleftrightarrow> (if a \<noteq> c then a < c else b < d)"
  for a c :: "'a::linorder" and b d :: "'b::linorder"
  by auto

lemma uint_descending:
  "- uint a < - uint b \<longleftrightarrow> a > b" "- uint a = - uint b \<longleftrightarrow> a = b" for a b :: "'a::len word"
  by (simp_all add: word_less_def word_uint_eq_iff)

lemma three_way_if:
  "(if (if x < y then - 1 else if x = y then 0 else 1) \<noteq> (0 :: int)
    then (if x < y then - 1 else if x = y then 0 else 1) < (0 :: int) else r) = (if x \<noteq> y then x < y else r)"
  for x y :: "'a::linorder"
  by auto

lemma compare_ranked_iff: "compare_ranked_candidates sha256d seed a b \<longleftrightarrow> rank_key sha256d seed a < rank_key sha256d seed b"
proof -
  let ?h = "\<lambda>c. finalized_committee_candidate_hash sha256d seed (selection_id_of c)"
  let ?k = "\<lambda>c. scaled (unat (hash64_prefix (?h c))) (unat (candidate_strength c))"
  have cmp: "compare_mul_u64 (hash64_prefix (?h a)) (candidate_strength b) (hash64_prefix (?h b)) (candidate_strength a)
    = (if ?k a < ?k b then - 1 else if ?k a = ?k b then 0 else 1)"
    using scaled_cmp [OF candidate_strength_pos [of a] candidate_strength_pos [of b]] compare_mul_exact by simp
  show ?thesis
    unfolding compare_ranked_candidates_def rank_key_def Let_def cmp less_pair_if uint_descending three_way_if ..
qed

lemma rank_is_sort_key:
  "rank_finalized_committee_candidates sha256d cs seed = sort_key (rank_key sha256d seed) cs"
  unfolding rank_finalized_committee_candidates_def by (rule sort_by_key) (rule compare_ranked_iff)

lemma sort_key_map_key: "map f (sort_key f xs) = sort (map f xs)"
  by (rule properties_for_sort [symmetric]) simp_all

lemma key_pubkey: "cc_pubkey c = (\<lambda>(s, h, i, p, r). p) (rank_key sha256d seed c)"
  by (simp add: rank_key_def Let_def)

lemma ranked_pubkeys:
  "map cc_pubkey (rank_finalized_committee_candidates sha256d cs seed)
     = map (\<lambda>(s, h, i, p, r). p) (sort (map (rank_key sha256d seed) cs))"
proof -
  have "map cc_pubkey xs = map (\<lambda>(s, h, i, p, r). p) (map (rank_key sha256d seed) xs)" for xs
    unfolding map_map o_def by (rule map_cong [OF refl]) (rule key_pubkey)
  then show ?thesis by (simp only: rank_is_sort_key sort_key_map_key)
qed

lemma select_eq:
  "select_finalized_committee sha256d cs seed k
     = take k (map (\<lambda>(s, h, i, p, r). p) (sort (map (rank_key sha256d seed) cs)))"
proof -
  have "take (min k (length xs)) xs = take k xs" for xs :: "FinalizedCommitteeCandidate list"
    by (cases "k \<le> length xs") simp_all
  then have "select_finalized_committee sha256d cs seed k
      = take k (map cc_pubkey (rank_finalized_committee_candidates sha256d cs seed))"
    by (auto simp: select_finalized_committee_def Let_def take_map rank_finalized_committee_candidates_def sort_by_def)
  then show ?thesis by (simp only: ranked_pubkeys)
qed

lemma mset_ranked: "mset (rank_finalized_committee_candidates sha256d cs seed) = mset cs"
  by (simp add: rank_is_sort_key)

subsection \<open>Leaders\<close>

lemma checkpoint_ticket_some: "\<exists>t. checkpoint_best_ticket_for_member sha256d validators cp i = Some t
    \<and> bt_validator_pubkey t = cp_ordered_members cp ! i"
proof -
  have "best_epoch_ticket_for_operator_id sha256d e a op sh EPOCH_TICKET_MAX_NONCE \<noteq> None" for e a op sh
  proof (cases "e = 0")
    case True
    then show ?thesis by (simp add: best_epoch_ticket_for_operator_id_def)
  next
    case False
    have m: "EPOCH_TICKET_MAX_NONCE \<noteq> u64_max" by (simp add: EPOCH_TICKET_MAX_NONCE_def)
    from ticket_search_ends [OF m refl, of 0 "candidate_ticket sha256d e a op sh" None] False
    show ?thesis by (auto simp: best_epoch_ticket_for_operator_id_def)
  qed
  then obtain r where r: "best_epoch_ticket_for_operator_id sha256d (cp_epoch_start_height cp) (cp_epoch_seed cp)
      (checkpoint_member_operator_id validators cp i) (cp_epoch_start_height cp) EPOCH_TICKET_MAX_NONCE = Some r"
    by blast
  show ?thesis by (cases r) (simp_all add: checkpoint_best_ticket_for_member_def Let_def r)
qed

lemma those_map_some: "(\<And>x. x \<in> set xs \<Longrightarrow> f x = Some (g x)) \<Longrightarrow> those (map f xs) = Some (map g xs)"
  by (induction xs) auto

lemma winners_some:
  "\<exists>ws. checkpoint_winners sha256d validators cp = Some ws \<and> map bt_validator_pubkey ws = cp_ordered_members cp"
proof -
  let ?g = "\<lambda>i. the (checkpoint_best_ticket_for_member sha256d validators cp i)"
  have g: "checkpoint_best_ticket_for_member sha256d validators cp i = Some (?g i)"
    "bt_validator_pubkey (?g i) = cp_ordered_members cp ! i" for i
    using checkpoint_ticket_some [of sha256d validators cp i] by auto
  have "checkpoint_winners sha256d validators cp = Some (map ?g [0..<length (cp_ordered_members cp)])"
    unfolding checkpoint_winners_def by (rule those_map_some) (rule g(1))
  moreover have "map bt_validator_pubkey (map ?g [0..<length (cp_ordered_members cp)]) = cp_ordered_members cp"
    by (simp add: g(2) o_def map_nth)
  ultimately show ?thesis by blast
qed

lemma schedule_some:
  "\<exists>s. proposer_schedule_from_checkpoint sha256d validators cp h = Some s \<and> mset s = mset (cp_ordered_members cp)"
proof -
  obtain ws where ws: "checkpoint_winners sha256d validators cp = Some ws" "map bt_validator_pubkey ws = cp_ordered_members cp"
    using winners_some by blast
  have "mset (proposer_schedule_from_committee sha256d ws seed) = mset (map bt_validator_pubkey ws)" for seed
    unfolding proposer_schedule_from_committee_def by (simp add: multiset.map_comp o_def)
  with ws show ?thesis by (simp add: proposer_schedule_from_checkpoint_def)
qed

text \<open>A window of \<open>n\<close> consecutive numbers meets every residue modulo \<open>n\<close>.\<close>

lemma window_residue:
  fixes n start i :: nat
  assumes "i < n"
  shows "\<exists>r. start \<le> r \<and> r < start + n \<and> r mod n = i"
proof -
  let ?r = "start + (i + n - start mod n) mod n"
  have "?r mod n = (start + (i + n - start mod n)) mod n" by (simp add: mod_add_right_eq)
  also have "start + (i + n - start mod n) = i + n + (start div n) * n"
    using div_mult_mod_eq [of start n] mod_less_divisor [of n start] assms by linarith
  also have "\<dots> mod n = i" using assms by simp
  finally show ?thesis using assms by (intro exI [of _ ?r]) simp
qed

lemma leader_low_round:
  assumes "height \<noteq> 0" "map_of cps (committee_epoch_start height eb) = Some cp"
    and n: "n = length (cp_ordered_members cp)" "n < 4294967296" and p: "p \<in> set (cp_ordered_members cp)"
  shows "\<exists>r. unat r < n \<and> canonical_leader_for_height_round sha256d vs cps eb height r = Some (Some p)"
proof -
  obtain s where s: "proposer_schedule_from_checkpoint sha256d vs cp height = Some s" "mset s = mset (cp_ordered_members cp)"
    using schedule_some by blast
  have len: "length s = n" using s(2) n(1) by (metis size_mset)
  have "p \<in> set s" using p s(2) by (metis set_mset_mset)
  then obtain i where i: "i < n" "s ! i = p" unfolding len [symmetric] by (metis in_set_conv_nth)
  let ?r = "word_of_nat i :: u32"
  have r: "unat ?r = i" using i(1) n(2) by (intro unat_of_nat_u32) linarith
  have "?r < word_of_nat n" using i(1) n(2) r by (simp add: word_less_nat_alt unat_of_nat_u32)
  then have "checkpoint_ticket_pow_fallback_member_for_round cp ?r = None"
    by (simp add: checkpoint_ticket_pow_fallback_member_for_round_def n(1) Let_def)
  moreover have "s \<noteq> []" using len i(1) by auto
  ultimately have "canonical_leader_for_height_round sha256d vs cps eb height ?r = Some (Some p)"
    using assms(1,2) s(1) i len r by (simp add: canonical_leader_for_height_round_def)
  then show ?thesis using r i(1) by (intro exI [of _ ?r]) simp
qed

lemma leader_high_round:
  assumes "height \<noteq> 0" "map_of cps (committee_epoch_start height eb) = Some cp"
    and n: "n = length (cp_ordered_members cp)" "n \<le> start" "start + n < 4294967296"
    and p: "p \<in> set (cp_ordered_members cp)"
  shows "\<exists>r. start \<le> unat r \<and> unat r < start + n
    \<and> canonical_leader_for_height_round sha256d vs cps eb height r = Some (Some p)"
proof -
  define ranked where
    "ranked = sort_key (\<lambda>i. (ticket_hash_at cp i, ticket_nonce_at cp i, cp_ordered_members cp ! i)) [0..<n]"
  have ranked: "set ranked = {0..<n}" "length ranked = n" by (simp_all add: ranked_def)
  obtain j where j: "j < n" "cp_ordered_members cp ! j = p" using p unfolding n(1) by (metis in_set_conv_nth)
  have "j \<in> set ranked" using j(1) ranked by simp
  then obtain i where i: "i < length ranked" "ranked ! i = j" unfolding in_set_conv_nth by blast
  have "i < n" using i(1) ranked by simp
  then obtain q where q: "start - n \<le> q" "q < start - n + n" "q mod n = i" using window_residue by blast
  define w :: u32 where "w = word_of_nat (q + n)"
  define m :: u32 where "m = word_of_nat n"
  have bound: "q + n < 4294967296" using q n by linarith
  have r: "unat w = q + n" unfolding w_def using bound by (rule unat_of_nat_u32)
  have un: "unat m = n" unfolding m_def using n by (intro unat_of_nat_u32) linarith
  have "\<not> w < m" by (simp add: word_less_nat_alt r un)
  moreover have "unat (w - m) = q"
    using un r by (simp add: unat_sub_if_size)
  ultimately have "checkpoint_ticket_pow_fallback_member_for_round cp w = Some p"
    using j p q(3) i(2) n(1)
    unfolding checkpoint_ticket_pow_fallback_member_for_round_def Let_def n(1) [symmetric] ranked_def [symmetric] m_def [symmetric]
    by (auto simp: ranked)
  then have "canonical_leader_for_height_round sha256d vs cps eb height w = Some (Some p)"
    using assms(1,2) by (simp add: canonical_leader_for_height_round_def)
  moreover have "start \<le> q + n" "q + n < start + n" using q n(2) by linarith+
  ultimately show ?thesis using r by (intro exI [of _ w]) simp
qed

subsection \<open>The properties of committees\<close>

text \<open>
  C35. The committee of a height does not depend on the round, the ticket fallback included: it is the
  member list of the checkpoint of the height's epoch, so quorums of different rounds of one height are
  quorums of one committee.
\<close>

theorem committee_round_independent:
  "checkpoint_committee_for_round cp r = cp_ordered_members cp
   \<and> canonical_committee_for_height_round cps epoch_blocks height r
     = canonical_committee_for_height_round cps epoch_blocks height r'"
  by (simp add: canonical_committee_for_height_round_def committee_for_round split: option.split)

text \<open>
  C36. Committee selection is a function of the multiset of candidates: nodes that collected them in
  different orders select the same members in the same order. It returns as many members as asked for or
  available, all of them candidates, and a smaller committee is a prefix of a larger one.
\<close>

theorem selection_deterministic:
  assumes "mset cs = mset ds"
  shows "select_finalized_committee sha256d cs seed k = select_finalized_committee sha256d ds seed k
    \<and> length (select_finalized_committee sha256d cs seed k) = min k (length cs)
    \<and> mset (select_finalized_committee sha256d cs seed (length cs)) = image_mset cc_pubkey (mset cs)
    \<and> (j \<le> k \<longrightarrow> select_finalized_committee sha256d cs seed j = take j (select_finalized_committee sha256d cs seed k))"
proof -
  have "sort (map (rank_key sha256d seed) cs) = sort (map (rank_key sha256d seed) ds)"
    using assms by (intro properties_for_sort) simp_all
  moreover have "mset (select_finalized_committee sha256d cs seed (length cs)) = image_mset cc_pubkey (mset cs)"
    using mset_ranked [of sha256d cs seed] mset_eq_length [OF mset_ranked [of sha256d cs seed]]
    by (simp add: select_eq ranked_pubkeys [symmetric])
  ultimately show ?thesis using mset_eq_length [OF assms] by (simp add: select_eq min.commute)
qed

definition demo_candidate :: "u8 \<Rightarrow> u64 \<Rightarrow> FinalizedCommitteeCandidate" where
  "demo_candidate p w = \<lparr>cc_pubkey = [p], cc_selection_id = zero_pubkey, cc_bonded_amount = 100, cc_capped_bonded_amount = 100,
     cc_effective_weight = w, cc_ticket_work_hash = [], cc_ticket_nonce = 0, cc_ticket_bonus_bps = 0, cc_ticket_bonus_cap_bps = 0\<rparr>"

theorem selection_deterministic_witness:
  "select_finalized_committee (\<lambda>b. take 32 (rev b)) [demo_candidate 1 5, demo_candidate 2 9] [] 1
   = select_finalized_committee (\<lambda>b. take 32 (rev b)) [demo_candidate 2 9, demo_candidate 1 5] [] 1"
  using selection_deterministic [of "[demo_candidate 1 5, demo_candidate 2 9]" "[demo_candidate 2 9, demo_candidate 1 5]"
      "\<lambda>b. take 32 (rev b)" "[]" 1 1] by (simp add: add_mset_commute)

text \<open>
  C37. Every committee member gets to lead: once among the first \<open>n\<close> rounds of a height, and again in every
  window of \<open>n\<close> consecutive rounds after them, for a committee of \<open>n\<close> members (the round counter not wrapping).
\<close>

theorem every_member_leads:
  assumes "height \<noteq> 0" and "map_of cps (committee_epoch_start height epoch_blocks) = Some cp"
    and "n = length (cp_ordered_members cp)" and "p \<in> set (cp_ordered_members cp)" and "start + n < 2 ^ 32"
    and "start = 0 \<or> n \<le> start"
  shows "\<exists>r. start \<le> unat r \<and> unat r < start + n
    \<and> canonical_leader_for_height_round sha256d vs cps epoch_blocks height r = Some (Some p)"
  using assms leader_low_round [OF assms(1,2,3) _ assms(4), of sha256d vs]
    leader_high_round [OF assms(1,2,3) _ _ assms(4), of start sha256d vs] by auto

definition demo_checkpoint :: FinalizedCommitteeCheckpoint where
  "demo_checkpoint = \<lparr>cp_epoch_start_height = 1, cp_epoch_seed = zero_hash, cp_ticket_difficulty_bits = 8,
     cp_derivation_mode = NORMAL, cp_fallback_reason = FALLBACK_NONE, cp_availability_eligible_operator_count = 0,
     cp_availability_min_eligible_operators = 0, cp_adaptive_target_committee_size = 0, cp_adaptive_min_eligible = 0,
     cp_adaptive_min_bond = 0, cp_qualified_depth = 0, cp_target_expand_streak = 0, cp_target_contract_streak = 0,
     cp_ordered_members = [[1], [2], [3]], cp_ordered_operator_ids = [], cp_ordered_base_weights = [],
     cp_ordered_ticket_bonus_bps = [], cp_ordered_final_weights = [], cp_ordered_ticket_hashes = [[5], [4], [6]],
     cp_ordered_ticket_nonces = [0, 0, 0], cp_ordered_bls_keys = []\<rparr>"

theorem every_member_leads_witness:
  "\<exists>r. 7 \<le> unat r \<and> unat r < 10
    \<and> canonical_leader_for_height_round (\<lambda>b. b) [] [(1, demo_checkpoint)] 32 5 r = Some (Some [2])"
  using every_member_leads [of 5 "[(1, demo_checkpoint)]" 32 demo_checkpoint 3 "[2]" 7 "\<lambda>b. b" "[]"]
  by (simp add: committee_epoch_start_def demo_checkpoint_def)

end
