(* ===== verification/Hardening.thy ===== *)
theory Hardening
  imports Finalis_Prelude "HOL-Library.Char_ord"
begin

text \<open>
  Peer hardening (\<^verbatim>\<open>src/src/p2p/hardening.cpp\<close>): the bounded caches of verified votes and of recent hashes,
  and the misbehaviour score and bans of peers. \<^verbatim>\<open>TokenBucket\<close> computes with \<^verbatim>\<open>double\<close>s and is not modelled; its
  outcome is an input of the handlers that call it.
\<close>

subsection \<open>Bounded first-in first-out caches\<close>

text \<open>
  \<^verbatim>\<open>VoteVerifyCache\<close> and \<^verbatim>\<open>RecentHashCache\<close> share their code: the keys \<^verbatim>\<open>seen_\<close> and their insertion
  \<^verbatim>\<open>order_\<close>, oldest first.
\<close>

record 'k fifo_cache =
  fc_capacity :: nat
  fc_seen :: "('k, bool) omap"
  fc_order :: "'k list"

definition fc_new :: "nat \<Rightarrow> 'k fifo_cache" where
  "fc_new capacity = \<lparr>fc_capacity = (if capacity \<noteq> 0 then capacity else 1), fc_seen = [], fc_order = []\<rparr>"

definition fc_contains :: "'k fifo_cache \<Rightarrow> 'k \<Rightarrow> bool" where
  "fc_contains c key \<longleftrightarrow> map_of (fc_seen c) key \<noteq> None"

fun fc_trim :: "nat \<Rightarrow> ('k, bool) omap \<Rightarrow> 'k list \<Rightarrow> ('k, bool) omap \<times> 'k list" where
  "fc_trim capacity seen [] = (seen, [])"
| "fc_trim capacity seen (k # ks) =
     (if length (k # ks) > capacity then fc_trim capacity (omap_del k seen) ks else (seen, k # ks))"

definition fc_insert :: "'k::linorder \<Rightarrow> 'k fifo_cache \<Rightarrow> 'k fifo_cache" where
  "fc_insert key c =
     (if map_of (fc_seen c) key \<noteq> None then c
      else let (seen, order) = fc_trim (fc_capacity c) (omap_upd key True (fc_seen c)) (fc_order c @ [key])
           in c\<lparr>fc_seen := seen, fc_order := order\<rparr>)"

type_synonym verify_key = "u64 \<times> u32 \<times> hash32 \<times> pubkey32"

fun fc_drop_below :: "u64 \<Rightarrow> (verify_key, bool) omap \<Rightarrow> verify_key list \<Rightarrow> (verify_key, bool) omap \<times> verify_key list" where
  "fc_drop_below height seen [] = (seen, [])"
| "fc_drop_below height seen (k # ks) =
     (if fst k \<ge> height then (seen, k # ks) else fc_drop_below height (omap_del k seen) ks)"

definition fc_clear_height :: "u64 \<Rightarrow> verify_key fifo_cache \<Rightarrow> verify_key fifo_cache" where
  "fc_clear_height height c =
     (let (seen, order) = fc_drop_below height (fc_seen c) (fc_order c) in c\<lparr>fc_seen := seen, fc_order := order\<rparr>)"

definition fc_clear :: "'k fifo_cache \<Rightarrow> 'k fifo_cache" where
  "fc_clear c = c\<lparr>fc_seen := [], fc_order := []\<rparr>"

definition fc_ok :: "'k::linorder fifo_cache \<Rightarrow> bool" where
  "fc_ok c \<longleftrightarrow> omap_ok (fc_seen c) \<and> distinct (fc_order c) \<and> (\<forall>k. fc_contains c k \<longleftrightarrow> k \<in> set (fc_order c))
     \<and> length (fc_order c) \<le> fc_capacity c \<and> 0 < fc_capacity c"

lemma fc_trim_spec:
  assumes "distinct order" "omap_ok seen" "\<And>k. map_of seen k \<noteq> None \<longleftrightarrow> k \<in> set order"
    and "fc_trim capacity seen order = (seen', order')"
  shows "omap_ok seen' \<and> distinct order' \<and> (\<forall>k. map_of seen' k \<noteq> None \<longleftrightarrow> k \<in> set order')
    \<and> length order' = min capacity (length order) \<and> order' = drop (length order - min capacity (length order)) order"
  using assms
proof (induction capacity seen order arbitrary: seen' order' rule: fc_trim.induct)
  case (2 capacity seen k ks)
  show ?case
  proof (cases "length (k # ks) > capacity")
    case True
    have "map_of (omap_del k seen) j \<noteq> None \<longleftrightarrow> j \<in> set ks" for j
      using 2(2) 2(4) [of j] by auto
    from 2(1) [OF True _ _ this] 2(2,3,5) True
    have *: "omap_ok seen' \<and> distinct order' \<and> (\<forall>k. map_of seen' k \<noteq> None \<longleftrightarrow> k \<in> set order')
      \<and> length order' = min capacity (length ks) \<and> order' = drop (length ks - min capacity (length ks)) ks" by simp
    moreover have "drop (length (k # ks) - min capacity (length (k # ks))) (k # ks)
        = drop (length ks - min capacity (length ks)) ks"
      "min capacity (length (k # ks)) = min capacity (length ks)" using True by (auto simp: Suc_diff_le)
    ultimately show ?thesis by metis
  next
    case False
    then show ?thesis using 2(2-5) by auto
  qed
qed auto

lemma fc_new_ok: "fc_ok (fc_new capacity)"
  by (simp add: fc_ok_def fc_new_def fc_contains_def)

lemma fc_ok_key: "fc_ok c \<Longrightarrow> k \<in> set (fc_order c) \<longleftrightarrow> map_of (fc_seen c) k \<noteq> None"
  by (simp add: fc_ok_def fc_contains_def)

lemma fc_insert_ok:
  assumes "fc_ok c"
  shows "fc_ok (fc_insert key c)"
proof (cases "map_of (fc_seen c) key = None")
  case True
  obtain seen order where t: "fc_trim (fc_capacity c) (omap_upd key True (fc_seen c)) (fc_order c @ [key]) = (seen, order)"
    by fastforce
  have "distinct (fc_order c @ [key])" "omap_ok (omap_upd key True (fc_seen c))"
    "\<And>k. map_of (omap_upd key True (fc_seen c)) k \<noteq> None \<longleftrightarrow> k \<in> set (fc_order c @ [key])"
    using assms fc_ok_key [OF assms, of key] True fc_ok_key [OF assms] by (auto simp: fc_ok_def)
  from fc_trim_spec [OF this t] have spec: "omap_ok seen" "distinct order" "\<And>k. map_of seen k \<noteq> None \<longleftrightarrow> k \<in> set order"
    "length order \<le> fc_capacity c" by (blast, blast, blast, metis min.cobounded1)
  have "0 < fc_capacity c" using assms by (simp add: fc_ok_def)
  with spec show ?thesis unfolding fc_insert_def fc_ok_def fc_contains_def by (simp add: True t)
qed (use assms in \<open>simp add: fc_insert_def\<close>)

text \<open>Nothing enters a cache but by insertion.\<close>

lemma fc_trim_sub: "fc_trim n seen order = (seen', order') \<Longrightarrow> map_of seen' k \<noteq> None \<Longrightarrow> map_of seen k \<noteq> None"
  by (induction n seen order arbitrary: seen' order' rule: fc_trim.induct) (auto split: if_splits)

lemma fc_contains_insert: "fc_contains (fc_insert key c) k \<Longrightarrow> k = key \<or> fc_contains c k"
  by (auto simp: fc_insert_def fc_contains_def split: if_splits prod.splits dest!: fc_trim_sub)

lemma fc_insert_contains:
  assumes "fc_ok c"
  shows "fc_contains (fc_insert key c) key"
proof (cases "map_of (fc_seen c) key = None")
  case True
  obtain seen order where t: "fc_trim (fc_capacity c) (omap_upd key True (fc_seen c)) (fc_order c @ [key]) = (seen, order)"
    by fastforce
  have pre: "distinct (fc_order c @ [key])" "omap_ok (omap_upd key True (fc_seen c))"
    "\<And>k. map_of (omap_upd key True (fc_seen c)) k \<noteq> None \<longleftrightarrow> k \<in> set (fc_order c @ [key])"
    using assms fc_ok_key [OF assms, of key] True fc_ok_key [OF assms] by (auto simp: fc_ok_def)
  have len: "length (fc_order c @ [key]) - min (fc_capacity c) (length (fc_order c @ [key])) \<le> length (fc_order c)"
    using assms by (auto simp: fc_ok_def)
  from fc_trim_spec [OF pre t] have spec: "\<And>k. map_of seen k \<noteq> None \<longleftrightarrow> k \<in> set order"
    "order = drop (length (fc_order c @ [key]) - min (fc_capacity c) (length (fc_order c @ [key]))) (fc_order c @ [key])"
    by (blast, blast)
  have "key \<in> set order" using spec(2) len by simp
  then have "map_of seen key \<noteq> None" using spec(1) by blast
  then show ?thesis unfolding fc_insert_def fc_contains_def by (simp add: True t)
qed (use assms in \<open>simp add: fc_insert_def fc_contains_def\<close>)

lemma fc_drop_sub: "fc_drop_below h seen order = (seen', order') \<Longrightarrow> map_of seen' k \<noteq> None \<Longrightarrow> map_of seen k \<noteq> None"
  by (induction h seen order arbitrary: seen' order' rule: fc_drop_below.induct) (auto split: if_splits)

lemma fc_contains_clear: "fc_contains (fc_clear_height h c) k \<Longrightarrow> fc_contains c k"
  by (auto simp: fc_clear_height_def fc_contains_def split: prod.splits dest!: fc_drop_sub)

subsection \<open>Misbehaviour scores and bans\<close>

datatype MisbehaviorReason =
  INVALID_FRAME | HANDSHAKE_TIMEOUT | PRE_HANDSHAKE_CONSENSUS | INVALID_PAYLOAD | INVALID_INGRESS
| INGRESS_EQUIVOCATION | INVALID_VOTE_SIGNATURE | INVALID_PROPOSE | DUPLICATE_SPAM | RATE_LIMIT

record PeerScoreStatus =
  ps_score :: int
  ps_soft_muted :: bool
  ps_banned :: bool
  ps_ban_until :: u64

record PeerEntry =
  pe_score :: int
  pe_ban_until :: u64
  pe_last_update :: u64
  pe_invalid_frame_strikes :: "u64 list"

record PeerDiscipline =
  pd_soft_mute_score :: int
  pd_ban_score :: int
  pd_ban_seconds :: u64
  pd_invalid_frame_ban_threshold :: int
  pd_invalid_frame_window_seconds :: u64
  pd_entries :: "(string, PeerEntry) omap"

definition int_max :: int where "int_max = 2147483647"

definition pd_new :: "int \<Rightarrow> int \<Rightarrow> u64 \<Rightarrow> int \<Rightarrow> u64 \<Rightarrow> PeerDiscipline" where
  "pd_new soft_mute_score ban_score ban_seconds threshold window =
     \<lparr>pd_soft_mute_score = soft_mute_score, pd_ban_score = ban_score, pd_ban_seconds = ban_seconds,
      pd_invalid_frame_ban_threshold = max 1 threshold, pd_invalid_frame_window_seconds = max 1 window, pd_entries = []\<rparr>"

fun reason_score :: "MisbehaviorReason \<Rightarrow> int" where
  "reason_score INVALID_FRAME = 35"
| "reason_score HANDSHAKE_TIMEOUT = 1"
| "reason_score PRE_HANDSHAKE_CONSENSUS = 20"
| "reason_score INVALID_PAYLOAD = 15"
| "reason_score INVALID_INGRESS = 18"
| "reason_score INGRESS_EQUIVOCATION = 30"
| "reason_score INVALID_VOTE_SIGNATURE = 20"
| "reason_score INVALID_PROPOSE = 20"
| "reason_score DUPLICATE_SPAM = 2"
| "reason_score RATE_LIMIT = 5"

definition empty_entry :: PeerEntry where
  "empty_entry = \<lparr>pe_score = 0, pe_ban_until = 0, pe_last_update = 0, pe_invalid_frame_strikes = []\<rparr>"

text \<open>\<^verbatim>\<open>static_cast<int>(elapsed / 30)\<close> keeps the low 32 bits.\<close>

definition decay_of :: "u64 \<Rightarrow> int" where
  "decay_of elapsed = sint (ucast (elapsed div 30) :: 32 word)"

definition decay_score :: "u64 \<Rightarrow> PeerEntry \<Rightarrow> PeerEntry" where
  "decay_score now_unix e =
     (if pe_last_update e > 0 \<and> now_unix > pe_last_update e then
        let d = decay_of (now_unix - pe_last_update e)
        in if d > 0 then e\<lparr>pe_score := max 0 (pe_score e - d)\<rparr> else e
      else e)"

definition add_points :: "PeerDiscipline \<Rightarrow> MisbehaviorReason \<Rightarrow> u64 \<Rightarrow> PeerEntry \<Rightarrow> PeerEntry" where
  "add_points pd reason now_unix e =
     (if reason = INVALID_FRAME then
        let strikes = dropWhile (\<lambda>s. s + pd_invalid_frame_window_seconds pd < now_unix)
                        (pe_invalid_frame_strikes e @ [now_unix]);
            e = e\<lparr>pe_invalid_frame_strikes := strikes\<rparr>
        in if int (length strikes) \<ge> pd_invalid_frame_ban_threshold pd then
             (if int (length strikes) = pd_invalid_frame_ban_threshold pd
              then e\<lparr>pe_score := min int_max (pe_score e + reason_score reason * pd_invalid_frame_ban_threshold pd)\<rparr>
              else e\<lparr>pe_score := min int_max (pe_score e + reason_score reason)\<rparr>)
           else e
      else e\<lparr>pe_score := min int_max (pe_score e + reason_score reason)\<rparr>)"

definition pd_status :: "PeerDiscipline \<Rightarrow> string \<Rightarrow> u64 \<Rightarrow> PeerScoreStatus" where
  "pd_status pd ip now_unix =
     (case map_of (pd_entries pd) ip of
        None \<Rightarrow> \<lparr>ps_score = 0, ps_soft_muted = False, ps_banned = False, ps_ban_until = 0\<rparr>
      | Some e \<Rightarrow> \<lparr>ps_score = pe_score e, ps_soft_muted = pe_score e \<ge> pd_soft_mute_score pd,
                    ps_banned = now_unix < pe_ban_until e, ps_ban_until = pe_ban_until e\<rparr>)"

definition pd_add_score :: "string \<Rightarrow> MisbehaviorReason \<Rightarrow> u64 \<Rightarrow> PeerDiscipline \<Rightarrow> PeerScoreStatus \<times> PeerDiscipline" where
  "pd_add_score ip reason now_unix pd =
     (let e = (case map_of (pd_entries pd) ip of None \<Rightarrow> empty_entry | Some e \<Rightarrow> e);
          e = (decay_score now_unix e)\<lparr>pe_last_update := now_unix\<rparr>;
          e = add_points pd reason now_unix e;
          e = (if pe_score e \<ge> pd_ban_score pd
               then e\<lparr>pe_ban_until := max (pe_ban_until e) (now_unix + pd_ban_seconds pd)\<rparr> else e);
          pd = pd\<lparr>pd_entries := omap_upd ip e (pd_entries pd)\<rparr>
      in (pd_status pd ip now_unix, pd))"

definition pd_is_banned :: "PeerDiscipline \<Rightarrow> string \<Rightarrow> u64 \<Rightarrow> bool" where
  "pd_is_banned pd ip now_unix =
     (case map_of (pd_entries pd) ip of None \<Rightarrow> False | Some e \<Rightarrow> now_unix < pe_ban_until e)"

definition decay_entry :: "u64 \<Rightarrow> PeerEntry \<Rightarrow> PeerEntry" where
  "decay_entry now_unix e =
     (if pe_last_update e \<noteq> 0 \<and> now_unix > pe_last_update e then
        let d = decay_of (now_unix - pe_last_update e)
        in if d > 0 then e\<lparr>pe_score := max 0 (pe_score e - d), pe_last_update := now_unix\<rparr> else e
      else e)"

definition pd_decay :: "u64 \<Rightarrow> PeerDiscipline \<Rightarrow> PeerDiscipline" where
  "pd_decay now_unix pd =
     pd\<lparr>pd_entries := filter (\<lambda>(ip, e). \<not> (pe_score e = 0 \<and> now_unix \<ge> pe_ban_until e))
          (map (\<lambda>(ip, e). (ip, decay_entry now_unix e)) (pd_entries pd))\<rparr>"

subsection \<open>A ban lasts\<close>

lemma ban_until_kept [simp]:
  "pe_ban_until (decay_score t e) = pe_ban_until e" "pe_ban_until (decay_entry t e) = pe_ban_until e"
  "pe_ban_until (add_points pd reason t e) = pe_ban_until e"
  by (simp_all add: decay_score_def decay_entry_def add_points_def Let_def)

inductive pd_step :: "u64 \<Rightarrow> PeerDiscipline \<Rightarrow> PeerDiscipline \<Rightarrow> bool" where
  pd_score: "pd_step t pd (snd (pd_add_score ip reason t pd))"
| pd_dec: "pd_step t pd (pd_decay t pd)"

lemma pd_step_keeps_ban:
  assumes "pd_step t pd pd'" and "omap_ok (pd_entries pd)"
    and "map_of (pd_entries pd) ip = Some e" and "t < pe_ban_until e"
  shows "omap_ok (pd_entries pd') \<and> (\<exists>e'. map_of (pd_entries pd') ip = Some e' \<and> pe_ban_until e \<le> pe_ban_until e')"
  using assms
proof (induction rule: pd_step.induct)
  case (pd_score t pd ip' reason)
  then show ?case by (auto simp: pd_add_score_def Let_def)
next
  case (pd_dec t pd)
  let ?m = "map (\<lambda>(ip, e). (ip, decay_entry t e)) (pd_entries pd)"
  have ok: "omap_ok ?m" using pd_dec(1) by (simp add: omap_ok_def case_prod_unfold o_def)
  have "map_of ?m ip = Some (decay_entry t e)" using pd_dec(2) by (simp add: map_of_map)
  then have "(ip, decay_entry t e) \<in> set ?m" by (rule map_of_SomeD)
  then have "(ip, decay_entry t e) \<in> set (filter (\<lambda>(ip, e). \<not> (pe_score e = 0 \<and> t \<ge> pe_ban_until e)) ?m)"
    using pd_dec(3) unfolding set_filter by (simp add: not_le)
  then have "(ip, decay_entry t e) \<in> set (pd_entries (pd_decay t pd))" unfolding pd_decay_def by simp
  moreover have ok': "omap_ok (pd_entries (pd_decay t pd))" unfolding pd_decay_def using ok by simp
  ultimately have "map_of (pd_entries (pd_decay t pd)) ip = Some (decay_entry t e)"
    using omap_in_set [OF ok', of ip "decay_entry t e"] by blast
  with ok' show ?case by simp
qed

text \<open>A run of the discipline, every call at a time before \<open>horizon\<close>.\<close>

inductive pd_run :: "u64 \<Rightarrow> PeerDiscipline \<Rightarrow> PeerDiscipline \<Rightarrow> bool" for horizon :: u64 where
  pd_refl: "pd_run horizon pd pd"
| pd_trans: "pd_run horizon pd pd' \<Longrightarrow> pd_step t pd' pd'' \<Longrightarrow> t < horizon \<Longrightarrow> pd_run horizon pd pd''"

lemma pd_run_keeps_ban:
  assumes "pd_run horizon pd pd'" and "omap_ok (pd_entries pd)"
    and "map_of (pd_entries pd) ip = Some e" and "horizon \<le> pe_ban_until e"
  shows "omap_ok (pd_entries pd') \<and> (\<exists>e'. map_of (pd_entries pd') ip = Some e' \<and> horizon \<le> pe_ban_until e')"
  using assms
proof (induction rule: pd_run.induct)
  case (pd_refl pd)
  then show ?case by blast
next
  case (pd_trans pd pd' t pd'')
  from pd_trans.IH [OF pd_trans.prems] obtain e' where ok: "omap_ok (pd_entries pd')"
    and e': "map_of (pd_entries pd') ip = Some e'" and le: "horizon \<le> pe_ban_until e'" by blast
  from pd_step_keeps_ban [OF pd_trans.hyps(2) ok e' order_less_le_trans [OF pd_trans.hyps(3) le]] le
  show ?case by (meson order_trans)
qed

text \<open>
  C40. A peer whose score reaches the ban threshold is banned for \<^verbatim>\<open>ban_seconds\<close>: whatever calls of
  \<^verbatim>\<open>add_score\<close> and \<^verbatim>\<open>decay\<close> follow before the ban ends, for this peer or others, \<^verbatim>\<open>is_banned\<close> answers yes at
  every time before the end of the ban; decay prunes the entries of other peers and never this one.
\<close>

theorem ban_lasts:
  assumes "omap_ok (pd_entries pd)" and "pd_add_score ip reason now_unix pd = (st, pd')"
    and "ps_score st \<ge> pd_ban_score pd"
    and "pd_run (now_unix + pd_ban_seconds pd) pd' pd''" and "t < now_unix + pd_ban_seconds pd"
  shows "pd_is_banned pd'' ip t"
proof -
  have "omap_ok (pd_entries pd') \<and>
    (\<exists>e. map_of (pd_entries pd') ip = Some e \<and> now_unix + pd_ban_seconds pd \<le> pe_ban_until e)"
    using assms(1-3) by (auto simp: pd_add_score_def pd_status_def Let_def split: if_splits)
  then obtain e where ok: "omap_ok (pd_entries pd')" and e: "map_of (pd_entries pd') ip = Some e"
    and le: "now_unix + pd_ban_seconds pd \<le> pe_ban_until e" by blast
  from pd_run_keeps_ban [OF assms(4) ok e le] assms(5) show ?thesis
    by (auto simp: pd_is_banned_def intro: order_less_le_trans)
qed

theorem ban_lasts_witness:
  "let pd = pd_new 30 100 600 3 60;
       step = (\<lambda>t pd. snd (pd_add_score ''10.0.0.1'' INVALID_FRAME t pd));
       pd3 = step 12 (step 11 (step 10 pd))
   in pd_is_banned (pd_decay 500 pd3) ''10.0.0.1'' 611"
proof -
  let ?pd = "pd_new 30 100 600 3 60"
  let ?step = "\<lambda>t pd. snd (pd_add_score ''10.0.0.1'' INVALID_FRAME t pd)"
  let ?pd2 = "?step 11 (?step 10 ?pd)"
  have ok: "omap_ok (pd_entries ?pd2)" by code_simp
  have score: "ps_score (fst (pd_add_score ''10.0.0.1'' INVALID_FRAME 12 ?pd2)) \<ge> pd_ban_score ?pd2" by code_simp
  have secs: "12 + pd_ban_seconds ?pd2 = 612" by code_simp
  have run: "pd_run (12 + pd_ban_seconds ?pd2) (?step 12 ?pd2) (pd_decay 500 (?step 12 ?pd2))"
    unfolding secs by (rule pd_trans [OF pd_refl pd_dec]) simp
  have "pd_is_banned (pd_decay 500 (?step 12 ?pd2)) ''10.0.0.1'' 611"
    by (rule ban_lasts [OF ok surjective_pairing score run]) (unfold secs, simp)
  then show ?thesis unfolding Let_def .
qed

end
