(* ===== verification/Signing.thy ===== *)
theory Signing
  imports Codec
begin

text \<open>
  The bytes that validators sign (\<^verbatim>\<open>src/src/utxo/validate.cpp\<close>): one domain string per kind of message, the
  chain domain, then the fields. The main result is that no two different messages share their bytes
  before hashing, so that a signature made for one kind, height, round, transition or chain can never
  be presented for another without a hash collision. \<^verbatim>\<open>sha256d\<close> is a parameter.
\<close>

subsection \<open>Chain domains\<close>

definition chain_domain_from_ids :: "(bytes \<Rightarrow> hash32) \<Rightarrow> bytes \<Rightarrow> hash32 \<Rightarrow> hash32" where
  "chain_domain_from_ids sha256d network_id genesis_hash =
     sha256d (wr_bytes (ascii ''SC-CHAIN-DOMAIN-V1'') @ wr_bytes_fixed network_id @ wr_bytes_fixed genesis_hash)"

definition consensus_chain_domain :: "(bytes \<Rightarrow> hash32) \<Rightarrow> bytes \<Rightarrow> string \<Rightarrow> hash32" where
  "consensus_chain_domain sha256d network_id genesis_hash_hex =
     (let genesis_hash = (case hex_decode genesis_hash_hex of
                            Some gh \<Rightarrow> if length gh = 32 then gh else zero_hash
                          | None \<Rightarrow> zero_hash)
      in chain_domain_from_ids sha256d network_id genesis_hash)"

definition chain_domain_from_hex :: "(bytes \<Rightarrow> hash32) \<Rightarrow> string \<Rightarrow> string \<Rightarrow> hash32 option" where
  "chain_domain_from_hex sha256d network_id_hex genesis_hash_hex =
     (case (hex_decode network_id_hex, hex_decode genesis_hash_hex) of
        (Some nid, Some gh) \<Rightarrow>
          if length nid \<noteq> 16 \<or> length gh \<noteq> 32 then None else Some (chain_domain_from_ids sha256d nid gh)
      | _ \<Rightarrow> None)"

definition timed_body_chain_domain :: "(bytes \<Rightarrow> hash32) \<Rightarrow> hash32 \<Rightarrow> hash32" where
  "timed_body_chain_domain sha256d chain_domain = sha256d (ascii ''FINALIS-TIMED-BODY-V1'' @ chain_domain)"

subsection \<open>Messages\<close>

definition vote_signing_message :: "(bytes \<Rightarrow> hash32) \<Rightarrow> hash32 \<Rightarrow> u64 \<Rightarrow> u32 \<Rightarrow> hash32 \<Rightarrow> bytes" where
  "vote_signing_message sha256d chain_domain height round transition_id =
     sha256d (wr_bytes (ascii ''SC-VOTE-V1'') @ wr_bytes_fixed chain_domain @ wr_u64le height @ wr_u32le round
       @ wr_bytes_fixed transition_id)"

definition prevote_signing_message :: "(bytes \<Rightarrow> hash32) \<Rightarrow> hash32 \<Rightarrow> u64 \<Rightarrow> u32 \<Rightarrow> hash32 \<Rightarrow> bytes" where
  "prevote_signing_message sha256d chain_domain height round transition_id =
     sha256d (wr_bytes (ascii ''SC-PREVOTE-V1'') @ wr_bytes_fixed chain_domain @ wr_u64le height @ wr_u32le round
       @ wr_bytes_fixed transition_id)"

definition propose_signing_message ::
  "(bytes \<Rightarrow> hash32) \<Rightarrow> hash32 \<Rightarrow> u64 \<Rightarrow> u32 \<Rightarrow> hash32 \<Rightarrow> u32 option \<Rightarrow> bytes" where
  "propose_signing_message sha256d chain_domain height round transition_id pol_round =
     sha256d (wr_bytes (ascii ''SC-PROPOSE-V1'') @ wr_bytes_fixed chain_domain @ wr_u64le height @ wr_u32le round
       @ wr_bytes_fixed transition_id @ wr_u8 (if pol_round \<noteq> None then 1 else 0)
       @ wr_u32le (case pol_round of None \<Rightarrow> 0 | Some r \<Rightarrow> r))"

definition time_signature_message :: "(bytes \<Rightarrow> hash32) \<Rightarrow> hash32 \<Rightarrow> u64 \<Rightarrow> bytes" where
  "time_signature_message sha256d chain_domain height =
     sha256d (wr_bytes (ascii ''SC-TIMESIG-V1'') @ wr_bytes_fixed chain_domain @ wr_u64le height)"

definition timeout_vote_signing_message :: "(bytes \<Rightarrow> hash32) \<Rightarrow> hash32 \<Rightarrow> u64 \<Rightarrow> u32 \<Rightarrow> bytes" where
  "timeout_vote_signing_message sha256d chain_domain height round =
     sha256d (wr_bytes (ascii ''SC-TIMEOUT-V1'') @ wr_bytes_fixed chain_domain @ wr_u64le height @ wr_u32le round)"

subsection \<open>The kinds of message as one type\<close>

datatype signed_message =
  Vote_Msg u64 u32 hash32
| Prevote_Msg u64 u32 hash32
| Propose_Msg u64 u32 hash32 "u32 option"
| Time_Msg u64
| Timeout_Msg u64 u32

fun message_bytes :: "(bytes \<Rightarrow> hash32) \<Rightarrow> hash32 \<Rightarrow> signed_message \<Rightarrow> bytes" where
  "message_bytes sha256d d (Vote_Msg h r t) = vote_signing_message sha256d d h r t"
| "message_bytes sha256d d (Prevote_Msg h r t) = prevote_signing_message sha256d d h r t"
| "message_bytes sha256d d (Propose_Msg h r t pol) = propose_signing_message sha256d d h r t pol"
| "message_bytes sha256d d (Time_Msg h) = time_signature_message sha256d d h"
| "message_bytes sha256d d (Timeout_Msg h r) = timeout_vote_signing_message sha256d d h r"

text \<open>What is hashed, as domain string and payload.\<close>

fun message_tag :: "signed_message \<Rightarrow> string" where
  "message_tag (Vote_Msg h r t) = ''SC-VOTE-V1''"
| "message_tag (Prevote_Msg h r t) = ''SC-PREVOTE-V1''"
| "message_tag (Propose_Msg h r t pol) = ''SC-PROPOSE-V1''"
| "message_tag (Time_Msg h) = ''SC-TIMESIG-V1''"
| "message_tag (Timeout_Msg h r) = ''SC-TIMEOUT-V1''"

fun message_payload :: "signed_message \<Rightarrow> bytes" where
  "message_payload (Vote_Msg h r t) = wr_u64le h @ wr_u32le r @ t"
| "message_payload (Prevote_Msg h r t) = wr_u64le h @ wr_u32le r @ t"
| "message_payload (Propose_Msg h r t pol) =
     wr_u64le h @ wr_u32le r @ t @ [if pol \<noteq> None then 1 else 0] @ wr_u32le (case pol of None \<Rightarrow> 0 | Some p \<Rightarrow> p)"
| "message_payload (Time_Msg h) = wr_u64le h"
| "message_payload (Timeout_Msg h r) = wr_u64le h @ wr_u32le r"

definition message_preimage :: "hash32 \<Rightarrow> signed_message \<Rightarrow> bytes" where
  "message_preimage d m = ascii (message_tag m) @ d @ message_payload m"

lemma message_bytes_hash: "message_bytes sha256d d m = sha256d (message_preimage d m)"
  by (cases m)
     (simp_all add: message_preimage_def vote_signing_message_def prevote_signing_message_def propose_signing_message_def
        time_signature_message_def timeout_vote_signing_message_def wr_bytes_def wr_bytes_fixed_def wr_u8_def)

lemma u64le_length [simp]: "length (wr_u64le v) = 8" and length_wr_u32le [simp]: "length (wr_u32le w) = 4"
  by (simp_all add: wr_u64le_def wr_u32le_def)

lemma wr_u64le_inject [simp]: "wr_u64le a = wr_u64le b \<longleftrightarrow> a = b" and wr_u32le_inject [simp]: "wr_u32le c = wr_u32le e \<longleftrightarrow> c = e"
  by (simp_all add: c_u64le.enc_inject c_u32le.enc_inject)

lemma payload_inject:
  "message_tag m = message_tag n \<Longrightarrow> message_payload m = message_payload n \<longleftrightarrow> m = n"
proof (cases m; cases n)
  fix h r t pol h' r' t' pol'
  assume mn: "m = Propose_Msg h r t pol" "n = Propose_Msg h' r' t' pol'"
  have "t @ b # wr_u32le x = t' @ b' # wr_u32le x' \<longleftrightarrow> t = t' \<and> b = b' \<and> x = x'" for b b' x x'
  proof
    assume eq: "t @ b # wr_u32le x = t' @ b' # wr_u32le x'"
    then have "length t = length t'" using arg_cong [OF eq, of length] by simp
    with eq show "t = t' \<and> b = b' \<and> x = x'" by simp
  qed simp
  then show "message_payload m = message_payload n \<longleftrightarrow> m = n"
    unfolding mn by (auto split: option.splits if_splits)
qed auto

lemma tag_prefix_free: "ascii (message_tag m) @ a = ascii (message_tag n) @ b \<Longrightarrow> message_tag m = message_tag n"
  by (cases m; cases n) (simp_all add: ascii_def)

lemma message_preimage_inject:
  assumes "length d = length d'" and "message_preimage d m = message_preimage d' n"
  shows "d = d' \<and> m = n"
proof -
  have tag: "message_tag m = message_tag n"
    using assms(2) unfolding message_preimage_def by (rule tag_prefix_free)
  with assms have "d = d'" and "message_payload m = message_payload n"
    by (simp_all add: message_preimage_def)
  with payload_inject [OF tag] show ?thesis by simp
qed

text \<open>
  C38. Signing domains never overlap: the bytes a validator signs are the hash of an encoding that
  determines the chain, the kind of the message and every field of it. A prevote never counts as a
  precommit, a timeout vote never as either, and a vote of one network never on another, unless the two
  different encodings are themselves a collision of the hash function.
\<close>

theorem signing_domains_separate:
  assumes "length d = 32" and "length d' = 32"
  shows "message_bytes sha256d d m = sha256d (message_preimage d m)
    \<and> (message_preimage d m = message_preimage d' n \<longleftrightarrow> d = d' \<and> m = n)"
  using message_preimage_inject [of d d' m n] assms by (auto simp: message_bytes_hash)

theorem signing_domains_separate_witness:
  "message_bytes id zero_hash (Vote_Msg 5 0 zero_hash) \<noteq> message_bytes id zero_hash (Prevote_Msg 5 0 zero_hash)"
  using signing_domains_separate [of zero_hash zero_hash id "Vote_Msg 5 0 zero_hash" "Prevote_Msg 5 0 zero_hash"]
    message_bytes_hash [of id zero_hash "Prevote_Msg 5 0 zero_hash"]
  by (simp del: message_bytes.simps)

end
