(* ===== verification/Safety_Store.thy ===== *)
theory Safety_Store
  imports Tx_Codec Frontier_Codec
begin

text \<open>
  The durable record of a validator's votes (\<^verbatim>\<open>src/src/node/node_consensus.cpp\<close>, \<^verbatim>\<open>node_internal.cpp\<close> and
  \<^verbatim>\<open>node_state.cpp\<close>): the bytes of a safety row and its sealed primary and mirror copies, the database
  that keeps them, and what a restart restores from them.
\<close>

subsection \<open>The bytes of a row\<close>

record ConsensusSafetyState =
  cs_lock :: "(hash32 \<times> u32) option"
  cs_valid_polka :: "QuorumCertificate option"
  cs_prevotes :: "(u32, hash32) omap"

definition serialize_consensus_safety_state :: "ConsensusSafetyState \<Rightarrow> bytes" where
  "serialize_consensus_safety_state st =
     wr_u8 (if cs_lock st \<noteq> None then 1 else 0)
     @ (case cs_lock st of None \<Rightarrow> [] | Some (tid, round) \<Rightarrow> wr_bytes_fixed tid @ wr_u32le round)
     @ wr_u8 (if cs_valid_polka st \<noteq> None then 1 else 0)
     @ (case cs_valid_polka st of
          None \<Rightarrow> []
        | Some polka \<Rightarrow> wr_u64le (qc_height polka) @ wr_u32le (qc_round polka)
            @ wr_bytes_fixed (qc_frontier_transition_id polka) @ wr_vec wr_sig (qc_signatures polka))
     @ wr_varint (word_of_nat (length (cs_prevotes st)))
     @ concat (map (\<lambda>(round, tid). wr_u32le round @ wr_bytes_fixed tid) (cs_prevotes st))"

definition rd_lock :: "(hash32 \<times> u32) option parser" where
  "rd_lock r = do {
     (has_lock, r) \<leftarrow> rd_u8 r;
     if has_lock \<noteq> 0 then do {
       (lock_id, r) \<leftarrow> rd_bytes_fixed 32 r;
       (lock_round, r) \<leftarrow> rd_u32le r;
       Some (Some (lock_id, lock_round), r) }
     else Some (None, r) }"

definition rd_polka :: "QuorumCertificate option parser" where
  "rd_polka r = do {
     (has_polka, r) \<leftarrow> rd_u8 r;
     if has_polka \<noteq> 0 then do {
       (height, r) \<leftarrow> rd_u64le r;
       (round, r) \<leftarrow> rd_u32le r;
       (transition_id, r) \<leftarrow> rd_bytes_fixed 32 r;
       (sigs, r) \<leftarrow> rd_vec (word_of_nat MAX_COMMITTEE) rd_sig r;
       Some (Some \<lparr>qc_height = height, qc_round = round, qc_frontier_transition_id = transition_id,
                   qc_signatures = sigs\<rparr>, r) }
     else Some (None, r) }"

fun rd_prevotes :: "nat \<Rightarrow> (u32, hash32) omap \<Rightarrow> (u32, hash32) omap parser" where
  "rd_prevotes 0 parsed r = Some (parsed, r)"
| "rd_prevotes (Suc n) parsed r = do {
     (round, r) \<leftarrow> rd_u32le r;
     (transition_id, r) \<leftarrow> rd_bytes_fixed 32 r;
     if map_of parsed round \<noteq> None then None
     else rd_prevotes n (omap_upd round transition_id parsed) r }"

definition rd_safety_state :: "ConsensusSafetyState parser" where
  "rd_safety_state r = do {
     (lock, r) \<leftarrow> rd_lock r;
     (polka, r) \<leftarrow> rd_polka r;
     (prevote_count, r) \<leftarrow> rd_varint True r;
     (prevotes, r) \<leftarrow> rd_prevotes (unat prevote_count) [] r;
     Some (\<lparr>cs_lock = lock, cs_valid_polka = polka, cs_prevotes = prevotes\<rparr>, r) }"

definition parse_consensus_safety_state :: "bytes \<Rightarrow> ConsensusSafetyState option" where
  "parse_consensus_safety_state b = parse_exact b rd_safety_state"

subsection \<open>Sealed copies\<close>

definition kConsensusSafetyRowMagic :: bytes where "kConsensusSafetyRowMagic = ascii ''CSF2''"
definition kConsensusSafetyRowVersion :: u8 where "kConsensusSafetyRowVersion = 2"

definition consensus_safety_row_checksum :: "(bytes \<Rightarrow> hash32) \<Rightarrow> bytes \<Rightarrow> bool \<Rightarrow> hash32" where
  "consensus_safety_row_checksum sha256d inner mirror =
     sha256d (wr_bytes (ascii (if mirror then ''SC-CSAFE-MIRROR-V2'' else ''SC-CSAFE-PRIMARY-V2'')) @ wr_varbytes inner)"

definition row_checksum_preimage :: "bytes \<Rightarrow> bool \<Rightarrow> bytes" where
  "row_checksum_preimage inner mirror =
     ascii (if mirror then ''SC-CSAFE-MIRROR-V2'' else ''SC-CSAFE-PRIMARY-V2'') @ wr_varbytes inner"

definition seal_consensus_safety_row :: "(bytes \<Rightarrow> hash32) \<Rightarrow> bytes \<Rightarrow> bool \<Rightarrow> bytes" where
  "seal_consensus_safety_row sha256d inner mirror =
     wr_bytes kConsensusSafetyRowMagic @ wr_u8 kConsensusSafetyRowVersion @ wr_varbytes inner
     @ wr_bytes_fixed (consensus_safety_row_checksum sha256d inner mirror)"

definition has_magic :: "bytes \<Rightarrow> bool" where
  "has_magic row \<longleftrightarrow> length row \<ge> length kConsensusSafetyRowMagic
     \<and> take (length kConsensusSafetyRowMagic) row = kConsensusSafetyRowMagic"

definition rd_sealed :: "(bytes \<Rightarrow> hash32) \<Rightarrow> bool \<Rightarrow> bytes parser" where
  "rd_sealed sha256d mirror r = do {
     (magic, r) \<leftarrow> rd_bytes_fixed 4 r;
     (version, r) \<leftarrow> rd_u8 r;
     (body, r) \<leftarrow> rd_varbytes r;
     (checksum, r) \<leftarrow> rd_bytes_fixed 32 r;
     if version \<noteq> kConsensusSafetyRowVersion then None
     else if checksum \<noteq> consensus_safety_row_checksum sha256d body mirror then None
     else Some (body, r) }"

definition unseal_consensus_safety_row :: "(bytes \<Rightarrow> hash32) \<Rightarrow> bytes \<Rightarrow> bool \<Rightarrow> bytes option" where
  "unseal_consensus_safety_row sha256d row mirror =
     (if \<not> has_magic row then (if mirror then None else Some row)
      else parse_exact row (rd_sealed sha256d mirror))"

definition load_consensus_safety_highwater :: "bytes option \<Rightarrow> u64" where
  "load_consensus_safety_highwater row =
     (case row of
        None \<Rightarrow> 0
      | Some b \<Rightarrow> if length b \<noteq> 8 then 0
                  else foldl (\<lambda>v i. v OR push_bit (8 * i) (ucast (b ! i))) 0 [0..<8])"

subsection \<open>Row round trips\<close>

definition wf_polka :: "QuorumCertificate \<Rightarrow> bool" where
  "wf_polka q \<longleftrightarrow> length (qc_frontier_transition_id q) = 32 \<and> length (qc_signatures q) \<le> MAX_COMMITTEE
     \<and> (\<forall>s \<in> set (qc_signatures q). wf_sig s)"

definition wf_safety_state :: "ConsensusSafetyState \<Rightarrow> bool" where
  "wf_safety_state st \<longleftrightarrow>
     (case cs_lock st of None \<Rightarrow> True | Some (tid, round) \<Rightarrow> length tid = 32)
     \<and> (case cs_valid_polka st of None \<Rightarrow> True | Some q \<Rightarrow> wf_polka q)
     \<and> omap_ok (cs_prevotes st) \<and> (\<forall>(round, tid) \<in> set (cs_prevotes st). length tid = 32)"

lemma omap_upd_append: "\<forall>k' \<in> fst ` set m. k' < k \<Longrightarrow> omap_upd k v m = m @ [(k, v)]"
  by (induction m) auto

lemma rd_prevotes_enc:
  "omap_ok (acc @ xs) \<Longrightarrow> \<forall>(round, tid) \<in> set xs. length tid = 32 \<Longrightarrow>
   rd_prevotes (length xs) acc (mk_reader pre (concat (map (\<lambda>(round, tid). wr_u32le round @ wr_bytes_fixed tid) xs) @ rest))
     = Some (acc @ xs, mk_reader (pre @ concat (map (\<lambda>(round, tid). wr_u32le round @ wr_bytes_fixed tid) xs)) rest)"
proof (induction xs arbitrary: acc pre)
  case (Cons x xs)
  obtain k v where x: "x = (k, v)" by force
  have below: "\<forall>k' \<in> fst ` set acc. k' < k" using Cons(2) unfolding x
    by (auto simp: omap_ok_def sorted_wrt_append)
  have new: "map_of acc k = None" using below by (auto simp: map_of_eq_None_iff)
  have "omap_ok ((acc @ [(k, v)]) @ xs)" using Cons(2) by (simp add: x)
  from Cons.IH [OF this] Cons(3) below new show ?case
    by (simp add: x omap_upd_append)
qed simp

lemma omap_u32_length:
  assumes "omap_ok (m :: (u32, 'v) omap)"
  shows "length m < 18446744073709551616"
proof -
  have "length m = card (fst ` set m)" using omap_ok_distinct [OF assms] by (metis distinct_card length_map set_map)
  also have "\<dots> \<le> card (UNIV :: u32 set)" by (rule card_mono) simp_all
  finally show ?thesis by (simp add: card_word)
qed
interpretation c_safety: wire_enc serialize_consensus_safety_state rd_safety_state wf_safety_state
proof
  fix st pre rest
  assume wf: "wf_safety_state st"
  obtain lock polka prevotes where st: "st = \<lparr>cs_lock = lock, cs_valid_polka = polka, cs_prevotes = prevotes\<rparr>"
    by (cases st) auto
  have lock: "rd_lock (mk_reader p ((wr_u8 (if lock \<noteq> None then 1 else 0)
      @ (case lock of None \<Rightarrow> [] | Some (tid, round) \<Rightarrow> wr_bytes_fixed tid @ wr_u32le round)) @ x))
      = Some (lock, mk_reader (p @ wr_u8 (if lock \<noteq> None then 1 else 0)
      @ (case lock of None \<Rightarrow> [] | Some (tid, round) \<Rightarrow> wr_bytes_fixed tid @ wr_u32le round)) x)" for p x
    using wf by (cases lock) (auto simp: st wf_safety_state_def rd_lock_def)
  have polka: "rd_polka (mk_reader p ((wr_u8 (if polka \<noteq> None then 1 else 0)
      @ (case polka of None \<Rightarrow> [] | Some q \<Rightarrow> wr_u64le (qc_height q) @ wr_u32le (qc_round q)
            @ wr_bytes_fixed (qc_frontier_transition_id q) @ wr_vec wr_sig (qc_signatures q))) @ x))
      = Some (polka, mk_reader (p @ wr_u8 (if polka \<noteq> None then 1 else 0)
      @ (case polka of None \<Rightarrow> [] | Some q \<Rightarrow> wr_u64le (qc_height q) @ wr_u32le (qc_round q)
            @ wr_bytes_fixed (qc_frontier_transition_id q) @ wr_vec wr_sig (qc_signatures q))) x)" for p x
    using wf by (cases polka) (auto simp: st wf_safety_state_def wf_polka_def rd_polka_def MAX_COMMITTEE_def)
  have ok: "omap_ok ([] @ prevotes)" and ids: "\<forall>(round, tid) \<in> set prevotes. length tid = 32"
    using wf by (auto simp: st wf_safety_state_def)
  have len: "unat (word_of_nat (length prevotes) :: u64) = length prevotes"
    using omap_u32_length ok by (intro unat_of_nat_u64) simp
  show "rd_safety_state (mk_reader pre (serialize_consensus_safety_state st @ rest))
      = Some (st, mk_reader (pre @ serialize_consensus_safety_state st) rest)"
    unfolding serialize_consensus_safety_state_def rd_safety_state_def st
    using lock polka rd_prevotes_enc [OF ok ids] len by simp
qed

lemma wr_bytes_magic: "wr_bytes kConsensusSafetyRowMagic = wr_bytes_fixed kConsensusSafetyRowMagic"
  by (simp add: wr_bytes_def wr_bytes_fixed_def)

lemma length_magic [simp]: "length kConsensusSafetyRowMagic = 4"
  by (simp add: kConsensusSafetyRowMagic_def)

lemma seal_magic: "has_magic (seal_consensus_safety_row sha256d inner mirror)"
  by (simp add: has_magic_def seal_consensus_safety_row_def wr_bytes_def)

lemma unseal_seal:
  assumes "\<And>b. length (sha256d b) = 32" and "length inner < 18446744073709551616"
  shows "unseal_consensus_safety_row sha256d (seal_consensus_safety_row sha256d inner mirror) mirror = Some inner"
  using assms seal_magic
  by (simp add: unseal_consensus_safety_row_def parse_exact_mk_reader rd_sealed_def seal_consensus_safety_row_def
      wr_bytes_magic consensus_safety_row_checksum_def)

lemma unseal_inv:
  assumes "unseal_consensus_safety_row sha256d row mirror = Some inner" and "has_magic row"
  shows "row = seal_consensus_safety_row sha256d inner mirror"
proof -
  have magic: "take 4 row = kConsensusSafetyRowMagic" using assms(2) by (simp add: has_magic_def)
  have "parse_exact row (rd_sealed sha256d mirror) = Some inner"
    using assms by (simp add: unseal_consensus_safety_row_def)
  then obtain m where "row = m @ wr_u8 kConsensusSafetyRowVersion @ wr_varbytes inner
      @ wr_bytes_fixed (consensus_safety_row_checksum sha256d inner mirror)" and "length m = 4"
    by (auto simp: parse_exact_mk_reader rd_sealed_def bind_eq_Some_conv wr_bytes_fixed_def split: if_splits option.splits
        elim!: c_fixed.dec_invE c_u8.dec_invE c_varbytes.dec_invE)
  then show ?thesis using magic by (simp add: seal_consensus_safety_row_def wr_bytes_def)
qed

lemma length_wr_vec_sig: "\<forall>s \<in> set xs. wf_sig s \<Longrightarrow> length (concat (map wr_sig xs)) = 96 * length xs"
  by (induction xs) (auto simp: wr_sig_def wf_sig_def wr_bytes_fixed_def)

lemma length_encode_uleb128: "length (encode_uleb128 v) \<le> 10"
proof -
  have bound: "k \<le> 9 \<Longrightarrow> drop_bit (7 * k) v = w \<Longrightarrow> length (encode_uleb128 w) \<le> 10 - k" for k w
  proof (induction "10 - k" arbitrary: k w)
    case (Suc n)
    show ?case
    proof (cases "drop_bit 7 w = 0")
      case True
      then show ?thesis using Suc by (subst encode_uleb128.simps) (simp add: Let_def)
    next
      case False
      have next_w: "drop_bit 7 w = drop_bit (7 * Suc k) v" using Suc(4) by (simp add: drop_bit_drop_bit [symmetric] add.commute)
      then have "7 * Suc k < 64" using False drop_bit_nonzero_less by metis
      then have "Suc k \<le> 9" by simp
      moreover have "n = 10 - Suc k" using Suc(2) by simp
      ultimately have "length (encode_uleb128 (drop_bit 7 w)) \<le> 10 - Suc k" using Suc(1) next_w by metis
      then show ?thesis using False Suc(2) by (subst encode_uleb128.simps) (simp add: Let_def)
    qed
  qed simp
  show ?thesis using bound [of 0 v] by simp
qed

lemma length_prevotes:
  "\<forall>(round, tid) \<in> set xs. length tid = 32 \<Longrightarrow>
   length (concat (map (\<lambda>(round, tid). wr_u32le round @ wr_bytes_fixed tid) xs)) = 36 * length xs"
  by (induction xs) (auto simp: wr_u32le_def wr_bytes_fixed_def)

lemma omap_u32_length':
  assumes "omap_ok (m :: (u32, 'v) omap)"
  shows "length m \<le> 4294967296"
proof -
  have "length m = card (fst ` set m)" using omap_ok_distinct [OF assms] by (metis distinct_card length_map set_map)
  also have "\<dots> \<le> card (UNIV :: u32 set)" by (rule card_mono) simp_all
  finally show ?thesis by (simp add: card_word)
qed

lemma length_serialize:
  assumes "wf_safety_state st"
  shows "length (serialize_consensus_safety_state st) < 18446744073709551616"
proof -
  let ?lock = "case cs_lock st of None \<Rightarrow> [] | Some (tid, round) \<Rightarrow> wr_bytes_fixed tid @ wr_u32le round"
  let ?polka = "case cs_valid_polka st of None \<Rightarrow> [] | Some polka \<Rightarrow> wr_u64le (qc_height polka)
      @ wr_u32le (qc_round polka) @ wr_bytes_fixed (qc_frontier_transition_id polka) @ wr_vec wr_sig (qc_signatures polka)"
  have "length ?lock \<le> 36" using assms
    by (auto simp: wf_safety_state_def wr_bytes_fixed_def wr_u32le_def split: option.splits)
  moreover have "length ?polka \<le> 44 + 10 + 96 * MAX_COMMITTEE"
    using assms length_encode_uleb128
    by (auto simp: wf_safety_state_def wf_polka_def wr_bytes_fixed_def wr_u32le_def wr_u64le_def wr_vec_def wr_varint_def
        length_wr_vec_sig add_mono split: option.splits)
  moreover have "length (wr_varint (word_of_nat (length (cs_prevotes st)))) \<le> 10"
    by (simp add: wr_varint_def length_encode_uleb128)
  moreover have "length (concat (map (\<lambda>(round, tid). wr_u32le round @ wr_bytes_fixed tid) (cs_prevotes st))) \<le> 36 * 4294967296"
    using assms omap_u32_length' [of "cs_prevotes st"] by (subst length_prevotes) (auto simp: wf_safety_state_def)
  ultimately show ?thesis
    unfolding serialize_consensus_safety_state_def length_append by (simp add: wr_u8_def MAX_COMMITTEE_def)
qed

text \<open>
  C39. A safety row survives its way to disk and back: what is serialized parses to the same lock, polka
  and prevotes, and each sealed copy opens to the bytes sealed in it. Conversely a copy opens only if it
  is a sealed copy of its own kind, or, for the primary, a row of the old format, which has no seal. The
  mirror opens as the primary, or the primary as the mirror, only if the two different inputs of the
  checksum are a hash collision.
\<close>

theorem safety_row_round_trip:
  assumes "\<forall>b. length (sha256d b) = 32" and "wf_safety_state st"
  shows "parse_consensus_safety_state (serialize_consensus_safety_state st) = Some st
    \<and> unseal_consensus_safety_row sha256d
        (seal_consensus_safety_row sha256d (serialize_consensus_safety_state st) mirror) mirror
        = Some (serialize_consensus_safety_state st)
    \<and> (unseal_consensus_safety_row sha256d row mirror = Some inner
        \<longrightarrow> row = seal_consensus_safety_row sha256d inner mirror \<or> \<not> mirror \<and> \<not> has_magic row \<and> row = inner)
    \<and> (unseal_consensus_safety_row sha256d
         (seal_consensus_safety_row sha256d (serialize_consensus_safety_state st) mirror) (\<not> mirror) = Some x
        \<longrightarrow> row_checksum_preimage (serialize_consensus_safety_state st) mirror \<noteq> row_checksum_preimage x (\<not> mirror)
          \<and> sha256d (row_checksum_preimage (serialize_consensus_safety_state st) mirror)
              = sha256d (row_checksum_preimage x (\<not> mirror)))"
proof (intro conjI impI)
  let ?inner = "serialize_consensus_safety_state st"
  show "parse_consensus_safety_state ?inner = Some st"
    unfolding parse_consensus_safety_state_def by (rule c_safety.parse_exact_enc [OF assms(2)])
  show "unseal_consensus_safety_row sha256d (seal_consensus_safety_row sha256d ?inner mirror) mirror = Some ?inner"
    using assms(1) by (intro unseal_seal length_serialize [OF assms(2)]) blast
  show "row = seal_consensus_safety_row sha256d inner mirror \<or> \<not> mirror \<and> \<not> has_magic row \<and> row = inner"
    if "unseal_consensus_safety_row sha256d row mirror = Some inner"
  proof (cases "has_magic row")
    case True
    then show ?thesis using unseal_inv [OF that] by simp
  next
    case False
    then show ?thesis using that by (simp add: unseal_consensus_safety_row_def split: if_splits)
  qed
  have checksum: "consensus_safety_row_checksum sha256d b m = sha256d (row_checksum_preimage b m)" for b m
    by (simp add: consensus_safety_row_checksum_def row_checksum_preimage_def wr_bytes_def)
  assume "unseal_consensus_safety_row sha256d (seal_consensus_safety_row sha256d ?inner mirror) (\<not> mirror) = Some x"
  from unseal_inv [OF this seal_magic]
  have eq: "wr_varbytes ?inner @ sha256d (row_checksum_preimage ?inner mirror)
      = wr_varbytes x @ sha256d (row_checksum_preimage x (\<not> mirror))"
    by (simp add: seal_consensus_safety_row_def wr_bytes_def wr_bytes_fixed_def checksum)
  have "length (wr_varbytes ?inner) = length (wr_varbytes x)"
    using arg_cong [OF eq, of length] assms(1) by simp
  with eq show "sha256d (row_checksum_preimage ?inner mirror) = sha256d (row_checksum_preimage x (\<not> mirror))" by simp
  show "row_checksum_preimage ?inner mirror \<noteq> row_checksum_preimage x (\<not> mirror)"
    by (cases mirror) (simp_all add: row_checksum_preimage_def ascii_def)
qed

definition demo_safety_state :: ConsensusSafetyState where
  "demo_safety_state = \<lparr>cs_lock = Some (zero_hash, 3), cs_valid_polka = None, cs_prevotes = [(1, zero_hash), (3, zero_hash)]\<rparr>"

theorem safety_row_round_trip_witness:
  "parse_consensus_safety_state (serialize_consensus_safety_state demo_safety_state) = Some demo_safety_state
   \<and> unseal_consensus_safety_row (\<lambda>_. zero_hash)
       (seal_consensus_safety_row (\<lambda>_. zero_hash) (serialize_consensus_safety_state demo_safety_state) True) True
       = Some (serialize_consensus_safety_state demo_safety_state)"
proof -
  have "\<forall>b :: bytes. length ((\<lambda>_. zero_hash) b) = 32" by simp
  moreover have "wf_safety_state demo_safety_state"
    by (simp add: wf_safety_state_def demo_safety_state_def omap_ok_def)
  ultimately show ?thesis using safety_row_round_trip [of "\<lambda>_. zero_hash" demo_safety_state True] by blast
qed

subsection \<open>The database\<close>

text \<open>
  What the consensus code keeps on disk. A copy of a row is what a reader finds in its bytes: a state
  (\<open>Sealed\<close>, by the theorem above what was written), bytes that do not open (\<open>Damaged\<close>), or bytes without
  the magic, which the primary takes for a row of the old format and which then do not parse
  (\<open>Unrecognized\<close>). \<open>dk_log\<close> lists the batches that reached the disk, oldest first.
\<close>

datatype row_copy = Sealed ConsensusSafetyState | Damaged | Unrecognized

datatype row_inner = Inner ConsensusSafetyState | Garbage

fun unseal_copy :: "row_copy \<Rightarrow> bool \<Rightarrow> row_inner option" where
  "unseal_copy (Sealed st) mirror = Some (Inner st)"
| "unseal_copy Damaged mirror = None"
| "unseal_copy Unrecognized mirror = (if mirror then None else Some Garbage)"

fun parse_inner :: "row_inner \<Rightarrow> ConsensusSafetyState option" where
  "parse_inner (Inner st) = Some st"
| "parse_inner Garbage = None"

datatype disk_write = Safety_Row u64 ConsensusSafetyState | Finalized_Tip u64 hash32

datatype write_outcome = Written | Lost | Replayed

record Disk =
  dk_primary :: "(u64, row_copy) omap"
  dk_mirror :: "(u64, row_copy) omap"
  dk_quarantine :: "u64 set"
  dk_highwater :: u64
  dk_locked_proposal :: "(u64, FrontierProposal) omap"
  dk_finalized :: "u64 \<times> hash32"
  dk_fenced :: bool
  dk_faults :: "write_outcome list"
  dk_log :: "disk_write list"

text \<open>
  \<^verbatim>\<open>write_batch_durable\<close>: a fenced database refuses; otherwise the storage engine stores the batch, or
  reports a failure and is fenced. A batch whose synchronization failed may still be found when the
  database is opened again (\<open>Replayed\<close>). The outcomes come from the list \<open>dk_faults\<close>, which the
  environment chooses; past its end writes succeed.
\<close>

definition write_batch_durable :: "(Disk \<Rightarrow> Disk) \<Rightarrow> Disk \<Rightarrow> bool \<times> Disk" where
  "write_batch_durable batch d =
     (if dk_fenced d then (False, d)
      else case dk_faults d of
             [] \<Rightarrow> (True, batch d)
           | Written # fs \<Rightarrow> (True, batch (d\<lparr>dk_faults := fs\<rparr>))
           | Lost # fs \<Rightarrow> (False, d\<lparr>dk_faults := fs, dk_fenced := True\<rparr>)
           | Replayed # fs \<Rightarrow> (False, (batch (d\<lparr>dk_faults := fs\<rparr>))\<lparr>dk_fenced := True\<rparr>))"

definition stage_consensus_safety_state :: "u64 \<Rightarrow> ConsensusSafetyState \<Rightarrow> Disk \<Rightarrow> Disk" where
  "stage_consensus_safety_state height st d =
     (let d = d\<lparr>dk_log := dk_log d @ [Safety_Row height st]\<rparr>
      in if cs_lock st = None \<and> cs_valid_polka st = None \<and> cs_prevotes st = []
         then d\<lparr>dk_primary := omap_del height (dk_primary d), dk_mirror := omap_del height (dk_mirror d)\<rparr>
         else d\<lparr>dk_primary := omap_upd height (Sealed st) (dk_primary d),
                dk_mirror := omap_upd height (Sealed st) (dk_mirror d),
                dk_highwater := (if height > dk_highwater d then height else dk_highwater d)\<rparr>)"

definition stage_consensus_safety_clear :: "u64 \<Rightarrow> Disk \<Rightarrow> Disk" where
  "stage_consensus_safety_clear height d =
     d\<lparr>dk_primary := omap_del height (dk_primary d), dk_mirror := omap_del height (dk_mirror d),
       dk_locked_proposal := omap_del height (dk_locked_proposal d), dk_quarantine := dk_quarantine d - {height}\<rparr>"

text \<open>The part of the finalization batch that concerns voting: the new tip, and no more vote state at its height.\<close>

definition stage_finalization :: "u64 \<Rightarrow> hash32 \<Rightarrow> Disk \<Rightarrow> Disk" where
  "stage_finalization height tid d =
     (let d = d\<lparr>dk_finalized := (height, tid), dk_log := dk_log d @ [Finalized_Tip height tid]\<rparr>
      in if height > 0 then stage_consensus_safety_clear height d else d)"

end
