(* ===== verification/Node_Consensus.thy ===== *)
theory Node_Consensus
  imports Safety_Store Signing Votes Committee Hardening
begin

text \<open>
  The voting state machine of a node (\<^verbatim>\<open>src/src/node/node_consensus.cpp\<close> and the parts of \<^verbatim>\<open>node.cpp\<close>,
  \<^verbatim>\<open>node_network.cpp\<close> and \<^verbatim>\<open>node_validator_ops.cpp\<close> that drive it): certificates, the two voting phases,
  locks, round changes, finalization and fail-stop. Each handler is the code's critical section under
  \<^verbatim>\<open>mu_\<close>; what a handler does after releasing the mutex is its result. What the node computes from the
  ledger (execution of a slice, stored ingress records), its clock, the rate limiter and the crypto are
  fields of the environment. Logging, peer scoring and sync bookkeeping do not influence votes and are
  left out.
\<close>

subsection \<open>State and environment\<close>

record ProposeMsg =
  pm_height :: u64
  pm_round :: u32
  pm_prev_finalized_hash :: hash32
  pm_frontier_proposal_bytes :: bytes
  pm_pol :: "QuorumCertificate option"
  pm_justify_tc :: "TimeoutCertificate option"
  pm_proposer_signature :: sig64

record FinalizedTipVotes =
  tp_height :: u64
  tp_round :: u32
  tp_transition_id :: hash32
  tp_committee :: "pubkey32 set"
  tp_sigs :: "(pubkey32, sig64) omap"

record LocalVoteRebroadcast =
  rb_timeouts :: "TimeoutVote list"
  rb_prevotes :: "Vote list"
  rb_precommits :: "Vote list"

datatype CertifiedIngressStatus = Ready | Missing | Invalid

datatype HandlingResult = Accepted | SoftReject string | HardReject string

record NodeEnv =
  en_sha256d :: "bytes \<Rightarrow> hash32"
  en_verify :: "bytes \<Rightarrow> sig64 \<Rightarrow> pubkey32 \<Rightarrow> bool"
  en_sign :: "bytes \<Rightarrow> sig64 option"
  en_pub :: pubkey32
  en_domain :: hash32
  en_epoch_blocks :: u64
  en_checkpoints :: "hash32 \<Rightarrow> (u64, FinalizedCommitteeCheckpoint) omap"
  en_validators :: "hash32 \<Rightarrow> (pubkey32, ValidatorInfo) omap"
  en_past_committee :: "u64 \<Rightarrow> pubkey32 list"
  en_validate :: "hash32 \<Rightarrow> FrontierProposal \<Rightarrow> string option"
  en_ingress_status :: "hash32 \<Rightarrow> FrontierProposal \<Rightarrow> CertifiedIngressStatus"
  en_records_stored :: "FrontierTransition \<Rightarrow> bool"
  en_executes :: "hash32 \<Rightarrow> FrontierProposal \<Rightarrow> bool"
  en_applies :: "hash32 \<Rightarrow> FrontierProposal \<Rightarrow> bool"
  en_now_unix :: u64
  en_now_ms :: u64
  en_running :: bool
  en_rate_ok :: bool
  en_muted :: bool
  en_repair_or_paused :: bool
  en_unsafe_discard_vote_lock_height :: "u64 option"

record Node =
  nd_finalized_height :: u64
  nd_finalized_id :: hash32
  nd_current_round :: u32
  nd_round_started_ms :: u64
  nd_votes :: VoteTracker
  nd_prevotes :: VoteTracker
  nd_timeout_votes :: TimeoutVoteTracker
  nd_local_vote_locks :: "(u64, hash32 \<times> u32) omap"
  nd_local_prevotes :: "(u64 \<times> u32, hash32) omap"
  nd_valid_polka_by_height :: "(u64, QuorumCertificate) omap"
  nd_highest_tc_by_height :: "(u64, TimeoutCertificate) omap"
  nd_local_vote_reservations :: "(u64 \<times> u32) set"
  nd_local_timeout_vote_reservations :: "(u64 \<times> u32) set"
  nd_local_timed_out_rounds :: "(u64 \<times> u32, unit) omap"
  nd_proposed_in_round :: "(u64 \<times> u32) set"
  nd_abstain_heights :: "u64 set"
  nd_candidates :: "(hash32, FrontierProposal) omap"
  nd_candidate_block_sizes :: "(hash32, nat) omap"
  nd_deferred_certified_votes :: "(hash32, ProposeMsg \<times> int) omap"
  nd_pending_local_precommits :: "Vote list"
  nd_pending_finalized :: "(FrontierProposal \<times> FinalityCertificate) list"
  nd_finalized_tip_votes :: FinalizedTipVotes
  nd_vote_verify_cache :: "verify_key fifo_cache"
  nd_invalid_vote_verify_cache :: "verify_key fifo_cache"
  nd_prevote_verify_cache :: "verify_key fifo_cache"
  nd_invalid_prevote_verify_cache :: "verify_key fifo_cache"
  nd_equivocators :: "pubkey32 set"
  nd_slashing_records :: "(SlashVoteKind \<times> EquivocationEvidence) list"
  nd_seen_timeout_votes :: "(u64 \<times> u32 \<times> pubkey32 \<times> sig64, u64) omap"
  nd_safety_storage_failed :: bool
  nd_disk :: Disk

definition kMaxCandidateBlocks :: nat where "kMaxCandidateBlocks = 512"
definition kMaxCandidateBlockBytes :: nat where "kMaxCandidateBlockBytes = 32 * 1024 * 1024"
definition kProposalRoundWindow :: u32 where "kProposalRoundWindow = 32"
definition kTimeoutVoteMessageDedupTtlMs :: u64 where "kTimeoutVoteMessageDedupTtlMs = 120000"
definition kMaxSeenTimeoutVoteMessages :: nat where "kMaxSeenTimeoutVoteMessages = 65536"
definition kMaxDeferredCertifiedVotes :: nat where "kMaxDeferredCertifiedVotes = 16"
definition kMaxTransitionTimestampDriftS :: u64 where "kMaxTransitionTimestampDriftS = 60"
definition kOwnPrecommitRounds :: nat where "kOwnPrecommitRounds = 32"
definition kMaxMissingSafetySpan :: u64 where "kMaxMissingSafetySpan = 64"

subsection \<open>Committees and leaders\<close>

definition epoch_committee_for_next_height :: "NodeEnv \<Rightarrow> Node \<Rightarrow> u64 \<Rightarrow> u32 \<Rightarrow> pubkey32 list" where
  "epoch_committee_for_next_height env n height round =
     (if height = 0 \<or> height \<noteq> nd_finalized_height n + 1 then []
      else case map_of (en_checkpoints env (nd_finalized_id n)) (committee_epoch_start height (en_epoch_blocks env)) of
             None \<Rightarrow> []
           | Some cp \<Rightarrow> if cp_ordered_members cp = [] then [] else checkpoint_committee_for_round cp round)"

definition canonical_committee :: "NodeEnv \<Rightarrow> Node \<Rightarrow> u64 \<Rightarrow> u32 \<Rightarrow> pubkey32 list" where
  "canonical_committee env n =
     canonical_committee_for_height_round (en_checkpoints env (nd_finalized_id n)) (en_epoch_blocks env)"

definition committee_for_height_round :: "NodeEnv \<Rightarrow> Node \<Rightarrow> u64 \<Rightarrow> u32 \<Rightarrow> pubkey32 list" where
  "committee_for_height_round env n height round =
     (if height = nd_finalized_height n + 1 then
        (let canonical = canonical_committee env n height round
         in if canonical \<noteq> [] then canonical else epoch_committee_for_next_height env n height round)
      else if height = 0 \<or> height > nd_finalized_height n + 1 then []
      else en_past_committee env height)"

definition is_committee_member_for :: "NodeEnv \<Rightarrow> Node \<Rightarrow> pubkey32 \<Rightarrow> u64 \<Rightarrow> u32 \<Rightarrow> bool" where
  "is_committee_member_for env n pub height round \<longleftrightarrow> pub \<in> set (committee_for_height_round env n height round)"

text \<open>The leader of the next height; the ticket search behind it, whose bound is 4095, always ends.\<close>

definition leader_for_next_height :: "NodeEnv \<Rightarrow> Node \<Rightarrow> u64 \<Rightarrow> u32 \<Rightarrow> pubkey32 option" where
  "leader_for_next_height env n height round =
     (case canonical_leader_for_height_round (en_sha256d env) (en_validators env (nd_finalized_id n))
             (en_checkpoints env (nd_finalized_id n)) (en_epoch_blocks env) height round of
        None \<Rightarrow> None
      | Some leader \<Rightarrow> leader)"
subsection \<open>Certificates\<close>

definition make_quorum_certificate :: "u64 \<Rightarrow> u32 \<Rightarrow> hash32 \<Rightarrow> FinalitySig list \<Rightarrow> QuorumCertificate" where
  "make_quorum_certificate height round tid sigs =
     \<lparr>qc_height = height, qc_round = round, qc_frontier_transition_id = tid, qc_signatures = sigs\<rparr>"

definition make_finality_certificate ::
  "u64 \<Rightarrow> u32 \<Rightarrow> hash32 \<Rightarrow> nat \<Rightarrow> pubkey32 list \<Rightarrow> FinalitySig list \<Rightarrow> FinalityCertificate" where
  "make_finality_certificate height round tid quorum committee sigs =
     \<lparr>fc_height = height, fc_round = round, fc_frontier_transition_id = tid, fc_quorum_threshold = word_of_nat quorum,
      fc_committee_members = committee, fc_signatures = sigs\<rparr>"

definition canonicalize_finality_signatures :: "FinalitySig list \<Rightarrow> nat \<Rightarrow> FinalitySig list" where
  "canonicalize_finality_signatures sigs quorum =
     take quorum (unique_by fs_validator_pubkey (sort_key (\<lambda>s. (fs_validator_pubkey s, fs_signature s)) sigs))"

text \<open>
  The loop of the certificate checks: signatures of members of the committee, the first one of each
  member, kept if \<open>ok\<close>. A member counts as seen before its signature is checked.
\<close>

fun filter_sigs :: "pubkey32 list \<Rightarrow> (FinalitySig \<Rightarrow> bool) \<Rightarrow> pubkey32 list \<Rightarrow> FinalitySig list \<Rightarrow> FinalitySig list" where
  "filter_sigs committee ok seen [] = []"
| "filter_sigs committee ok seen (s # ss) =
     (if fs_validator_pubkey s \<notin> set committee then filter_sigs committee ok seen ss
      else if fs_validator_pubkey s \<in> set seen then filter_sigs committee ok seen ss
      else if \<not> ok s then filter_sigs committee ok (fs_validator_pubkey s # seen) ss
      else s # filter_sigs committee ok (fs_validator_pubkey s # seen) ss)"

definition verify_polka :: "NodeEnv \<Rightarrow> Node \<Rightarrow> QuorumCertificate \<Rightarrow> bool \<Rightarrow> string + FinalitySig list" where
  "verify_polka env n qc skip_signature_crypto =
     (let committee = committee_for_height_round env n (qc_height qc) (qc_round qc);
          msg = prevote_signing_message (en_sha256d env) (en_domain env) (qc_height qc) (qc_round qc)
                  (qc_frontier_transition_id qc);
          valid = filter_sigs committee
                    (\<lambda>s. skip_signature_crypto \<or> en_verify env msg (fs_signature s) (fs_validator_pubkey s)) []
                    (qc_signatures qc)
      in if committee = [] then Inl ''empty-committee''
         else if length valid < quorum_threshold (length committee) then Inl ''insufficient-valid-signatures''
         else Inr valid)"

definition verify_timeout_certificate :: "NodeEnv \<Rightarrow> Node \<Rightarrow> TimeoutCertificate \<Rightarrow> bool \<Rightarrow> string + FinalitySig list" where
  "verify_timeout_certificate env n tc skip_signature_crypto =
     (let committee = committee_for_height_round env n (tc_height tc) (tc_round tc);
          msg = timeout_vote_signing_message (en_sha256d env) (en_domain env) (tc_height tc) (tc_round tc);
          valid = filter_sigs committee
                    (\<lambda>s. skip_signature_crypto \<or> en_verify env msg (fs_signature s) (fs_validator_pubkey s)) []
                    (tc_signatures tc)
      in if committee = [] then Inl ''empty-committee''
         else if length valid < quorum_threshold (length committee) then Inl ''insufficient-valid-signatures''
         else Inr valid)"

definition vote_round_covers_transition :: "u32 \<Rightarrow> u32 \<Rightarrow> bool" where
  "vote_round_covers_transition round transition_round \<longleftrightarrow> round \<ge> transition_round"

definition verify_finality_certificate_for_frontier ::
  "NodeEnv \<Rightarrow> FinalityCertificate \<Rightarrow> FrontierTransition \<Rightarrow> string + FinalitySig list" where
  "verify_finality_certificate_for_frontier env cert transition =
     (let expected_quorum = quorum_threshold (length (fc_committee_members cert));
          msg = vote_signing_message (en_sha256d env) (en_domain env) (fc_height cert) (fc_round cert)
                  (fc_frontier_transition_id cert);
          valid = filter_sigs (fc_committee_members cert)
                    (\<lambda>s. en_verify env msg (fs_signature s) (fs_validator_pubkey s)) [] (fc_signatures cert);
          canonical = canonicalize_finality_signatures valid expected_quorum
      in if fc_height cert \<noteq> ft_height transition then Inl ''certificate-height-mismatch''
         else if \<not> vote_round_covers_transition (fc_round cert) (ft_round transition) then Inl ''certificate-round-mismatch''
         else if fc_frontier_transition_id cert \<noteq> transition_id (en_sha256d env) transition
           then Inl ''certificate-transition-id-mismatch''
         else if fc_committee_members cert = [] then Inl ''certificate-empty-committee''
         else if unat (fc_quorum_threshold cert) \<noteq> expected_quorum then Inl ''certificate-quorum-mismatch''
         else if card (set (fc_committee_members cert)) \<noteq> length (fc_committee_members cert)
           then Inl ''certificate-duplicate-committee-members''
         else if length valid < expected_quorum then Inl ''certificate-insufficient-valid-signatures''
         else if length canonical \<noteq> expected_quorum then Inl ''certificate-canonicalization-failed''
         else Inr canonical)"

subsection \<open>Fail-stop, signing and the durable vote record\<close>

definition safety_storage_failed :: "Node \<Rightarrow> bool" where
  "safety_storage_failed n \<longleftrightarrow> nd_safety_storage_failed n \<or> dk_fenced (nd_disk n)"

definition enter_safety_fail_stop :: "Node \<Rightarrow> Node" where
  "enter_safety_fail_stop n =
     (if nd_safety_storage_failed n then n
      else n\<lparr>nd_disk := (nd_disk n)\<lparr>dk_fenced := True\<rparr>, nd_safety_storage_failed := True\<rparr>)"

definition sign_consensus :: "NodeEnv \<Rightarrow> Node \<Rightarrow> bytes \<Rightarrow> sig64 option" where
  "sign_consensus env n msg = (if safety_storage_failed n then None else en_sign env msg)"

definition prevotes_at :: "(u64 \<times> u32, hash32) omap \<Rightarrow> u64 \<Rightarrow> (u32, hash32) omap" where
  "prevotes_at m height =
     map (\<lambda>((h, r), tid). (r, tid))
       (takeWhile (\<lambda>((h, r), tid). h = height) (dropWhile (\<lambda>(k, tid). k < (height, 0)) m))"

definition consensus_safety_state :: "Node \<Rightarrow> u64 \<Rightarrow> ConsensusSafetyState" where
  "consensus_safety_state n height =
     \<lparr>cs_lock = map_of (nd_local_vote_locks n) height,
      cs_valid_polka = map_of (nd_valid_polka_by_height n) height,
      cs_prevotes = prevotes_at (nd_local_prevotes n) height\<rparr>"

definition persist_batch :: "(Disk \<Rightarrow> Disk) \<Rightarrow> Node \<Rightarrow> bool \<times> Node" where
  "persist_batch batch n =
     (case write_batch_durable batch (nd_disk n) of
        (True, d) \<Rightarrow> (True, n\<lparr>nd_disk := d\<rparr>)
      | (False, d) \<Rightarrow> (False, enter_safety_fail_stop (n\<lparr>nd_disk := d\<rparr>)))"

definition persist_consensus_safety_state :: "u64 \<Rightarrow> ConsensusSafetyState \<Rightarrow> Node \<Rightarrow> bool \<times> Node" where
  "persist_consensus_safety_state height st n = persist_batch (stage_consensus_safety_state height st) n"

definition record_local_prevote :: "u64 \<Rightarrow> u32 \<Rightarrow> hash32 \<Rightarrow> Node \<Rightarrow> bool \<times> Node" where
  "record_local_prevote height round tid n =
     (let st = consensus_safety_state n height
      in case persist_consensus_safety_state height (st\<lparr>cs_prevotes := omap_upd round tid (cs_prevotes st)\<rparr>) n of
           (False, n) \<Rightarrow> (False, n)
         | (True, n) \<Rightarrow> (True, n\<lparr>nd_local_prevotes := omap_upd (height, round) tid (nd_local_prevotes n)\<rparr>))"

definition forget_consensus_safety_state :: "u64 \<Rightarrow> Node \<Rightarrow> Node" where
  "forget_consensus_safety_state height n =
     n\<lparr>nd_local_vote_locks := omap_del height (nd_local_vote_locks n),
       nd_valid_polka_by_height := omap_del height (nd_valid_polka_by_height n),
       nd_local_prevotes := filter (\<lambda>(k, tid). \<not> ((height, 0) \<le> k \<and> k < (height + 1, 0))) (nd_local_prevotes n),
       nd_highest_tc_by_height := omap_del height (nd_highest_tc_by_height n),
       nd_local_timeout_vote_reservations := {k \<in> nd_local_timeout_vote_reservations n. fst k \<noteq> height},
       nd_abstain_heights := nd_abstain_heights n - {height}\<rparr>"

subsection \<open>Finalization\<close>

text \<open>
  The checks of \<^verbatim>\<open>verify_frontier_record_against_state\<close> that tie a transition to the finalized tip;
  \<open>en_executes\<close> stands for the rest of it (execution, settlement, commitments).
\<close>

definition record_extends_tip :: "NodeEnv \<Rightarrow> Node \<Rightarrow> FrontierProposal \<Rightarrow> bool" where
  "record_extends_tip env n p \<longleftrightarrow>
     ft_height (fpr_transition p) = nd_finalized_height n + 1
     \<and> ft_prev_finalized_hash (fpr_transition p) = nd_finalized_id n
     \<and> en_executes env (nd_finalized_id n) p"

definition emplace_sigs :: "FinalitySig list \<Rightarrow> (pubkey32, sig64) omap \<Rightarrow> (pubkey32, sig64) omap" where
  "emplace_sigs sigs m =
     foldl (\<lambda>m s. if map_of m (fs_validator_pubkey s) = None then omap_upd (fs_validator_pubkey s) (fs_signature s) m else m) m sigs"

definition tip_votes ::
  "VoteTracker \<Rightarrow> u64 \<Rightarrow> u32 \<Rightarrow> hash32 \<Rightarrow> pubkey32 list \<Rightarrow> FinalitySig list \<Rightarrow> FinalizedTipVotes" where
  "tip_votes votes height commit_round tid committee canonical_sigs =
     \<lparr>tp_height = height, tp_round = commit_round, tp_transition_id = tid, tp_committee = set committee,
      tp_sigs = emplace_sigs canonical_sigs (emplace_sigs
        (filter (\<lambda>s. fs_validator_pubkey s \<in> set committee) (vt_signatures_for votes height commit_round tid)) [])\<rparr>"

text \<open>What the finalization of a height changes in memory once its batch is durable.\<close>

definition publish_finalized ::
  "NodeEnv \<Rightarrow> FrontierTransition \<Rightarrow> u32 \<Rightarrow> pubkey32 list \<Rightarrow> FinalitySig list \<Rightarrow> Node \<Rightarrow> Node" where
  "publish_finalized env t commit_round committee canonical_sigs n =
     (let previous = nd_finalized_height n;
          fin = ft_height t;
          tid = transition_id (en_sha256d env) t;
          n = n\<lparr>nd_finalized_height := fin, nd_finalized_id := tid\<rparr>;
          n = (if fin > previous then
                 n\<lparr>nd_current_round := 0, nd_round_started_ms := en_now_ms env, nd_proposed_in_round := {},
                   nd_local_vote_reservations := {k \<in> nd_local_vote_reservations n. \<not> fst k \<le> fin},
                   nd_local_timeout_vote_reservations := {k \<in> nd_local_timeout_vote_reservations n. \<not> fst k \<le> fin},
                   nd_local_timed_out_rounds := filter (\<lambda>(k, u). \<not> k < (fin + 1, 0)) (nd_local_timed_out_rounds n),
                   nd_votes := vt_clear_height (fin + 1) (nd_votes n),
                   nd_prevotes := vt_clear_height (fin + 1) (nd_prevotes n),
                   nd_timeout_votes := tt_clear_height (fin + 1) (nd_timeout_votes n)\<rparr>
               else n\<lparr>nd_current_round := 0, nd_round_started_ms := en_now_ms env\<rparr>);
          n = n\<lparr>nd_candidates := [], nd_candidate_block_sizes := [],
                nd_finalized_tip_votes := tip_votes (nd_votes n) fin commit_round tid committee canonical_sigs,
                nd_votes := vt_clear_height fin (nd_votes n),
                nd_prevotes := vt_clear_height fin (nd_prevotes n),
                nd_timeout_votes := tt_clear_height fin (nd_timeout_votes n)\<rparr>
      in if fin > 0 then forget_consensus_safety_state fin n else n)"

definition apply_finalized_frontier_effects ::
  "NodeEnv \<Rightarrow> FrontierProposal \<Rightarrow> u32 \<Rightarrow> FinalitySig list \<Rightarrow> pubkey32 list \<Rightarrow> Node \<Rightarrow> bool \<times> Node" where
  "apply_finalized_frontier_effects env p commit_round finality_signatures committee n =
     (let quorum = quorum_threshold (length committee);
          canonical_sigs = canonicalize_finality_signatures finality_signatures quorum;
          t = fpr_transition p;
          tid = transition_id (en_sha256d env) t
      in if committee = [] then (False, n)
         else if length canonical_sigs < quorum then (False, n)
         else if \<not> (record_extends_tip env n p \<and> en_applies env (nd_finalized_id n) p) then (False, n)
         else case persist_batch (stage_finalization (ft_height t) tid) n of
                (False, n) \<Rightarrow> (False, n)
              | (True, n) \<Rightarrow> (True, publish_finalized env t commit_round committee canonical_sigs n))"

definition abstaining_at_height :: "Node \<Rightarrow> u64 \<Rightarrow> bool" where
  "abstaining_at_height n height \<longleftrightarrow> height \<in> nd_abstain_heights n"

text \<open>
  A committee of one: the node signs its own precommit here. It is the only precommit signed without
  a lock.
\<close>

definition self_vote :: "NodeEnv \<Rightarrow> hash32 \<Rightarrow> u64 \<Rightarrow> u32 \<Rightarrow> pubkey32 list \<Rightarrow> Node \<Rightarrow> Node" where
  "self_vote env tid height round committee n =
     (if vt_signatures_for (nd_votes n) height round tid = [] \<and> quorum_threshold (length committee) = 1
         \<and> length committee = 1 \<and> hd committee = en_pub env \<and> \<not> abstaining_at_height n height
      then case sign_consensus env n (vote_signing_message (en_sha256d env) (en_domain env) height round tid) of
             None \<Rightarrow> n
           | Some sig \<Rightarrow> n\<lparr>nd_votes := snd (vt_add_vote \<lparr>vote_height = height, vote_round = round,
               vote_frontier_transition_id = tid, vote_validator_pubkey = en_pub env, vote_signature = sig\<rparr> (nd_votes n))\<rparr>
      else n)"

definition certain_miss :: "NodeEnv \<Rightarrow> hash32 \<Rightarrow> u64 \<Rightarrow> u32 \<Rightarrow> Node \<Rightarrow> bool" where
  "certain_miss env tid height round n =
     (let committee = canonical_committee env n height round;
          quorum = quorum_threshold (length committee);
          self_vote_path = quorum = 1 \<and> length committee = 1 \<and> hd committee = en_pub env;
          counted = fs_validator_pubkey ` set (vt_signatures_for (nd_votes n) height round tid) \<inter> set committee
      in committee \<noteq> [] \<and> \<not> self_vote_path \<and> card counted < quorum)"

definition finalize_if_quorum :: "NodeEnv \<Rightarrow> hash32 \<Rightarrow> u64 \<Rightarrow> u32 \<Rightarrow> Node \<Rightarrow> bool \<times> Node" where
  "finalize_if_quorum env tid height round n =
     (case map_of (nd_candidates n) tid of
        None \<Rightarrow> (False, n)
      | Some p \<Rightarrow>
          if \<not> vote_round_covers_transition round (ft_round (fpr_transition p)) then (False, n)
          else if certain_miss env tid height round n then (False, n)
          else if \<not> en_records_stored env (fpr_transition p) then (False, n)
          else if \<not> record_extends_tip env n p then (False, n)
          else
            let expected_committee = canonical_committee env n height round;
                expected_quorum = quorum_threshold (length expected_committee)
            in if expected_committee = [] then (False, n)
               else let n = self_vote env tid height round expected_committee n;
                        sigs = vt_signatures_for (nd_votes n) height round tid;
                        filtered = filter_sigs expected_committee (\<lambda>s. True) [] sigs;
                        canonical_sigs = canonicalize_finality_signatures filtered expected_quorum
                    in if length sigs < expected_quorum then (False, n)
                       else if length filtered < expected_quorum then (False, n)
                       else case apply_finalized_frontier_effects env p round canonical_sigs expected_committee n of
                              (False, n) \<Rightarrow> (False, n)
                            | (True, n) \<Rightarrow>
                                (True, n\<lparr>nd_pending_finalized := nd_pending_finalized n @
                                  [(p, make_finality_certificate height round tid expected_quorum expected_committee
                                         canonical_sigs)]\<rparr>))"

subsection \<open>Locks and precommits\<close>

definition can_prevote :: "Node \<Rightarrow> u64 \<Rightarrow> hash32 \<Rightarrow> u32 option \<Rightarrow> bool" where
  "can_prevote n height tid pol_round \<longleftrightarrow>
     (if abstaining_at_height n height then False
      else case map_of (nd_local_vote_locks n) height of
             None \<Rightarrow> True
           | Some (locked_id, locked_round) \<Rightarrow>
               if locked_id = tid then True
               else case pol_round of None \<Rightarrow> False | Some pol \<Rightarrow> locked_round \<le> pol)"

definition lock_on_polka :: "NodeEnv \<Rightarrow> u64 \<Rightarrow> u32 \<Rightarrow> FrontierProposal \<Rightarrow> Node \<Rightarrow> bool \<times> Node" where
  "lock_on_polka env height round p n =
     (let tid = transition_id (en_sha256d env) (fpr_transition p);
          lock = map_of (nd_local_vote_locks n) height;
          st = (consensus_safety_state n height)\<lparr>cs_lock := Some (tid, round)\<rparr>
      in if lock = Some (tid, round) then (True, n)
         else if (case lock of None \<Rightarrow> False | Some (locked_id, locked_round) \<Rightarrow> round \<le> locked_round) then (False, n)
         else case persist_consensus_safety_state height st n of
                (False, n) \<Rightarrow> (False, n)
              | (True, n) \<Rightarrow> (True, n\<lparr>nd_local_vote_locks := omap_upd height (tid, round) (nd_local_vote_locks n)\<rparr>))"

text \<open>\<^verbatim>\<open>lower_bound({height + 1, 0})\<close> and one step back: the last recorded prevote below the next height.\<close>

definition local_vote_round_floor :: "Node \<Rightarrow> u64 \<Rightarrow> u32" where
  "local_vote_round_floor n height =
     (let floor = (case map_of (nd_local_vote_locks n) height of None \<Rightarrow> 0 | Some (tid, round) \<Rightarrow> round);
          below = takeWhile (\<lambda>(k, tid). k < (height + 1, 0)) (nd_local_prevotes n)
      in if below \<noteq> [] \<and> fst (fst (last below)) = height then max floor (snd (fst (last below))) else floor)"

text \<open>The first half of \<^verbatim>\<open>on_prevotes_changed_locked\<close>: the highest polka seen becomes the valid value.\<close>

definition store_valid_polka :: "QuorumCertificate \<Rightarrow> FrontierProposal \<Rightarrow> Node \<Rightarrow> Node" where
  "store_valid_polka polka p n =
     (let height = qc_height polka
      in if (case map_of (nd_valid_polka_by_height n) height of None \<Rightarrow> True | Some q \<Rightarrow> qc_round polka > qc_round q) then
           (case persist_batch (\<lambda>d. (stage_consensus_safety_state height
                    ((consensus_safety_state n height)\<lparr>cs_valid_polka := Some polka\<rparr>) d)
                    \<lparr>dk_locked_proposal := omap_upd height p (dk_locked_proposal d)\<rparr>) n of
              (False, n) \<Rightarrow> n
            | (True, n) \<Rightarrow> n\<lparr>nd_valid_polka_by_height := omap_upd height polka (nd_valid_polka_by_height n)\<rparr>)
         else n)"

text \<open>The second half: lock and precommit, only in the current round and once per round.\<close>

definition precommit_on_polka :: "NodeEnv \<Rightarrow> hash32 \<Rightarrow> u64 \<Rightarrow> u32 \<Rightarrow> FrontierProposal \<Rightarrow> Node \<Rightarrow> Vote option \<times> Node" where
  "precommit_on_polka env tid height round p n =
     (if height \<noteq> nd_finalized_height n + 1 \<or> round \<noteq> nd_current_round n then (None, n)
      else if (height, round) \<in> nd_local_vote_reservations n
              \<or> map_of (nd_local_timed_out_rounds n) (height, round) \<noteq> None then (None, n)
      else if round < local_vote_round_floor n height then (None, n)
      else if abstaining_at_height n height \<or> \<not> is_committee_member_for env n (en_pub env) height round then (None, n)
      else if en_ingress_status env (nd_finalized_id n) p \<noteq> Ready then (None, n)
      else case sign_consensus env n (vote_signing_message (en_sha256d env) (en_domain env) height round tid) of
             None \<Rightarrow> (None, n)
           | Some sig \<Rightarrow>
               (case lock_on_polka env height round p n of
                  (False, n) \<Rightarrow> (None, n)
                | (True, n) \<Rightarrow>
                    (Some \<lparr>vote_height = height, vote_round = round, vote_frontier_transition_id = tid,
                           vote_validator_pubkey = en_pub env, vote_signature = sig\<rparr>,
                     n\<lparr>nd_local_vote_reservations := insert (height, round) (nd_local_vote_reservations n)\<rparr>)))"

definition on_prevotes_changed :: "NodeEnv \<Rightarrow> hash32 \<Rightarrow> u64 \<Rightarrow> u32 \<Rightarrow> Node \<Rightarrow> Vote option \<times> Node" where
  "on_prevotes_changed env tid height round n =
     (let polka = make_quorum_certificate height round tid (vt_signatures_for (nd_prevotes n) height round tid)
      in case verify_polka env n polka True of
           Inl e \<Rightarrow> (None, n)
         | Inr filtered \<Rightarrow>
             (case map_of (nd_candidates n) tid of
                None \<Rightarrow> (None, n)
              | Some p \<Rightarrow>
                  if \<not> vote_round_covers_transition round (ft_round (fpr_transition p)) then (None, n)
                  else precommit_on_polka env tid height round p
                         (store_valid_polka (polka\<lparr>qc_signatures := filtered\<rparr>) p n)))"

text \<open>
  The loop of \<^verbatim>\<open>on_candidate_body_locked\<close> over the rounds from the transition's to the current one. The
  32-bit counter wraps after the last round, so with that round current the loop does not end; then the
  result is \<open>None\<close>.
\<close>

fun candidate_body_loop :: "NodeEnv \<Rightarrow> hash32 \<Rightarrow> u64 \<Rightarrow> u32 list \<Rightarrow> Node \<Rightarrow> Node option" where
  "candidate_body_loop env tid height [] n =
     (if nd_current_round n = - 1 \<and> nd_finalized_height n < height then None else Some n)"
| "candidate_body_loop env tid height (r # rs) n =
     (if \<not> (r \<le> nd_current_round n \<and> nd_finalized_height n < height) then Some n
      else if height \<noteq> nd_finalized_height n + 1 then Some n
      else case on_prevotes_changed env tid height r n of
             (precommit, n) \<Rightarrow>
               (let n = (case precommit of None \<Rightarrow> n
                         | Some v \<Rightarrow> n\<lparr>nd_pending_local_precommits := nd_pending_local_precommits n @ [v]\<rparr>);
                    n = snd (finalize_if_quorum env tid height r n)
                in candidate_body_loop env tid height rs n))"

definition rounds_between :: "u32 \<Rightarrow> u32 \<Rightarrow> u32 list" where
  "rounds_between a b = map word_of_nat [unat a ..< Suc (unat b)]"

definition on_candidate_body :: "NodeEnv \<Rightarrow> FrontierTransition \<Rightarrow> Node \<Rightarrow> Node option" where
  "on_candidate_body env t n =
     candidate_body_loop env (transition_id (en_sha256d env) t) (ft_height t)
       (rounds_between (ft_round t) (nd_current_round n)) n"

subsection \<open>Rounds\<close>

definition maybe_record_timeout_certificate :: "NodeEnv \<Rightarrow> u64 \<Rightarrow> u32 \<Rightarrow> Node \<Rightarrow> Node" where
  "maybe_record_timeout_certificate env height round n =
     (let tc = \<lparr>tc_height = height, tc_round = round, tc_signatures = tt_signatures_for (nd_timeout_votes n) height round\<rparr>
      in case verify_timeout_certificate env n tc True of
           Inl e \<Rightarrow> n
         | Inr filtered \<Rightarrow>
             if (case map_of (nd_highest_tc_by_height n) height of None \<Rightarrow> True | Some q \<Rightarrow> tc_round tc > tc_round q) then
               (let n = n\<lparr>nd_highest_tc_by_height := omap_upd height (tc\<lparr>tc_signatures := filtered\<rparr>) (nd_highest_tc_by_height n)\<rparr>
                in if height = nd_finalized_height n + 1 \<and> nd_current_round n \<le> round
                   then n\<lparr>nd_current_round := round + 1, nd_round_started_ms := en_now_ms env\<rparr> else n)
             else n)"

definition maybe_catch_up_round_from_timeout_votes :: "NodeEnv \<Rightarrow> u64 \<Rightarrow> Node \<Rightarrow> Node" where
  "maybe_catch_up_round_from_timeout_votes env height n =
     (if height \<noteq> nd_finalized_height n + 1 \<or> en_repair_or_paused env then n
      else let committee = committee_for_height_round env n height (nd_current_round n)
           in if length committee < 2 then n
              else let f_plus_one = length committee - quorum_threshold (length committee) + 1
                   in case round_reached_by (nd_timeout_votes n) height f_plus_one of
                        None \<Rightarrow> n
                      | Some reached \<Rightarrow>
                          if reached \<le> nd_current_round n then n
                          else n\<lparr>nd_current_round := reached, nd_round_started_ms := en_now_ms env\<rparr>)"

text \<open>
  One pass of the timeout branch of the event loop, taken when the round's timer has run out:
  \<open>advance_alone\<close> holds when the stalled single-member rule moves to the next round instead.
\<close>

definition round_timeout :: "NodeEnv \<Rightarrow> bool \<Rightarrow> Node \<Rightarrow> TimeoutVote option \<times> Node" where
  "round_timeout env advance_alone n =
     (let h = nd_finalized_height n + 1;
          round = nd_current_round n;
          committee = committee_for_height_round env n h round;
          reserved = (h, round) \<in> nd_local_timeout_vote_reservations n;
          member = en_pub env \<in> set committee
      in if en_repair_or_paused env then (None, n)
         else if advance_alone \<and> length committee = 1 \<and> map_of (nd_valid_polka_by_height n) h = None
                 \<and> map_of (nd_highest_tc_by_height n) h = None
           then (None, n\<lparr>nd_current_round := round + 1, nd_round_started_ms := en_now_ms env\<rparr>)
         else
           let sig = (if member \<and> \<not> reserved \<and> \<not> abstaining_at_height n h
                      then sign_consensus env n (timeout_vote_signing_message (en_sha256d env) (en_domain env) h round) else None);
               vote = map_option (\<lambda>s. \<lparr>tv_height = h, tv_round = round, tv_validator_pubkey = en_pub env, tv_signature = s\<rparr>) sig;
               n = (if vote = None then n
                    else n\<lparr>nd_local_timeout_vote_reservations := insert (h, round) (nd_local_timeout_vote_reservations n),
                           nd_local_timed_out_rounds := omap_upd (h, round) () (nd_local_timed_out_rounds n)\<rparr>)
           in (vote,
               if length committee = 1 then n\<lparr>nd_current_round := round + 1, nd_round_started_ms := en_now_ms env\<rparr>
               else if reserved \<or> vote \<noteq> None then n\<lparr>nd_round_started_ms := en_now_ms env\<rparr> else n))"

subsection \<open>Re-sending and restoring the node's own votes\<close>

definition last_rounds :: "nat \<Rightarrow> 'a list \<Rightarrow> 'a list" where
  "last_rounds k xs = drop (if length xs > k then length xs - k else 0) xs"

definition own_vote :: "NodeEnv \<Rightarrow> u64 \<Rightarrow> u32 \<Rightarrow> hash32 \<Rightarrow> sig64 \<Rightarrow> Vote" where
  "own_vote env height round tid sig =
     \<lparr>vote_height = height, vote_round = round, vote_frontier_transition_id = tid, vote_validator_pubkey = en_pub env,
      vote_signature = sig\<rparr>"

definition sign_prevote :: "NodeEnv \<Rightarrow> Node \<Rightarrow> u64 \<Rightarrow> u32 \<Rightarrow> hash32 \<Rightarrow> Vote option" where
  "sign_prevote env n height round tid =
     map_option (own_vote env height round tid)
       (sign_consensus env n (prevote_signing_message (en_sha256d env) (en_domain env) height round tid))"

definition sign_precommit :: "NodeEnv \<Rightarrow> Node \<Rightarrow> u64 \<Rightarrow> u32 \<Rightarrow> hash32 \<Rightarrow> Vote option" where
  "sign_precommit env n height round tid =
     map_option (own_vote env height round tid)
       (sign_consensus env n (vote_signing_message (en_sha256d env) (en_domain env) height round tid))"

definition votes_of_set :: "u64 \<Rightarrow> (pubkey32 \<Rightarrow> bool) \<Rightarrow> VoteSet \<Rightarrow> Vote list" where
  "votes_of_set height keep vs =
     map (\<lambda>s. \<lparr>vote_height = height, vote_round = vs_round vs, vote_frontier_transition_id = vs_transition_id vs,
               vote_validator_pubkey = fs_validator_pubkey s, vote_signature = fs_signature s\<rparr>)
       (filter (\<lambda>s. keep (fs_validator_pubkey s)) (vs_signatures vs))"

definition better_set :: "VoteSet option \<Rightarrow> VoteSet \<Rightarrow> VoteSet option" where
  "better_set best vs =
     (case best of
        None \<Rightarrow> Some vs
      | Some b \<Rightarrow> if length (vs_signatures vs) > length (vs_signatures b)
                     \<or> length (vs_signatures vs) = length (vs_signatures b) \<and> vs_round vs > vs_round b
                  then Some vs else Some b)"

definition local_votes_for_rebroadcast :: "NodeEnv \<Rightarrow> u64 \<Rightarrow> Node \<Rightarrow> LocalVoteRebroadcast" where
  "local_votes_for_rebroadcast env height n =
     (if safety_storage_failed n then \<lparr>rb_timeouts = [], rb_prevotes = [], rb_precommits = []\<rparr>
      else
        let timed_out = map (\<lambda>((h, r), u). r)
              (takeWhile (\<lambda>((h, r), u). h = height) (dropWhile (\<lambda>(k, u). k < (height, 0)) (nd_local_timed_out_rounds n)));
            timeouts = List.map_filter (\<lambda>r. map_option
              (\<lambda>s. \<lparr>tv_height = height, tv_round = r, tv_validator_pubkey = en_pub env, tv_signature = s\<rparr>)
              (sign_consensus env n (timeout_vote_signing_message (en_sha256d env) (en_domain env) height r)))
              (last_rounds 3 timed_out);
            own_prevotes = List.map_filter (\<lambda>(r, tid). sign_prevote env n height r tid)
              (last_rounds 3 (prevotes_at (nd_local_prevotes n) height));
            sets = vt_vote_sets_for_height (nd_votes n) height;
            own = concat (map (votes_of_set height (\<lambda>pub. pub = en_pub env)) sets);
            best = foldl better_set None sets;
            lock = (case map_of (nd_local_vote_locks n) height of
                      None \<Rightarrow> []
                    | Some (tid, round) \<Rightarrow>
                        if round \<in> vote_round ` set own then []
                        else (case sign_precommit env n height round tid of None \<Rightarrow> [] | Some v \<Rightarrow> [v]));
            others = (case best of None \<Rightarrow> [] | Some b \<Rightarrow> votes_of_set height (\<lambda>pub. pub \<noteq> en_pub env) b);
            polka = (case map_of (nd_valid_polka_by_height n) height of
                       None \<Rightarrow> []
                     | Some q \<Rightarrow> votes_of_set height (\<lambda>pub. pub \<noteq> en_pub env)
                         \<lparr>vs_round = qc_round q, vs_transition_id = qc_frontier_transition_id q, vs_signatures = qc_signatures q\<rparr>)
        in \<lparr>rb_timeouts = timeouts, rb_prevotes = own_prevotes @ polka,
            rb_precommits = last_rounds kOwnPrecommitRounds own @ lock @ others\<rparr>)"

definition reseed_local_votes :: "NodeEnv \<Rightarrow> u64 \<Rightarrow> Node \<Rightarrow> Node" where
  "reseed_local_votes env height n =
     (if safety_storage_failed n then n
      else
        let n = foldl (\<lambda>n (r, tid). case sign_prevote env n height r tid of
                         None \<Rightarrow> n
                       | Some v \<Rightarrow> n\<lparr>nd_prevotes := snd (vt_add_vote v (nd_prevotes n))\<rparr>)
                  n (prevotes_at (nd_local_prevotes n) height)
        in case map_of (nd_local_vote_locks n) height of
             None \<Rightarrow> n
           | Some (tid, round) \<Rightarrow>
               (case sign_precommit env n height round tid of
                  None \<Rightarrow> n
                | Some v \<Rightarrow> n\<lparr>nd_votes := snd (vt_add_vote v (nd_votes n)),
                               nd_local_vote_reservations := insert (height, round) (nd_local_vote_reservations n)\<rparr>))"

text \<open>The reset when the last peer is lost, and when peers are back.\<close>

definition reset_round_state :: "NodeEnv \<Rightarrow> Node \<Rightarrow> Node" where
  "reset_round_state env n =
     (let height = nd_finalized_height n + 1;
          n = n\<lparr>nd_current_round := 0, nd_proposed_in_round := {}, nd_local_vote_reservations := {},
                nd_local_timeout_vote_reservations := {},
                nd_votes := vt_clear_height height (nd_votes n),
                nd_prevotes := vt_clear_height height (nd_prevotes n),
                nd_timeout_votes := tt_clear_height height (nd_timeout_votes n)\<rparr>
      in (reseed_local_votes env height n)\<lparr>nd_round_started_ms := en_now_ms env\<rparr>)"

subsection \<open>Votes and prevotes\<close>

definition verify_key_of :: "Vote \<Rightarrow> verify_key" where
  "verify_key_of vote = (vote_height vote, vote_round vote, vote_frontier_transition_id vote, vote_validator_pubkey vote)"

definition record_late_finalized_vote :: "NodeEnv \<Rightarrow> Vote \<Rightarrow> Node \<Rightarrow> bool \<times> Node" where
  "record_late_finalized_vote env vote n =
     (let tip = nd_finalized_tip_votes n;
          msg = vote_signing_message (en_sha256d env) (en_domain env) (vote_height vote) (vote_round vote)
                  (vote_frontier_transition_id vote)
      in if tp_height tip = 0 \<or> vote_height vote \<noteq> tp_height tip then (False, n)
         else if vote_round vote \<noteq> tp_round tip \<or> vote_frontier_transition_id vote \<noteq> tp_transition_id tip then (False, n)
         else if vote_validator_pubkey vote \<notin> tp_committee tip then (False, n)
         else if map_of (tp_sigs tip) (vote_validator_pubkey vote) \<noteq> None then (False, n)
         else if \<not> en_verify env msg (vote_signature vote) (vote_validator_pubkey vote) then (False, n)
         else (True, n\<lparr>nd_finalized_tip_votes := tip\<lparr>tp_sigs :=
                         omap_upd (vote_validator_pubkey vote) (vote_signature vote) (tp_sigs tip)\<rparr>\<rparr>))"

text \<open>
  The signature check of both vote handlers, with the caches of keys known to be invalid and valid:
  the reason for a rejection, and the two caches afterwards. The key does not contain the signature.
\<close>

definition check_vote_signature ::
  "NodeEnv \<Rightarrow> bytes \<Rightarrow> Vote \<Rightarrow> verify_key fifo_cache \<Rightarrow> verify_key fifo_cache
     \<Rightarrow> string option \<times> verify_key fifo_cache \<times> verify_key fifo_cache" where
  "check_vote_signature env msg vote valid invalid =
     (let vkey = verify_key_of vote
      in if fc_contains invalid vkey then (Some ''cached-invalid-signature'', valid, invalid)
         else if fc_contains valid vkey then (None, valid, invalid)
         else if \<not> en_verify env msg (vote_signature vote) (vote_validator_pubkey vote)
           then (Some ''invalid-signature'', valid, fc_insert vkey invalid)
         else (None, fc_insert vkey valid, invalid))"

definition note_equivocation :: "SlashVoteKind \<Rightarrow> VoteTallyResult \<Rightarrow> Vote \<Rightarrow> Node \<Rightarrow> Node" where
  "note_equivocation kind tr vote n =
     (case vr_evidence tr of
        Some ev \<Rightarrow> if vr_equivocation tr
                    then n\<lparr>nd_equivocators := insert (vote_validator_pubkey vote) (nd_equivocators n),
                           nd_slashing_records := nd_slashing_records n @ [(kind, ev)]\<rparr>
                    else n
      | None \<Rightarrow> n)"

text \<open>The result, whether the vote is relayed, and the new state.\<close>

definition handle_vote_section :: "NodeEnv \<Rightarrow> Vote \<Rightarrow> bool \<Rightarrow> Node \<Rightarrow> HandlingResult \<times> bool \<times> Node" where
  "handle_vote_section env vote from_network n =
     (if from_network \<and> \<not> en_running env then (SoftReject ''not-running'', False, n)
      else if vote_height vote \<noteq> nd_finalized_height n + 1 then
        (case (if vote_height vote = nd_finalized_height n then record_late_finalized_vote env vote n else (False, n)) of
           (True, n) \<Rightarrow> (SoftReject ''late-finalized-vote-recorded'', False, n)
         | (False, n) \<Rightarrow> if vote_height vote \<le> nd_finalized_height n then (SoftReject ''stale-finalized-height'', False, n)
                           else (SoftReject ''future-height'', False, n))
      else if vote_round vote > nd_current_round n then (SoftReject ''future-round'', False, n)
      else if \<not> is_committee_member_for env n (vote_validator_pubkey vote) (vote_height vote) (vote_round vote)
        then (HardReject ''non-member'', False, n)
      else if from_network \<and> \<not> en_rate_ok env then (SoftReject ''rate-limited'', False, n)
      else
        case check_vote_signature env
               (vote_signing_message (en_sha256d env) (en_domain env) (vote_height vote) (vote_round vote)
                  (vote_frontier_transition_id vote))
               vote (nd_vote_verify_cache n) (nd_invalid_vote_verify_cache n) of
          (Some reason, valid, invalid) \<Rightarrow>
            (HardReject reason, False, n\<lparr>nd_vote_verify_cache := valid, nd_invalid_vote_verify_cache := invalid\<rparr>)
        | (None, valid, invalid) \<Rightarrow>
            let known_equivocator = vote_validator_pubkey vote \<in> nd_equivocators n;
                (tr, votes) = vt_add_vote vote (nd_votes n);
                n = note_equivocation Precommit tr vote
                      (n\<lparr>nd_vote_verify_cache := valid, nd_invalid_vote_verify_cache := invalid, nd_votes := votes\<rparr>)
            in if \<not> vr_accepted tr then
                 (SoftReject (if vr_duplicate tr then ''duplicate'' else ''tracker-rejected''), False, n)
               else (Accepted, from_network \<and> \<not> en_muted env \<and> \<not> known_equivocator,
                     snd (finalize_if_quorum env (vote_frontier_transition_id vote) (vote_height vote) (vote_round vote) n)))"

text \<open>The result, whether the prevote is relayed, this node's precommit, and the new state.\<close>

definition handle_prevote_section :: "NodeEnv \<Rightarrow> Vote \<Rightarrow> bool \<Rightarrow> Node \<Rightarrow> HandlingResult \<times> bool \<times> Vote option \<times> Node" where
  "handle_prevote_section env vote from_network n =
     (if from_network \<and> \<not> en_running env then (SoftReject ''not-running'', False, None, n)
      else if vote_height vote \<noteq> nd_finalized_height n + 1 then
        (SoftReject (if vote_height vote \<le> nd_finalized_height n then ''stale-finalized-height'' else ''future-height''),
         False, None, n)
      else if vote_round vote > nd_current_round n then (SoftReject ''future-round'', False, None, n)
      else if \<not> is_committee_member_for env n (vote_validator_pubkey vote) (vote_height vote) (vote_round vote)
        then (HardReject ''non-member'', False, None, n)
      else if from_network \<and> \<not> en_rate_ok env then (SoftReject ''rate-limited'', False, None, n)
      else
        case check_vote_signature env
               (prevote_signing_message (en_sha256d env) (en_domain env) (vote_height vote) (vote_round vote)
                  (vote_frontier_transition_id vote))
               vote (nd_prevote_verify_cache n) (nd_invalid_prevote_verify_cache n) of
          (Some reason, valid, invalid) \<Rightarrow>
            (HardReject reason, False, None, n\<lparr>nd_prevote_verify_cache := valid, nd_invalid_prevote_verify_cache := invalid\<rparr>)
        | (None, valid, invalid) \<Rightarrow>
            let known_equivocator = vote_validator_pubkey vote \<in> nd_equivocators n;
                (tr, prevotes) = vt_add_vote vote (nd_prevotes n);
                n = note_equivocation Prevote tr vote
                      (n\<lparr>nd_prevote_verify_cache := valid, nd_invalid_prevote_verify_cache := invalid, nd_prevotes := prevotes\<rparr>)
            in if \<not> vr_accepted tr then
                 (SoftReject (if vr_duplicate tr then ''duplicate'' else ''tracker-rejected''), False, None, n)
               else case on_prevotes_changed env (vote_frontier_transition_id vote) (vote_height vote) (vote_round vote) n of
                      (precommit, n) \<Rightarrow> (Accepted, from_network \<and> \<not> en_muted env \<and> \<not> known_equivocator, precommit, n))"

text \<open>The calls as the code composes them, once the mutex is free again.\<close>

definition handle_vote_result :: "NodeEnv \<Rightarrow> Vote \<Rightarrow> bool \<Rightarrow> Node \<Rightarrow> HandlingResult \<times> Node" where
  "handle_vote_result env vote from_network n =
     (case handle_vote_section env vote from_network n of (res, relay, n) \<Rightarrow> (res, n))"

definition handle_prevote_result :: "NodeEnv \<Rightarrow> Vote \<Rightarrow> bool \<Rightarrow> Node \<Rightarrow> HandlingResult \<times> Vote option \<times> Node" where
  "handle_prevote_result env vote from_network n =
     (case handle_prevote_section env vote from_network n of
        (res, relay, None, n) \<Rightarrow> (res, None, n)
      | (res, relay, Some precommit, n) \<Rightarrow> (res, Some precommit, snd (handle_vote_result env precommit False n)))"

subsection \<open>Timeout votes\<close>

text \<open>The result, whether the vote is relayed, and the new state.\<close>

definition handle_timeout_vote_section :: "NodeEnv \<Rightarrow> TimeoutVote \<Rightarrow> bool \<Rightarrow> Node \<Rightarrow> HandlingResult \<times> bool \<times> Node" where
  "handle_timeout_vote_section env vote from_network n =
     (if from_network \<and> \<not> en_running env then (SoftReject ''not-running'', False, n)
      else if tv_height vote \<noteq> nd_finalized_height n + 1 then
        (SoftReject (if tv_height vote \<le> nd_finalized_height n then ''stale-finalized-height'' else ''future-height''), False, n)
      else if \<not> is_committee_member_for env n (tv_validator_pubkey vote) (tv_height vote) (tv_round vote)
        then (HardReject ''non-member'', False, n)
      else if \<not> en_verify env (timeout_vote_signing_message (en_sha256d env) (en_domain env) (tv_height vote) (tv_round vote))
                  (tv_signature vote) (tv_validator_pubkey vote)
        then (HardReject ''invalid-signature'', False, n)
      else if tv_round vote > nd_current_round n + kProposalRoundWindow then
        (SoftReject ''future-round'', False,
         maybe_catch_up_round_from_timeout_votes env (tv_height vote)
           (n\<lparr>nd_timeout_votes := note_latest_round vote (nd_timeout_votes n)\<rparr>))
      else
        let key = (tv_height vote, tv_round vote, tv_validator_pubkey vote, tv_signature vote);
            seen_ms = map_of (nd_seen_timeout_votes n) key;
            fresh = (case seen_ms of None \<Rightarrow> False | Some ms \<Rightarrow> en_now_ms env \<le> ms + kTimeoutVoteMessageDedupTtlMs);
            n = (if from_network then n\<lparr>nd_seen_timeout_votes := omap_upd key (en_now_ms env) (nd_seen_timeout_votes n)\<rparr> else n)
        in if from_network \<and> fresh then (SoftReject ''duplicate'', False, n)
           else
             let (tr, timeouts) = tt_add_vote vote (nd_timeout_votes n);
                 n = n\<lparr>nd_timeout_votes := timeouts\<rparr>
             in if \<not> tr_accepted tr then
                  (if tr_stale tr then (SoftReject ''stale-round-outside-window'', False, n)
                   else if \<not> tr_duplicate tr then (HardReject ''tracker-rejected'', False, n)
                   else (SoftReject ''duplicate'', False, n))
                else (Accepted, from_network \<and> \<not> en_muted env,
                      maybe_catch_up_round_from_timeout_votes env (tv_height vote)
                        (maybe_record_timeout_certificate env (tv_height vote) (tv_round vote) n)))"

text \<open>\<^verbatim>\<open>prune_caches_locked\<close>; \<open>kept\<close> is the size of the map at each step of the loop.\<close>

fun prune_seen ::
  "u64 \<Rightarrow> u64 \<Rightarrow> nat \<Rightarrow> (u64 \<times> u32 \<times> pubkey32 \<times> sig64, u64) omap \<Rightarrow> (u64 \<times> u32 \<times> pubkey32 \<times> sig64, u64) omap" where
  "prune_seen now height kept [] = []"
| "prune_seen now height kept ((k, ms) # m) =
     (if ms + kTimeoutVoteMessageDedupTtlMs < now \<or> fst k + 2 < height \<or> kept > kMaxSeenTimeoutVoteMessages
      then prune_seen now height (kept - 1) m
      else (k, ms) # prune_seen now height kept m)"

definition prune_caches :: "NodeEnv \<Rightarrow> u64 \<Rightarrow> u32 \<Rightarrow> Node \<Rightarrow> Node" where
  "prune_caches env height round n =
     n\<lparr>nd_proposed_in_round := {k \<in> nd_proposed_in_round n.
         \<not> (fst k < height \<or> fst k = height \<and> snd k + kProposalRoundWindow < round)},
       nd_seen_timeout_votes :=
         prune_seen (en_now_ms env) height (length (nd_seen_timeout_votes n)) (nd_seen_timeout_votes n)\<rparr>"

subsection \<open>Proposals\<close>

text \<open>
  The checks of a proposal, in the order of the code: a rejection, or the parsed proposal, the round of
  its proof of lock and the prevotes of that proof.
\<close>

definition check_justification :: "NodeEnv \<Rightarrow> ProposeMsg \<Rightarrow> hash32 \<Rightarrow> Node \<Rightarrow> HandlingResult + FinalitySig list" where
  "check_justification env msg tid n =
     (let committee = committee_for_height_round env n (pm_height msg) (pm_round msg);
          singleton_fallback_round = pm_round msg > 0 \<and> length committee = 1
      in if pm_round msg > 0 \<and> \<not> singleton_fallback_round \<and> pm_pol msg = None \<and> pm_justify_tc msg = None
         then Inl (HardReject ''missing-justify'')
         else
           let pol = (case pm_pol msg of
                        None \<Rightarrow> Inr []
                      | Some qc \<Rightarrow>
                          (case verify_polka env n qc False of
                             Inl e \<Rightarrow> Inl (HardReject ''invalid-pol'')
                           | Inr pol_prevotes \<Rightarrow>
                               if qc_height qc \<noteq> pm_height msg then Inl (HardReject ''wrong-pol-height'')
                               else if qc_frontier_transition_id qc \<noteq> tid then Inl (HardReject ''pol-mismatch'')
                               else Inr pol_prevotes))
           in case pol of
                Inl e \<Rightarrow> Inl e
              | Inr pol_prevotes \<Rightarrow>
                  (case pm_justify_tc msg of
                     None \<Rightarrow> Inr pol_prevotes
                   | Some tc \<Rightarrow>
                       (case verify_timeout_certificate env n tc False of
                          Inl e \<Rightarrow> Inl (HardReject ''invalid-tc'')
                        | Inr filtered \<Rightarrow>
                            if tc_height tc \<noteq> pm_height msg then Inl (HardReject ''wrong-tc-height'')
                            else if tc_round tc \<ge> pm_round msg then Inl (HardReject ''non-lower-tc-round'')
                            else Inr pol_prevotes)))"

definition check_propose :: "NodeEnv \<Rightarrow> ProposeMsg \<Rightarrow> bool \<Rightarrow> Node \<Rightarrow> HandlingResult + FrontierProposal \<times> FinalitySig list" where
  "check_propose env msg from_network n =
     (if pm_height msg \<noteq> nd_finalized_height n + 1 then
        Inl (SoftReject (if pm_height msg > nd_finalized_height n + 1 then ''future-height'' else ''stale-height''))
      else if pm_round msg < nd_current_round n then Inl (SoftReject ''stale-round'')
      else if pm_prev_finalized_hash msg \<noteq> nd_finalized_id n then Inl (HardReject ''prev-hash-mismatch'')
      else case fpr_parse (pm_frontier_proposal_bytes msg) of
             None \<Rightarrow> Inl (HardReject ''frontier-proposal-parse-failed'')
           | Some p \<Rightarrow>
               let t = fpr_transition p;
                   pol_round = map_option qc_round (pm_pol msg);
                   shape_ok = (case pol_round of
                                 Some pol \<Rightarrow> ft_round t \<le> pol \<and> pol < pm_round msg
                               | None \<Rightarrow> ft_round t = pm_round msg);
                   tid = transition_id (en_sha256d env) t;
                   leader = leader_for_next_height env n (pm_height msg) (pm_round msg)
               in if ft_height t \<noteq> pm_height msg \<or> \<not> shape_ok then Inl (HardReject ''header-mismatch'')
                  else if ft_prev_finalized_hash t \<noteq> pm_prev_finalized_hash msg then Inl (HardReject ''prev-hash-mismatch'')
                  else if (case leader of
                             None \<Rightarrow> True
                           | Some l \<Rightarrow> \<not> en_verify env (propose_signing_message (en_sha256d env) (en_domain env) (pm_height msg)
                                           (pm_round msg) tid pol_round) (pm_proposer_signature msg) l)
                    then Inl (HardReject ''invalid-proposer-signature'')
                  else
                    let local_cached = \<not> from_network \<and> leader = Some (en_pub env) \<and> map_of (nd_candidates n) tid \<noteq> None
                    in case (if local_cached then None else en_validate env (nd_finalized_id n) p) of
                         Some e \<Rightarrow> Inl (HardReject e)
                       | None \<Rightarrow> map_sum id (\<lambda>pol_prevotes. (p, pol_prevotes)) (check_justification env msg tid n))"

text \<open>The proposal becomes a candidate, and its proof of lock counts as received prevotes.\<close>

definition store_candidate :: "NodeEnv \<Rightarrow> ProposeMsg \<Rightarrow> FrontierProposal \<Rightarrow> FinalitySig list \<Rightarrow> Node \<Rightarrow> (HandlingResult \<times> Node) + Node" where
  "store_candidate env msg p pol_prevotes n =
     (let tid = transition_id (en_sha256d env) (fpr_transition p);
          n = (if pm_round msg > nd_current_round n then n\<lparr>nd_current_round := pm_round msg\<rparr> else n);
          sz = length (pm_frontier_proposal_bytes msg);
          total_size = (\<Sum>(k, s) \<leftarrow> nd_candidate_block_sizes n. s);
          is_new = map_of (nd_candidates n) tid = None
      in if is_new \<and> (length (nd_candidates n) \<ge> kMaxCandidateBlocks \<or> total_size + sz > kMaxCandidateBlockBytes)
         then Inl (SoftReject ''candidate-cache-full'', n)
         else
           let n = (if is_new then n\<lparr>nd_candidate_block_sizes := omap_upd tid sz (nd_candidate_block_sizes n)\<rparr> else n);
               n = n\<lparr>nd_candidates := omap_upd tid p (nd_candidates n)\<rparr>;
               pol_round = (case pm_pol msg of None \<Rightarrow> 0 | Some q \<Rightarrow> qc_round q);
               n = n\<lparr>nd_prevotes := foldl (\<lambda>t s. snd (vt_add_vote \<lparr>vote_height = pm_height msg, vote_round = pol_round,
                       vote_frontier_transition_id = tid, vote_validator_pubkey = fs_validator_pubkey s,
                       vote_signature = fs_signature s\<rparr> t)) (nd_prevotes n) pol_prevotes\<rparr>
           in Inr (prune_caches env (pm_height msg) (pm_round msg) n))"

definition defer_certified_vote :: "hash32 \<Rightarrow> ProposeMsg \<Rightarrow> int \<Rightarrow> Node \<Rightarrow> Node" where
  "defer_certified_vote tid msg from_peer_id n =
     (let m = nd_deferred_certified_votes n;
          m = (if length m \<ge> kMaxDeferredCertifiedVotes then tl m else m)
      in n\<lparr>nd_deferred_certified_votes := omap_upd tid (msg, from_peer_id) m\<rparr>)"

text \<open>The vote on a stored candidate: this node's prevote, if it casts one.\<close>

definition vote_on_candidate ::
  "NodeEnv \<Rightarrow> ProposeMsg \<Rightarrow> FrontierProposal \<Rightarrow> int \<Rightarrow> Node \<Rightarrow> HandlingResult \<times> Vote option \<times> Node" where
  "vote_on_candidate env msg p from_peer_id n =
     (let tid = transition_id (en_sha256d env) (fpr_transition p);
          key = (pm_height msg, pm_round msg);
          pol_round = map_option qc_round (pm_pol msg);
          can_vote = is_committee_member_for env n (en_pub env) (pm_height msg) (pm_round msg)
            \<and> map_of (nd_local_prevotes n) key = None
            \<and> map_of (nd_local_timed_out_rounds n) key = None
            \<and> \<not> pm_round msg < local_vote_round_floor n (pm_height msg)
            \<and> \<not> ft_timestamp (fpr_transition p) > en_now_unix env + kMaxTransitionTimestampDriftS
            \<and> can_prevote n (pm_height msg) tid pol_round
      in if \<not> can_vote then (Accepted, None, n)
         else case en_ingress_status env (nd_finalized_id n) p of
                Missing \<Rightarrow> (Accepted, None, defer_certified_vote tid msg from_peer_id n)
              | Invalid \<Rightarrow> (Accepted, None, n)
              | Ready \<Rightarrow>
                  (case sign_consensus env n
                          (prevote_signing_message (en_sha256d env) (en_domain env) (pm_height msg) (pm_round msg) tid) of
                     None \<Rightarrow> (SoftReject ''local-prevote-sign-failed'', None, n)
                   | Some sig \<Rightarrow>
                       (case record_local_prevote (pm_height msg) (pm_round msg) tid n of
                          (False, n) \<Rightarrow> (Accepted, None, n)
                        | (True, n) \<Rightarrow> (Accepted, Some (own_vote env (pm_height msg) (pm_round msg) tid sig), n))))"

definition handle_propose_section ::
  "NodeEnv \<Rightarrow> ProposeMsg \<Rightarrow> bool \<Rightarrow> int \<Rightarrow> Node \<Rightarrow> (HandlingResult \<times> Vote option \<times> Node) option" where
  "handle_propose_section env msg from_network from_peer_id n =
     (if from_network \<and> \<not> en_running env then Some (SoftReject ''not-running'', None, n)
      else case check_propose env msg from_network n of
             Inl rejected \<Rightarrow> Some (rejected, None, n)
           | Inr (p, pol_prevotes) \<Rightarrow>
               (case store_candidate env msg p pol_prevotes n of
                  Inl (rejected, n) \<Rightarrow> Some (rejected, None, n)
                | Inr n \<Rightarrow>
                    (case on_candidate_body env (fpr_transition p) n of
                       None \<Rightarrow> None
                     | Some n \<Rightarrow>
                         if nd_finalized_height n \<ge> pm_height msg then Some (Accepted, None, n)
                         else Some (vote_on_candidate env msg p from_peer_id n))))"

definition handle_propose_result ::
  "NodeEnv \<Rightarrow> ProposeMsg \<Rightarrow> bool \<Rightarrow> int \<Rightarrow> Node \<Rightarrow> (HandlingResult \<times> Vote option \<times> Node) option" where
  "handle_propose_result env msg from_network from_peer_id n =
     (case handle_propose_section env msg from_network from_peer_id n of
        None \<Rightarrow> None
      | Some (res, None, n) \<Rightarrow> Some (res, None, n)
      | Some (res, Some prevote, n) \<Rightarrow>
          (case handle_prevote_result env prevote False n of (r, precommit, n) \<Rightarrow> Some (res, Some prevote, n)))"

definition retry_deferred_certified_votes :: "u64 list \<Rightarrow> Node \<Rightarrow> (ProposeMsg \<times> int) list \<times> Node" where
  "retry_deferred_certified_votes local_tips n =
     (let dropped = (\<lambda>(tid, msg, peer). pm_height msg \<noteq> nd_finalized_height n + 1 \<or> pm_round msg < nd_current_round n);
          complete = (\<lambda>(tid, msg, peer). case fpr_parse (pm_frontier_proposal_bytes msg) of
              None \<Rightarrow> False
            | Some p \<Rightarrow> list_all2 (\<lambda>tip seq. tip \<ge> seq) local_tips (fv_lane_max_seq (ft_next_vector (fpr_transition p))));
          m = nd_deferred_certified_votes n
      in (map snd (filter (\<lambda>e. \<not> dropped e \<and> complete e) m),
          n\<lparr>nd_deferred_certified_votes := filter (\<lambda>e. \<not> dropped e \<and> \<not> complete e) m\<rparr>))"

text \<open>The queued precommits leave the node, unless it has stopped.\<close>

definition flush_pending :: "Node \<Rightarrow> Vote list \<times> (FrontierProposal \<times> FinalityCertificate) list \<times> Node" where
  "flush_pending n =
     (if safety_storage_failed n then [] else nd_pending_local_precommits n, nd_pending_finalized n,
      n\<lparr>nd_pending_local_precommits := [], nd_pending_finalized := []\<rparr>)"

text \<open>
  The leader's side, in the event loop: the valid value is proposed again, unchanged and with its polka;
  otherwise a fresh transition, which \<open>built\<close> provides.
\<close>

definition build_proposal :: "NodeEnv \<Rightarrow> u64 \<Rightarrow> u32 \<Rightarrow> FrontierProposal option \<Rightarrow> Node \<Rightarrow> ProposeMsg option \<times> Node" where
  "build_proposal env build_height build_round built n =
     (let polka = (case map_of (nd_valid_polka_by_height n) build_height of
                     None \<Rightarrow> None
                   | Some q \<Rightarrow> if qc_round q < build_round then Some q else None);
          reproposal = (case polka of
                          None \<Rightarrow> None
                        | Some q \<Rightarrow> map_option (\<lambda>p. (p, q)) (map_of (nd_candidates n) (qc_frontier_transition_id q)))
      in case (case reproposal of None \<Rightarrow> map_option (\<lambda>p. (p, None)) built | Some (p, q) \<Rightarrow> Some (p, Some q)) of
           None \<Rightarrow> (None, n)
         | Some (selected, pol) \<Rightarrow>
             let tid = transition_id (en_sha256d env) (fpr_transition selected)
             in case sign_consensus env n (propose_signing_message (en_sha256d env) (en_domain env) build_height build_round tid
                       (map_option qc_round pol)) of
                  None \<Rightarrow> (None, n)
                | Some sig \<Rightarrow>
                    if nd_finalized_height n + 1 = build_height \<and> nd_current_round n = build_round
                       \<and> (build_height, build_round) \<notin> nd_proposed_in_round n
                    then (Some \<lparr>pm_height = build_height, pm_round = build_round,
                            pm_prev_finalized_hash = ft_prev_finalized_hash (fpr_transition selected),
                            pm_frontier_proposal_bytes = fpr_serialize selected, pm_pol = pol,
                            pm_justify_tc = (if build_round > 0 then map_of (nd_highest_tc_by_height n) build_height else None),
                            pm_proposer_signature = sig\<rparr>,
                          n\<lparr>nd_proposed_in_round := insert (build_height, build_round) (nd_proposed_in_round n),
                            nd_candidates := omap_upd tid selected (nd_candidates n),
                            nd_candidate_block_sizes := omap_upd tid (length (fpr_serialize selected)) (nd_candidate_block_sizes n)\<rparr>)
                    else (None, n))"

subsection \<open>Blocks delivered by peers\<close>

text \<open>
  \<^verbatim>\<open>handle_frontier_block_locked\<close> of a running node. \<open>lanes_ok\<close> says that the block's certified lane
  records match it and are stored.
\<close>

definition handle_frontier_block ::
  "NodeEnv \<Rightarrow> FrontierProposal \<Rightarrow> FinalityCertificate option \<Rightarrow> bool \<Rightarrow> bool \<Rightarrow> Node \<Rightarrow> (bool \<times> Node) option" where
  "handle_frontier_block env p certificate lanes_ok from_network n =
     (let t = fpr_transition p;
          tid = transition_id (en_sha256d env) t
      in if \<not> en_running env \<and> from_network then Some (False, n)
         else if ft_height t \<le> nd_finalized_height n
           then Some (ft_height t = nd_finalized_height n \<and> tid = nd_finalized_id n, n)
         else if ft_height t > nd_finalized_height n + 1 \<or> ft_prev_finalized_hash t \<noteq> nd_finalized_id n then Some (False, n)
         else case certificate of
                Some cert \<Rightarrow>
                  (case verify_finality_certificate_for_frontier env cert t of
                     Inl e \<Rightarrow> Some (False, n)
                   | Inr canonical_sigs \<Rightarrow>
                       let expected_committee = canonical_committee env n (ft_height t) (fc_round cert)
                       in if \<not> lanes_ok \<or> \<not> en_records_stored env t \<or> \<not> record_extends_tip env n p then Some (False, n)
                          else if fc_committee_members cert \<noteq> expected_committee
                                  \<or> unat (fc_quorum_threshold cert) \<noteq> quorum_threshold (length expected_committee)
                            then Some (False, n)
                          else Some (apply_finalized_frontier_effects env p (fc_round cert) canonical_sigs expected_committee n))
              | None \<Rightarrow>
                  if from_network \<and> ft_height t = nd_finalized_height n + 1 then Some (False, n)
                  else if en_validate env (nd_finalized_id n) p \<noteq> None then Some (False, n)
                  else map_option (\<lambda>n. (True, n)) (on_candidate_body env t
                         (n\<lparr>nd_candidates := omap_upd tid p (nd_candidates n),
                            nd_candidate_block_sizes := omap_upd tid (length (fpr_serialize p)) (nd_candidate_block_sizes n)\<rparr>)))"

subsection \<open>Startup\<close>

text \<open>
  The part of \<^verbatim>\<open>load_state\<close> that restores the votes, for one height with a row; when a write fails the
  result is false and the node does not start. Rows of finalized heights are erased; that erasure is not
  checked by the code and is taken to succeed.
\<close>

definition readable_copy :: "row_copy option \<Rightarrow> row_copy option \<Rightarrow> (ConsensusSafetyState \<times> bool) option" where
  "readable_copy primary mirror =
     (let primary_inner = Option.bind primary (\<lambda>c. unseal_copy c False);
          mirror_inner = Option.bind mirror (\<lambda>c. unseal_copy c True);
          copies_disagree = primary_inner \<noteq> None \<and> mirror_inner \<noteq> None \<and> primary_inner \<noteq> mirror_inner
      in if copies_disagree then None
         else case Option.bind primary_inner parse_inner of
                Some st \<Rightarrow> Some (st, False)
              | None \<Rightarrow> map_option (\<lambda>st. (st, True)) (Option.bind mirror_inner parse_inner))"

definition outside_committee :: "NodeEnv \<Rightarrow> Node \<Rightarrow> u64 \<Rightarrow> bool" where
  "outside_committee env n height \<longleftrightarrow>
     height = nd_finalized_height n + 1
     \<and> length (committee_for_height_round env n height 0) \<ge> 2
     \<and> en_pub env \<notin> set (committee_for_height_round env n height 0)"

definition quarantine_height :: "u64 \<Rightarrow> Disk \<Rightarrow> Disk" where
  "quarantine_height height d =
     d\<lparr>dk_quarantine := insert height (dk_quarantine d), dk_primary := omap_del height (dk_primary d),
       dk_mirror := omap_del height (dk_mirror d)\<rparr>"

definition drop_row :: "u64 \<Rightarrow> Disk \<Rightarrow> Disk" where
  "drop_row height d = d\<lparr>dk_primary := omap_del height (dk_primary d), dk_mirror := omap_del height (dk_mirror d)\<rparr>"

definition write_or_stop :: "(Disk \<Rightarrow> Disk) \<Rightarrow> Node \<Rightarrow> bool \<times> Node" where
  "write_or_stop batch n = (case write_batch_durable batch (nd_disk n) of (ok, d) \<Rightarrow> (ok, n\<lparr>nd_disk := d\<rparr>))"

definition load_safety_row :: "NodeEnv \<Rightarrow> u64 \<Rightarrow> Node \<Rightarrow> bool \<times> Node" where
  "load_safety_row env height n =
     (let primary = map_of (dk_primary (nd_disk n)) height;
          mirror = map_of (dk_mirror (nd_disk n)) height
      in case readable_copy primary mirror of
           None \<Rightarrow> if outside_committee env n height then write_or_stop (drop_row height) n
                    else write_or_stop (quarantine_height height) n
         | Some (st, from_mirror) \<Rightarrow>
             let polka_valid = (case cs_valid_polka st of
                                  None \<Rightarrow> True
                                | Some q \<Rightarrow> qc_height q = height \<and> \<not> isl (verify_polka env n q False));
                 n = (case cs_lock st of None \<Rightarrow> n
                      | Some lock \<Rightarrow> n\<lparr>nd_local_vote_locks := omap_upd height lock (nd_local_vote_locks n)\<rparr>);
                 n = n\<lparr>nd_local_prevotes :=
                        foldl (\<lambda>m (r, tid). omap_upd (height, r) tid m) (nd_local_prevotes n) (cs_prevotes st)\<rparr>;
                 n = (if polka_valid then
                        (case cs_valid_polka st of None \<Rightarrow> n
                         | Some q \<Rightarrow> n\<lparr>nd_valid_polka_by_height := omap_upd height q (nd_valid_polka_by_height n)\<rparr>)
                      else n);
                 needs_rewrite = \<not> polka_valid \<or> from_mirror \<or> Option.bind mirror (\<lambda>c. unseal_copy c True) = None
             in if needs_rewrite then persist_consensus_safety_state height (consensus_safety_state n height) n
                else (True, n))"

fun load_each :: "(u64 \<Rightarrow> Node \<Rightarrow> bool \<times> Node) \<Rightarrow> u64 list \<Rightarrow> Node \<Rightarrow> bool \<times> Node" where
  "load_each f [] n = (True, n)"
| "load_each f (h # hs) n = (case f h n of (True, n) \<Rightarrow> load_each f hs n | (False, n) \<Rightarrow> (False, n))"

text \<open>A height up to the high-water mark without any row has lost both copies.\<close>

definition quarantine_missing :: "NodeEnv \<Rightarrow> u64 set \<Rightarrow> u64 \<Rightarrow> Node \<Rightarrow> bool \<times> Node" where
  "quarantine_missing env safety_heights height n =
     (if height \<in> safety_heights \<or> height \<in> dk_quarantine (nd_disk n) \<or> outside_committee env n height then (True, n)
      else write_or_stop (\<lambda>d. d\<lparr>dk_quarantine := insert height (dk_quarantine d)\<rparr>) n)"

definition missing_span :: "u64 \<Rightarrow> u64 \<Rightarrow> u64 list" where
  "missing_span fin highwater =
     takeWhile (\<lambda>h. h \<le> highwater \<and> h \<le> fin + kMaxMissingSafetySpan)
       (map (\<lambda>i. fin + 1 + word_of_nat i) [0..<unat kMaxMissingSafetySpan])"

definition restore_valid_proposal :: "NodeEnv \<Rightarrow> (u64 \<times> FrontierProposal) \<Rightarrow> Node \<Rightarrow> Node" where
  "restore_valid_proposal env = (\<lambda>(height, p) n.
     (let tid = transition_id (en_sha256d env) (fpr_transition p)
      in case map_of (nd_valid_polka_by_height n) height of
           None \<Rightarrow> n
         | Some q \<Rightarrow>
             if ft_height (fpr_transition p) \<noteq> height \<or> tid \<noteq> qc_frontier_transition_id q then n
             else n\<lparr>nd_candidate_block_sizes := omap_upd tid (length (fpr_serialize p)) (nd_candidate_block_sizes n),
                    nd_candidates := omap_upd tid p (nd_candidates n)\<rparr>))"

text \<open>The operator's override for a quarantined height.\<close>

definition discard_vote_lock :: "u64 option \<Rightarrow> Node \<Rightarrow> bool \<times> Node" where
  "discard_vote_lock unsafe_height n =
     (case unsafe_height of
        None \<Rightarrow> (True, n)
      | Some h \<Rightarrow>
          if h \<notin> nd_abstain_heights n then (True, n)
          else case write_or_stop (\<lambda>d. d\<lparr>dk_quarantine := dk_quarantine d - {h},
                      dk_locked_proposal := omap_del h (dk_locked_proposal d),
                      dk_highwater := (if dk_highwater d = h then h - 1 else dk_highwater d)\<rparr>) n of
                 (False, n) \<Rightarrow> (False, n)
               | (True, n) \<Rightarrow> (True, n\<lparr>nd_abstain_heights := nd_abstain_heights n - {h}\<rparr>))"

definition load_safety_state :: "NodeEnv \<Rightarrow> Node \<Rightarrow> bool \<times> Node" where
  "load_safety_state env n =
     (let fin = nd_finalized_height n;
          n = n\<lparr>nd_abstain_heights := {},
                nd_disk := (nd_disk n)\<lparr>dk_primary := filter (\<lambda>e. fst e > fin) (dk_primary (nd_disk n)),
                                       dk_mirror := filter (\<lambda>e. fst e > fin) (dk_mirror (nd_disk n))\<rparr>\<rparr>;
          safety_heights = sort (remdups (map fst (dk_primary (nd_disk n)) @ map fst (dk_mirror (nd_disk n))))
      in case load_each (load_safety_row env) safety_heights n of
           (False, n) \<Rightarrow> (False, n)
         | (True, n) \<Rightarrow>
             (case load_each (quarantine_missing env (set safety_heights)) (missing_span fin (dk_highwater (nd_disk n))) n of
                (False, n) \<Rightarrow> (False, n)
              | (True, n) \<Rightarrow>
                  let n = n\<lparr>nd_disk := (nd_disk n)\<lparr>dk_quarantine := {h \<in> dk_quarantine (nd_disk n). h > fin}\<rparr>\<rparr>;
                      n = n\<lparr>nd_abstain_heights := dk_quarantine (nd_disk n)\<rparr>
                  in case discard_vote_lock (en_unsafe_discard_vote_lock_height env) n of
                       (False, n) \<Rightarrow> (False, n)
                     | (True, n) \<Rightarrow>
                         let proposals = filter (\<lambda>e. fst e > fin) (dk_locked_proposal (nd_disk n));
                             n = n\<lparr>nd_disk := (nd_disk n)\<lparr>dk_locked_proposal := proposals\<rparr>\<rparr>
                         in (True, foldl (\<lambda>n e. restore_valid_proposal env e n) n proposals)))"

text \<open>
  A process that starts: nothing in memory but what the disk has. \<^verbatim>\<open>init\<close> then forgets the round state
  and puts the node's own votes back into the trackers.
\<close>

definition empty_tip_votes :: FinalizedTipVotes where
  "empty_tip_votes = \<lparr>tp_height = 0, tp_round = 0, tp_transition_id = zero_hash, tp_committee = {}, tp_sigs = []\<rparr>"

definition fresh_node :: "VoteLimits \<Rightarrow> TimeoutLimits \<Rightarrow> Disk \<Rightarrow> Node" where
  "fresh_node limits timeout_limits d =
     \<lparr>nd_finalized_height = fst (dk_finalized d), nd_finalized_id = snd (dk_finalized d), nd_current_round = 0,
      nd_round_started_ms = 0, nd_votes = vt_new limits, nd_prevotes = vt_new limits, nd_timeout_votes = tt_new timeout_limits,
      nd_local_vote_locks = [], nd_local_prevotes = [], nd_valid_polka_by_height = [], nd_highest_tc_by_height = [],
      nd_local_vote_reservations = {}, nd_local_timeout_vote_reservations = {}, nd_local_timed_out_rounds = [],
      nd_proposed_in_round = {}, nd_abstain_heights = {}, nd_candidates = [], nd_candidate_block_sizes = [],
      nd_deferred_certified_votes = [], nd_pending_local_precommits = [], nd_pending_finalized = [],
      nd_finalized_tip_votes = empty_tip_votes, nd_vote_verify_cache = fc_new 20000,
      nd_invalid_vote_verify_cache = fc_new 20000, nd_prevote_verify_cache = fc_new 20000,
      nd_invalid_prevote_verify_cache = fc_new 20000, nd_equivocators = {}, nd_slashing_records = [],
      nd_seen_timeout_votes = [], nd_safety_storage_failed = False, nd_disk = d\<lparr>dk_fenced := False\<rparr>\<rparr>"

definition start_node :: "NodeEnv \<Rightarrow> VoteLimits \<Rightarrow> TimeoutLimits \<Rightarrow> Disk \<Rightarrow> bool \<times> Node" where
  "start_node env limits timeout_limits d =
     (case load_safety_state env (fresh_node limits timeout_limits d) of
        (False, n) \<Rightarrow> (False, n)
      | (True, n) \<Rightarrow>
          (True, reseed_local_votes env (nd_finalized_height n + 1)
             (n\<lparr>nd_current_round := 0, nd_round_started_ms := en_now_ms env, nd_candidate_block_sizes := [],
                nd_highest_tc_by_height := omap_del (nd_finalized_height n + 1) (nd_highest_tc_by_height n)\<rparr>)))"

end
