(* ===== verification/Vote_Laws.thy ===== *)
theory Vote_Laws
  imports Node_Consensus
begin

text \<open>
  The votes of a network as its nodes' disks record them. A vote is \<open>cast\<close> when its record reached the
  disk of its signer. \<open>vote_laws\<close> are the rules that one node's cast votes obey; when every honest
  validator obeys them and less than a third of each committee is faulty, no two honest nodes finalize
  different transitions at one height.
\<close>

subsection \<open>Quorums\<close>

text \<open>Two quorums of one committee share an honest member when less than a third is faulty.\<close>

locale quorum_system =
  fixes size_of :: nat and threshold :: nat
  assumes threshold_large: "2 * size_of < 3 * threshold"
begin

lemma quorums_intersect:
  assumes "card C \<le> size_of" and "finite C" and "A \<subseteq> C" and "B \<subseteq> C" and "threshold \<le> card A" and "threshold \<le> card B"
    and "3 * card (C - H) < size_of"
  shows "\<exists>x \<in> A \<inter> B. x \<in> H"
proof -
  have fin: "finite A" "finite B" using assms finite_subset by blast+
  have "card A + card B = card (A \<union> B) + card (A \<inter> B)" by (rule card_Un_Int [OF fin])
  moreover have "card (A \<union> B) \<le> size_of" using card_mono [of C "A \<union> B"] assms(1-4) by simp
  ultimately have larger: "card (C - H) < card (A \<inter> B)" using assms(5-7) threshold_large by linarith
  have "\<not> A \<inter> B \<subseteq> C - H"
    using larger card_mono [of "C - H" "A \<inter> B"] assms(2) by auto
  with assms(3) show ?thesis by blast
qed

lemma quorum_has_honest:
  assumes "A \<subseteq> C" and "finite C" and "card C \<le> size_of" and "threshold \<le> card A" and "3 * card (C - H) < size_of"
  shows "\<exists>x \<in> A. x \<in> H"
  using quorums_intersect [of C A A H] assms by auto

end

interpretation qt: quorum_system m "quorum_threshold m" for m
  by unfold_locales (simp add: quorum_threshold_def)
subsection \<open>The network and the votes on disk\<close>

text \<open>What all nodes of a network agree on, and which validators run this code.\<close>

record Net =
  nt_sha256d :: "bytes \<Rightarrow> hash32"
  nt_verify :: "bytes \<Rightarrow> sig64 \<Rightarrow> pubkey32 \<Rightarrow> bool"
  nt_domain :: hash32
  nt_epoch_blocks :: u64
  nt_checkpoints :: "hash32 \<Rightarrow> (u64, FinalizedCommitteeCheckpoint) omap"
  nt_genesis :: hash32
  nt_honest :: "pubkey32 set"

definition env_of :: "Net \<Rightarrow> pubkey32 \<Rightarrow> NodeEnv \<Rightarrow> bool" where
  "env_of C p env \<longleftrightarrow> en_sha256d env = nt_sha256d C \<and> en_verify env = nt_verify C \<and> en_domain env = nt_domain C
     \<and> en_epoch_blocks env = nt_epoch_blocks C \<and> en_checkpoints env = nt_checkpoints C \<and> en_pub env = p"

definition comm :: "Net \<Rightarrow> hash32 \<Rightarrow> u64 \<Rightarrow> pubkey32 list" where
  "comm C par h = canonical_committee_for_height_round (nt_checkpoints C par) (nt_epoch_blocks C) h 0"

type_synonym disk_log = "disk_write set"

definition cast_prevote :: "disk_log \<Rightarrow> u64 \<Rightarrow> u32 \<Rightarrow> hash32 \<Rightarrow> bool" where
  "cast_prevote L h r tid \<longleftrightarrow> (\<exists>st. Safety_Row h st \<in> L \<and> map_of (cs_prevotes st) r = Some tid)"

definition cast_precommit :: "disk_log \<Rightarrow> u64 \<Rightarrow> u32 \<Rightarrow> hash32 \<Rightarrow> bool" where
  "cast_precommit L h r tid \<longleftrightarrow> (\<exists>st. Safety_Row h st \<in> L \<and> cs_lock st = Some (tid, r))"

definition is_parent :: "disk_log \<Rightarrow> u64 \<Rightarrow> hash32 \<Rightarrow> bool" where
  "is_parent L h par \<longleftrightarrow> Finalized_Tip (h - 1) par \<in> L"

definition polka :: "Net \<Rightarrow> (pubkey32 \<Rightarrow> disk_log) \<Rightarrow> hash32 \<Rightarrow> u64 \<Rightarrow> u32 \<Rightarrow> hash32 \<Rightarrow> bool" where
  "polka C V par h r tid \<longleftrightarrow> (\<exists>Q \<subseteq> set (comm C par h). quorum_threshold (length (comm C par h)) \<le> card Q
     \<and> (\<forall>q \<in> Q \<inter> nt_honest C. cast_prevote (V q) h r tid))"

definition commit :: "Net \<Rightarrow> (pubkey32 \<Rightarrow> disk_log) \<Rightarrow> hash32 \<Rightarrow> u64 \<Rightarrow> u32 \<Rightarrow> hash32 \<Rightarrow> bool" where
  "commit C V par h r tid \<longleftrightarrow> (\<exists>Q \<subseteq> set (comm C par h). quorum_threshold (length (comm C par h)) \<le> card Q
     \<and> (\<forall>q \<in> Q \<inter> nt_honest C. cast_precommit (V q) h r tid))"

lemma cast_mono:
  "cast_prevote L h r tid \<Longrightarrow> L \<subseteq> L' \<Longrightarrow> cast_prevote L' h r tid"
  "cast_precommit L h r tid \<Longrightarrow> L \<subseteq> L' \<Longrightarrow> cast_precommit L' h r tid"
  "is_parent L h par \<Longrightarrow> L \<subseteq> L' \<Longrightarrow> is_parent L' h par"
  by (auto simp: cast_prevote_def cast_precommit_def is_parent_def)

lemma quorum_mono:
  "\<exists>Q \<subseteq> S. k \<le> card Q \<and> (\<forall>q \<in> Q \<inter> H. P q) \<Longrightarrow> (\<And>q. P q \<Longrightarrow> P' q) \<Longrightarrow> \<exists>Q \<subseteq> S. k \<le> card Q \<and> (\<forall>q \<in> Q \<inter> H. P' q)"
  by blast

lemma polka_mono:
  assumes "polka C V par h r tid" and "\<And>q. V q \<subseteq> V' q"
  shows "polka C V' par h r tid"
  using assms(1) unfolding polka_def by (rule quorum_mono) (rule cast_mono(1) [OF _ assms(2)])

lemma commit_mono:
  assumes "commit C V par h r tid" and "\<And>q. V q \<subseteq> V' q"
  shows "commit C V' par h r tid"
  using assms(1) unfolding commit_def by (rule quorum_mono) (rule cast_mono(2) [OF _ assms(2)])

text \<open>
  A log only grows, and never by a precommit below a round it has a prevote in. A value is dead at a
  round when a quorum is past that round without having precommitted it there.
\<close>

definition extends :: "disk_log \<Rightarrow> disk_log \<Rightarrow> bool" where
  "extends L L' \<longleftrightarrow> L \<subseteq> L'
     \<and> (\<forall>h r0 a r b. cast_prevote L h r b \<longrightarrow> r0 < r \<longrightarrow> cast_precommit L' h r0 a \<longrightarrow> cast_precommit L h r0 a)"

definition dead :: "Net \<Rightarrow> (pubkey32 \<Rightarrow> disk_log) \<Rightarrow> hash32 \<Rightarrow> u64 \<Rightarrow> u32 \<Rightarrow> hash32 \<Rightarrow> bool" where
  "dead C V par h r0 a \<longleftrightarrow> (\<exists>Q \<subseteq> set (comm C par h). quorum_threshold (length (comm C par h)) \<le> card Q
     \<and> (\<forall>q \<in> Q \<inter> nt_honest C. \<not> cast_precommit (V q) h r0 a \<and> (\<exists>r b. r0 < r \<and> cast_prevote (V q) h r b)))"

lemma extendsD:
  assumes "extends L L'"
  shows "L \<subseteq> L'" and "cast_prevote L h r b \<Longrightarrow> r0 < r \<Longrightarrow> cast_precommit L' h r0 a \<Longrightarrow> cast_precommit L h r0 a"
  using assms unfolding extends_def by blast+

lemma extends_refl [simp]: "extends L L"
  by (simp add: extends_def)

lemma extends_trans: "extends L L' \<Longrightarrow> extends L' L'' \<Longrightarrow> extends L L''"
  unfolding extends_def using cast_mono(1) by (meson order_trans)

lemma dead_mono:
  assumes "dead C V par h r0 a" and ext: "\<And>q. extends (V q) (V' q)"
  shows "dead C V' par h r0 a"
  using assms(1) unfolding dead_def
proof (rule quorum_mono)
  fix q assume q: "\<not> cast_precommit (V q) h r0 a \<and> (\<exists>r b. r0 < r \<and> cast_prevote (V q) h r b)"
  then obtain r b where rb: "r0 < r" "cast_prevote (V q) h r b" by blast
  show "\<not> cast_precommit (V' q) h r0 a \<and> (\<exists>r b. r0 < r \<and> cast_prevote (V' q) h r b)"
    using q rb extendsD(2) [OF ext rb(2,1)] cast_mono(1) [OF rb(2) extendsD(1) [OF ext]] by blast
qed

lemma committee_next:
  assumes "env_of C p env" and "h = nd_finalized_height n + 1"
  shows "committee_for_height_round env n h r = comm C (nd_finalized_id n) h"
    and "canonical_committee env n h r = comm C (nd_finalized_id n) h"
  using assms unfolding env_of_def
  by (auto simp: committee_for_height_round_def canonical_committee_def comm_def canonical_committee_for_height_round_def
      epoch_committee_for_next_height_def committee_for_round Let_def split: option.splits)

lemma canonical_committee_any:
  assumes "env_of C p env"
  shows "canonical_committee env n h r = comm C (nd_finalized_id n) h"
  using assms unfolding env_of_def
  by (auto simp: canonical_committee_def comm_def canonical_committee_for_height_round_def committee_for_round split: option.splits)

subsection \<open>The rules that cast votes obey\<close>

definition vote_laws :: "Net \<Rightarrow> (pubkey32 \<Rightarrow> disk_log) \<Rightarrow> pubkey32 \<Rightarrow> bool" where
  "vote_laws C V p \<longleftrightarrow>
     (\<forall>h r a b. cast_prevote (V p) h r a \<longrightarrow> cast_prevote (V p) h r b \<longrightarrow> a = b)
   \<and> (\<forall>h r0 a r b. cast_precommit (V p) h r0 a \<longrightarrow> cast_prevote (V p) h r b \<longrightarrow> r0 < r \<longrightarrow> b \<noteq> a \<longrightarrow>
        (\<exists>par. is_parent (V p) h par \<and> ((\<exists>pr. r0 \<le> pr \<and> pr < r \<and> polka C V par h pr b) \<or> dead C V par h r0 a)))
   \<and> (\<forall>h r a. cast_precommit (V p) h r a \<longrightarrow> (\<exists>par. is_parent (V p) h par \<and> polka C V par h r a))
   \<and> (\<forall>h a. Finalized_Tip h a \<in> V p \<longrightarrow>
        (if h = 0 then a = nt_genesis C else \<exists>par r. is_parent (V p) h par \<and> commit C V par h r a))
   \<and> (\<forall>h r a. cast_prevote (V p) h r a \<or> cast_precommit (V p) h r a \<longrightarrow>
        (\<exists>par. is_parent (V p) h par \<and> p \<in> set (comm C par h)))
   \<and> (\<forall>h a b. Finalized_Tip h a \<in> V p \<longrightarrow> Finalized_Tip h b \<in> V p \<longrightarrow> a = b)"

lemma vote_lawsD:
  assumes "vote_laws C V p"
  shows "cast_prevote (V p) h r a \<Longrightarrow> cast_prevote (V p) h r b \<Longrightarrow> a = b"
    and "cast_precommit (V p) h r0 a \<Longrightarrow> cast_prevote (V p) h r b \<Longrightarrow> r0 < r \<Longrightarrow> b \<noteq> a \<Longrightarrow>
        \<exists>par. is_parent (V p) h par \<and> ((\<exists>pr. r0 \<le> pr \<and> pr < r \<and> polka C V par h pr b) \<or> dead C V par h r0 a)"
    and "cast_precommit (V p) h r a \<Longrightarrow> \<exists>par. is_parent (V p) h par \<and> polka C V par h r a"
    and "Finalized_Tip h a \<in> V p \<Longrightarrow>
        if h = 0 then a = nt_genesis C else \<exists>par r. is_parent (V p) h par \<and> commit C V par h r a"
    and "cast_prevote (V p) h r a \<or> cast_precommit (V p) h r a \<Longrightarrow> \<exists>par. is_parent (V p) h par \<and> p \<in> set (comm C par h)"
    and "Finalized_Tip h a \<in> V p \<Longrightarrow> Finalized_Tip h b \<in> V p \<Longrightarrow> a = b"
  using assms unfolding vote_laws_def by - (elim conjE, blast)+

text \<open>What others cast only adds polkas, commits and dead values.\<close>

lemma vote_laws_mono:
  assumes laws: "vote_laws C V p" and ext: "\<And>q. extends (V q) (V' q)" and same: "V' p = V p"
  shows "vote_laws C V' p"
proof -
  have le: "V q \<subseteq> V' q" for q by (rule extendsD(1) [OF ext])
  note up = polka_mono [where V = V and V' = V', OF _ le] commit_mono [where V = V and V' = V', OF _ le]
    dead_mono [where V = V and V' = V', OF _ ext]
  show ?thesis
    unfolding vote_laws_def same
  proof (intro conjI allI impI)
    fix h r0 a r b
    assume "cast_precommit (V p) h r0 a" "cast_prevote (V p) h r b" "r0 < r" "b \<noteq> a"
    from vote_lawsD(2) [OF laws this]
    show "\<exists>par. is_parent (V p) h par \<and> ((\<exists>pr. r0 \<le> pr \<and> pr < r \<and> polka C V' par h pr b) \<or> dead C V' par h r0 a)"
      using up by blast
  next
    fix h r a assume "cast_precommit (V p) h r a"
    from vote_lawsD(3) [OF laws this] show "\<exists>par. is_parent (V p) h par \<and> polka C V' par h r a" using up by blast
  next
    fix h a assume "Finalized_Tip h a \<in> V p"
    from vote_lawsD(4) [OF laws this]
    show "if h = 0 then a = nt_genesis C else \<exists>par r. is_parent (V p) h par \<and> commit C V' par h r a"
      using up by (cases "h = 0") (simp, simp, blast)
  qed (use vote_lawsD(1,5,6) [OF laws] in blast)+
qed

text \<open>The node's own log grows: the new cast votes and tips, and what each of them needs.\<close>

lemma vote_laws_grow:
  fixes L' :: disk_log
  assumes laws: "vote_laws C V p" and sub: "V p \<subseteq> L'"
    and pv: "\<And>h r a. cast_prevote L' h r a \<Longrightarrow> cast_prevote (V p) h r a \<or> npv h r a"
    and pc: "\<And>h r a. cast_precommit L' h r a \<Longrightarrow> cast_precommit (V p) h r a \<or> npc h r a"
    and ft: "\<And>h a. Finalized_Tip h a \<in> L' \<Longrightarrow> Finalized_Tip h a \<in> V p \<or> nft h a"
    and pv_new: "\<And>h r a b. npv h r a \<Longrightarrow> cast_prevote L' h r b \<Longrightarrow> a = b"
    and pv_rule: "\<And>h r0 a r b. npv h r b \<Longrightarrow> cast_precommit (V p) h r0 a \<Longrightarrow> r0 < r \<Longrightarrow> b \<noteq> a \<Longrightarrow>
        \<exists>par. is_parent (V p) h par \<and> ((\<exists>pr. r0 \<le> pr \<and> pr < r \<and> polka C V par h pr b) \<or> dead C V par h r0 a)"
    and pc_polka: "\<And>h r a. npc h r a \<Longrightarrow> \<exists>par. is_parent (V p) h par \<and> polka C V par h r a"
    and pc_top: "\<And>h r a r' b. npc h r a \<Longrightarrow> cast_prevote L' h r' b \<Longrightarrow> \<not> r < r'"
    and member: "\<And>h r a. npv h r a \<or> npc h r a \<Longrightarrow> \<exists>par. is_parent (V p) h par \<and> p \<in> set (comm C par h)"
    and ft_commit: "\<And>h a. nft h a \<Longrightarrow> h \<noteq> 0 \<and> (\<exists>par r. is_parent (V p) h par \<and> commit C V par h r a)"
    and ft_new: "\<And>h a b. nft h a \<Longrightarrow> Finalized_Tip h b \<in> L' \<Longrightarrow> a = b"
  shows "vote_laws C (V(p := L')) p \<and> extends (V p) L'"
proof -
  let ?V = "V(p := L')"
  have ext: "extends (V p) L'"
    unfolding extends_def using sub pc pc_top cast_mono(1) [OF _ sub] by blast
  then have ext_all: "extends (V q) (?V q)" for q by simp
  then have le: "V q \<subseteq> ?V q" for q by (rule extendsD(1))
  note up = polka_mono [where V = V and V' = ?V, OF _ le] commit_mono [where V = V and V' = ?V, OF _ le]
    dead_mono [where V = V and V' = ?V, OF _ ext_all] cast_mono(3) [OF _ sub]
  have "vote_laws C ?V p"
    unfolding vote_laws_def fun_upd_same
  proof (intro conjI allI impI)
    fix h r a b assume "cast_prevote L' h r a" "cast_prevote L' h r b"
    then show "a = b" using pv pv_new vote_lawsD(1) [OF laws] by metis
  next
    fix h r0 a r b assume a: "cast_precommit L' h r0 a" "cast_prevote L' h r b" "r0 < r" "b \<noteq> a"
    then have old: "cast_precommit (V p) h r0 a" using pc pc_top by blast
    have "\<exists>par. is_parent (V p) h par \<and> ((\<exists>pr. r0 \<le> pr \<and> pr < r \<and> polka C V par h pr b) \<or> dead C V par h r0 a)"
      using pv [OF a(2)] by (elim disjE) (erule vote_lawsD(2) [OF laws old _ a(3,4)], erule pv_rule [OF _ old a(3,4)])
    then show "\<exists>par. is_parent L' h par \<and> ((\<exists>pr. r0 \<le> pr \<and> pr < r \<and> polka C ?V par h pr b) \<or> dead C ?V par h r0 a)"
      using up by blast
  next
    fix h r a assume "cast_precommit L' h r a"
    then have "\<exists>par. is_parent (V p) h par \<and> polka C V par h r a" using pc vote_lawsD(3) [OF laws] pc_polka by blast
    then show "\<exists>par. is_parent L' h par \<and> polka C ?V par h r a" using up by blast
  next
    fix h a assume "Finalized_Tip h a \<in> L'"
    then have "if h = 0 then a = nt_genesis C else \<exists>par r. is_parent (V p) h par \<and> commit C V par h r a"
      using ft vote_lawsD(4) [OF laws, of h a] ft_commit [of h a] by fastforce
    then show "if h = 0 then a = nt_genesis C else \<exists>par r. is_parent L' h par \<and> commit C ?V par h r a"
      using up by (cases "h = 0") (simp, simp only: if_False, blast)
  next
    fix h r a assume "cast_prevote L' h r a \<or> cast_precommit L' h r a"
    then have "\<exists>par. is_parent (V p) h par \<and> p \<in> set (comm C par h)"
      using pv pc vote_lawsD(5) [OF laws] member by blast
    then show "\<exists>par. is_parent L' h par \<and> p \<in> set (comm C par h)" using up by blast
  next
    fix h a b assume "Finalized_Tip h a \<in> L'" "Finalized_Tip h b \<in> L'"
    then show "a = b" using ft ft_new vote_lawsD(6) [OF laws] by metis
  qed
  with ext show ?thesis by blast
qed

subsection \<open>Agreement from the rules\<close>

definition few_faults :: "Net \<Rightarrow> bool" where
  "few_faults C \<longleftrightarrow> (\<forall>par h. comm C par h \<noteq> [] \<longrightarrow> 3 * card (set (comm C par h) - nt_honest C) < length (comm C par h))"

definition lawful :: "Net \<Rightarrow> (pubkey32 \<Rightarrow> disk_log) \<Rightarrow> bool" where
  "lawful C V \<longleftrightarrow> (\<forall>p \<in> nt_honest C. vote_laws C V p)"

lemma quorums_meet:
  assumes "few_faults C" and "A \<subseteq> set (comm C par h)" and "B \<subseteq> set (comm C par h)"
    and "quorum_threshold (length (comm C par h)) \<le> card A" and "quorum_threshold (length (comm C par h)) \<le> card B"
  shows "\<exists>q \<in> nt_honest C. q \<in> A \<and> q \<in> B"
proof -
  have "comm C par h \<noteq> []" using assms(2,4) by (auto simp: quorum_threshold_def)
  then show ?thesis
    using qt.quorums_intersect [of "set (comm C par h)" "length (comm C par h)" A B "nt_honest C"] assms
    by (auto simp: few_faults_def card_length)
qed

lemma polkaE:
  assumes "polka C V par h r a"
  obtains Q where "Q \<subseteq> set (comm C par h)" and "quorum_threshold (length (comm C par h)) \<le> card Q"
    and "\<And>q. q \<in> Q \<Longrightarrow> q \<in> nt_honest C \<Longrightarrow> cast_prevote (V q) h r a"
  using assms unfolding polka_def by blast

lemma commitE:
  assumes "commit C V par h r a"
  obtains Q where "Q \<subseteq> set (comm C par h)" and "quorum_threshold (length (comm C par h)) \<le> card Q"
    and "\<And>q. q \<in> Q \<Longrightarrow> q \<in> nt_honest C \<Longrightarrow> cast_precommit (V q) h r a"
  using assms unfolding commit_def by blast

lemma one_polka_per_round:
  assumes "few_faults C" and "lawful C V" and "polka C V par h r a" and "polka C V par h r b"
  shows "a = b"
proof -
  from assms(3) obtain A where A: "A \<subseteq> set (comm C par h)" "quorum_threshold (length (comm C par h)) \<le> card A"
    "\<And>q. q \<in> A \<Longrightarrow> q \<in> nt_honest C \<Longrightarrow> cast_prevote (V q) h r a" by (rule polkaE) blast
  from assms(4) obtain B where B: "B \<subseteq> set (comm C par h)" "quorum_threshold (length (comm C par h)) \<le> card B"
    "\<And>q. q \<in> B \<Longrightarrow> q \<in> nt_honest C \<Longrightarrow> cast_prevote (V q) h r b" by (rule polkaE) blast
  from quorums_meet [OF assms(1) A(1) B(1) A(2) B(2)] obtain q where q: "q \<in> nt_honest C" "q \<in> A" "q \<in> B" by blast
  then show ?thesis using vote_lawsD(1) [of C V q h r a b] A(3) B(3) assms(2) by (simp add: lawful_def)
qed

text \<open>A polka ends every other value at the rounds below it.\<close>

lemma polka_kills:
  assumes few: "few_faults C" and lawful: "lawful C V" and par: "\<And>q x. q \<in> nt_honest C \<Longrightarrow> is_parent (V q) h x \<Longrightarrow> x = par"
    and "polka C V par h r b" and "r0 < r" and "a \<noteq> b"
  shows "dead C V par h r0 a"
  using assms(4,5)
proof (induction r rule: less_induct)
  case (less r)
  from less.prems(1) obtain Q where Q: "Q \<subseteq> set (comm C par h)" "quorum_threshold (length (comm C par h)) \<le> card Q"
    "\<And>q. q \<in> Q \<Longrightarrow> q \<in> nt_honest C \<Longrightarrow> cast_prevote (V q) h r b" by (rule polkaE) blast
  show ?case
  proof (cases "\<exists>q \<in> Q \<inter> nt_honest C. cast_precommit (V q) h r0 a")
    case False
    have "\<forall>q \<in> Q \<inter> nt_honest C. \<not> cast_precommit (V q) h r0 a \<and> (\<exists>r b. r0 < r \<and> cast_prevote (V q) h r b)"
    proof
      fix q assume q: "q \<in> Q \<inter> nt_honest C"
      then have "cast_prevote (V q) h r b" using Q(3) by simp
      then show "\<not> cast_precommit (V q) h r0 a \<and> (\<exists>r b. r0 < r \<and> cast_prevote (V q) h r b)"
        using q False less.prems(2) by blast
    qed
    then show ?thesis unfolding dead_def by (intro exI [of _ Q] conjI Q(1,2))
  next
    case True
    then obtain q where q: "q \<in> Q" "q \<in> nt_honest C" "cast_precommit (V q) h r0 a" by blast
    have laws: "vote_laws C V q" using lawful q(2) by (simp add: lawful_def)
    from vote_lawsD(3) [OF laws q(3)] obtain x where "is_parent (V q) h x" "polka C V x h r0 a" by blast
    then have at_r0: "polka C V par h r0 a" using par [OF q(2)] by blast
    from vote_lawsD(2) [OF laws q(3) Q(3) [OF q(1,2)] less.prems(2)] assms(6) obtain x where
      x: "is_parent (V q) h x" "(\<exists>pr. r0 \<le> pr \<and> pr < r \<and> polka C V x h pr b) \<or> dead C V x h r0 a" by blast
    have "x = par" by (rule par [OF q(2) x(1)])
    with x(2) consider pr where "r0 \<le> pr" "pr < r" "polka C V par h pr b" | "dead C V par h r0 a" by blast
    then show ?thesis
    proof cases
      case 1
      have "pr \<noteq> r0" using one_polka_per_round [OF few lawful at_r0] 1(3) assms(6) by blast
      then show ?thesis using less.IH [OF 1(2,3)] 1(1) by simp
    qed
  qed
qed

lemma one_commit:
  assumes few: "few_faults C" and lawful: "lawful C V" and par: "\<And>q x. q \<in> nt_honest C \<Longrightarrow> is_parent (V q) h x \<Longrightarrow> x = par"
    and a: "commit C V par h r0 a" and b: "commit C V par h r1 b" and le: "r0 \<le> r1"
  shows "a = b"
proof (rule ccontr)
  assume ne: "a \<noteq> b"
  have locked: "polka C V par h r x" if "commit C V par h r x" for r x
  proof -
    from that obtain Q where Q: "Q \<subseteq> set (comm C par h)" "quorum_threshold (length (comm C par h)) \<le> card Q"
      "\<And>q. q \<in> Q \<Longrightarrow> q \<in> nt_honest C \<Longrightarrow> cast_precommit (V q) h r x" by (rule commitE) blast
    from quorums_meet [OF few Q(1,1,2,2)] obtain q where q: "q \<in> nt_honest C" "q \<in> Q" by blast
    have "vote_laws C V q" using lawful q(1) by (simp add: lawful_def)
    from vote_lawsD(3) [OF this Q(3) [OF q(2,1)]] show ?thesis using par [OF q(1)] by blast
  qed
  show False
  proof (cases "r0 = r1")
    case True
    then show ?thesis using one_polka_per_round [OF few lawful locked [OF a]] locked [OF b] ne by blast
  next
    case False
    then have "dead C V par h r0 a" using polka_kills [OF few lawful par locked [OF b]] le ne by simp
    then obtain D where D: "D \<subseteq> set (comm C par h)" "quorum_threshold (length (comm C par h)) \<le> card D"
      "\<And>q. q \<in> D \<Longrightarrow> q \<in> nt_honest C \<Longrightarrow> \<not> cast_precommit (V q) h r0 a" unfolding dead_def by blast
    from a obtain A where A: "A \<subseteq> set (comm C par h)" "quorum_threshold (length (comm C par h)) \<le> card A"
      "\<And>q. q \<in> A \<Longrightarrow> q \<in> nt_honest C \<Longrightarrow> cast_precommit (V q) h r0 a" by (rule commitE) blast
    from quorums_meet [OF few A(1) D(1) A(2) D(2)] show ?thesis using A(3) D(3) by blast
  qed
qed

lemma tips_agree:
  assumes few: "few_faults C" and lawful: "lawful C V"
  shows "p \<in> nt_honest C \<Longrightarrow> q \<in> nt_honest C \<Longrightarrow> Finalized_Tip h a \<in> V p \<Longrightarrow> Finalized_Tip h b \<in> V q \<Longrightarrow> a = b"
proof (induction h arbitrary: p q a b rule: less_induct)
  case (less h)
  have laws: "vote_laws C V p" "vote_laws C V q" using lawful less.prems by (simp_all add: lawful_def)
  show ?case
  proof (cases "h = 0")
    case True
    then show ?thesis using vote_lawsD(4) [OF laws(1) less.prems(3)] vote_lawsD(4) [OF laws(2) less.prems(4)] by simp
  next
    case False
    from vote_lawsD(4) [OF laws(1) less.prems(3)] False obtain par r where
      p: "is_parent (V p) h par" "commit C V par h r a" by (auto split: if_splits)
    from vote_lawsD(4) [OF laws(2) less.prems(4)] False obtain par' r' where
      q: "is_parent (V q) h par'" "commit C V par' h r' b" by (auto split: if_splits)
    have "h - 1 < h" using False by (simp add: word_less_nat_alt unat_minus_one unat_gt_0)
    then have same: "x = par" if "w \<in> nt_honest C" "is_parent (V w) h x" for w x
      using less.IH [of "h - 1" w p x par] that less.prems(1) p(1) by (simp add: is_parent_def)
    have "par' = par" using same [OF less.prems(2) q(1)] .
    then have q': "commit C V par h r' b" using q(2) by simp
    show ?thesis
    proof (cases "r \<le> r'")
      case True
      show ?thesis by (rule one_commit [OF few lawful _ p(2) q' True]) (rule same)
    next
      case False
      then have "r' \<le> r" by simp
      then have "b = a" by (intro one_commit [OF few lawful _ q' p(2)]) (rule same)
      then show ?thesis by simp
    qed
  qed
qed

lemma polka_kills_tip:
  assumes "few_faults C" and "lawful C V" and "p \<in> nt_honest C" and "is_parent (V p) h par"
    and "polka C V par h r b" and "r0 < r" and "a \<noteq> b"
  shows "dead C V par h r0 a"
  by (rule polka_kills [OF assms(1,2) _ assms(5-7)])
     (use tips_agree [OF assms(1,2) _ assms(3)] assms(4) in \<open>simp add: is_parent_def\<close>)

end
