(* ===== verification/Node_Safety.thy ===== *)
theory Node_Safety
  imports Vote_Laws
begin

text \<open>
  What one node guarantees about its votes, whatever messages it receives, whenever it crashes and
  whichever of its writes fail. A vote is \<open>cast\<close> when its record reached the disk. The invariant
  \<open>node_inv\<close> says that memory never runs ahead of the cast votes, that the cast votes obey the locking
  rules, and that what the node has counted for an honest validator was cast by it; every handler,
  the startup code and every disk fault preserve it.
\<close>

subsection \<open>What the trackers and caches hold\<close>

definition tracked :: "VoteTracker \<Rightarrow> verify_key set" where
  "tracked t = {(h, r, tid, pub). \<exists>sigs s. ((h, r, tid), sigs) \<in> set (vt_by_block t) \<and> (pub, s) \<in> set sigs}"

lemma set_omap_upd: "set (omap_upd k v m) \<subseteq> insert (k, v) (set m)"
  by (induction k v m rule: omap_upd.induct) auto

lemma set_entry: "e \<in> set (entry m k) \<Longrightarrow> \<exists>es. (k, es) \<in> set m \<and> e \<in> set es"
  by (cases "map_of m k") (auto simp: entry_def dest: map_of_SomeD)

lemma tracked_put: "tracked (vt_put vote t) \<subseteq> insert (verify_key_of vote) (tracked t)"
proof
  fix k assume "k \<in> tracked (vt_put vote t)"
  then obtain h r tid pub sigs s where k: "k = (h, r, tid, pub)" and pub: "(pub, s) \<in> set sigs"
    and sigs: "((h, r, tid), sigs) \<in> set (vt_by_block (vt_put vote t))" unfolding tracked_def by blast
  let ?old = "entry (vt_by_block t) (key_of vote)"
  from sigs consider "(h, r, tid) = key_of vote"
      "sigs = omap_upd (vote_validator_pubkey vote) (vote_signature vote) ?old" | "((h, r, tid), sigs) \<in> set (vt_by_block t)"
    using set_omap_upd unfolding vt_put_def by fastforce
  then show "k \<in> insert (verify_key_of vote) (tracked t)"
  proof cases
    case 1
    with pub consider "pub = vote_validator_pubkey vote" | "(pub, s) \<in> set ?old" using set_omap_upd by fastforce
    then show ?thesis
    proof cases
      case 2
      then show ?thesis using set_entry [OF 2] 1(1) unfolding k tracked_def by auto
    qed (use 1(1) in \<open>simp add: k verify_key_of_def key_of_def\<close>)
  next
    case 2
    then show ?thesis using pub unfolding k tracked_def by blast
  qed
qed

lemma tracked_touch [simp]: "tracked (vt_touch h t) = tracked t"
  by (simp add: tracked_def)

lemma tracked_add: "tracked (snd (vt_add_vote vote t)) \<subseteq> insert (verify_key_of vote) (tracked t)"
  using tracked_put [of vote "vt_touch (vote_height vote) t"] by (cases rule: vt_add_vote_cases [of vote t]) auto

lemma tracked_clear: "tracked (vt_clear_height h t) \<subseteq> tracked t"
  by (auto simp: tracked_def vt_clear_height_def)

lemma tracked_new [simp]: "tracked (vt_new limits) = {}"
  by (simp add: tracked_def vt_new_def)

lemma trackedI:
  assumes "((h, r, tid), sigs) \<in> set (vt_by_block t)" and "s \<in> set (sig_list sigs)"
  shows "(h, r, tid, fs_validator_pubkey s) \<in> tracked t"
proof -
  from assms(2) obtain pub sig where "s = \<lparr>fs_validator_pubkey = pub, fs_signature = sig\<rparr>" "(pub, sig) \<in> set sigs"
    by (auto simp: sig_list_def)
  with assms(1) show ?thesis unfolding tracked_def by auto
qed

lemma tracked_signatures: "s \<in> set (vt_signatures_for t h r tid) \<Longrightarrow> (h, r, tid, fs_validator_pubkey s) \<in> tracked t"
  using trackedI [OF map_of_SomeD] by (cases "map_of (vt_by_block t) (h, r, tid)") (auto simp: vt_signatures_for_def)

lemma tracked_sets:
  assumes "vs \<in> set (vt_vote_sets_for_height t h)" and "s \<in> set (vs_signatures vs)"
  shows "(h, vs_round vs, vs_transition_id vs, fs_validator_pubkey s) \<in> tracked t"
proof -
  from assms obtain h' r tid sigs where e: "((h', r, tid), sigs) \<in> set (takeWhile (\<lambda>(k, sigs). fst k = h)
      (dropWhile (\<lambda>(k, sigs). k < (h, 0, zero_hash)) (vt_by_block t)))"
    and vs: "vs = \<lparr>vs_round = r, vs_transition_id = tid, vs_signatures = sig_list sigs\<rparr>"
    unfolding vt_vote_sets_for_height_def by auto
  have "h' = h" "((h', r, tid), sigs) \<in> set (vt_by_block t)"
    using set_takeWhileD [OF e] by (auto dest: set_dropWhileD)
  then show ?thesis using trackedI [of h r tid sigs t s] assms(2) by (simp add: vs)
qed

definition genuine :: "pubkey32 set \<Rightarrow> (pubkey32 \<Rightarrow> u64 \<Rightarrow> u32 \<Rightarrow> hash32 \<Rightarrow> bool) \<Rightarrow> verify_key set \<Rightarrow> bool" where
  "genuine H cast K \<longleftrightarrow> (\<forall>h r tid pub. (h, r, tid, pub) \<in> K \<longrightarrow> pub \<in> H \<longrightarrow> cast pub h r tid)"

lemma genuineD: "genuine H cast K \<Longrightarrow> (h, r, tid, pub) \<in> K \<Longrightarrow> pub \<in> H \<Longrightarrow> cast pub h r tid"
  by (simp add: genuine_def)

lemma genuine_subset: "genuine H cast K \<Longrightarrow> K' \<subseteq> K \<Longrightarrow> genuine H cast K'"
  unfolding genuine_def by blast

lemma genuine_mono: "genuine H cast K \<Longrightarrow> (\<And>pub h r tid. cast pub h r tid \<Longrightarrow> cast' pub h r tid) \<Longrightarrow> genuine H cast' K"
  unfolding genuine_def by blast

lemma genuine_insert:
  "genuine H cast K \<Longrightarrow> K' \<subseteq> insert (h, r, tid, pub) K \<Longrightarrow> (pub \<in> H \<Longrightarrow> cast pub h r tid) \<Longrightarrow> genuine H cast K'"
  unfolding genuine_def by blast

text \<open>The members of a quorum found in a tracker.\<close>

lemma filter_sigs_props:
  "distinct (map fs_validator_pubkey (filter_sigs C ok seen ss))
   \<and> fs_validator_pubkey ` set (filter_sigs C ok seen ss) \<subseteq> set C - set seen
   \<and> set (filter_sigs C ok seen ss) \<subseteq> {s \<in> set ss. ok s}"
  by (induction C ok seen ss rule: filter_sigs.induct) auto

lemma filter_sigs_quorum:
  assumes "k \<le> length (filter_sigs C ok [] ss)"
  obtains Q where "Q \<subseteq> set C" and "k \<le> card Q" and "\<And>q. q \<in> Q \<Longrightarrow> \<exists>s \<in> set ss. fs_validator_pubkey s = q \<and> ok s"
proof (rule that)
  let ?Q = "fs_validator_pubkey ` set (filter_sigs C ok [] ss)"
  show "?Q \<subseteq> set C" using filter_sigs_props [of C ok "[]" ss] by simp
  show "k \<le> card ?Q" using filter_sigs_props [of C ok "[]" ss] assms by (metis distinct_card length_map list.set_map)
  show "\<exists>s \<in> set ss. fs_validator_pubkey s = q \<and> ok s" if "q \<in> ?Q" for q
    using filter_sigs_props [of C ok "[]" ss] that by blast
qed

subsection \<open>The node's own votes in memory\<close>

lemma prevotes_at_filter:
  assumes "omap_ok m"
  shows "prevotes_at m h = map (\<lambda>e. (snd (fst e), snd e)) (filter (\<lambda>e. fst (fst e) = h) m)"
proof -
  have "(\<lambda>((h', r), tid). h' = h) = (\<lambda>(k :: u64 \<times> u32, tid :: hash32). fst k = h)" by auto
  then show ?thesis using height_range [OF assms, of h] by (auto simp: prevotes_at_def)
qed

lemma map_of_prevotes_at: "omap_ok m \<Longrightarrow> map_of (prevotes_at m h) r = map_of m (h, r)"
  unfolding prevotes_at_filter by (induction m) (auto simp: omap_ok_Cons)

lemma omap_ok_prevotes_at: "omap_ok m \<Longrightarrow> omap_ok (prevotes_at m h)"
  unfolding prevotes_at_filter by (induction m) (fastforce simp: omap_ok_Cons less_prod_def')+

lemma next_height:
  assumes "h \<noteq> (- 1 :: u64)"
  shows "h < h + 1" and "h + 1 \<noteq> 0" and "y < h + 1 \<longleftrightarrow> y \<le> h" and "y > h \<longleftrightarrow> h + 1 \<le> y" and "unat (h + 1) = unat h + 1"
proof -
  show unat: "unat (h + 1) = unat h + 1" using unat_Suc_u64 [of h] assms by (simp add: add.commute)
  show "h < h + 1" "y < h + 1 \<longleftrightarrow> y \<le> h" "y > h \<longleftrightarrow> h + 1 \<le> y" by (auto simp: word_less_nat_alt word_le_nat_alt unat)
  then show "h + 1 \<noteq> 0" by auto
qed

text \<open>One step back from \<^verbatim>\<open>lower_bound(b)\<close>: the entry with the largest key below \<open>b\<close>.\<close>

lemma omap_below_last:
  fixes m :: "('k::linorder, 'v) omap"
  defines "below \<equiv> \<lambda>b. takeWhile (\<lambda>(k, v). k < b) m"
  assumes ok: "omap_ok m" and k: "map_of m k = Some v" and b: "k < b"
  shows "below b \<noteq> [] \<and> k \<le> fst (last (below b)) \<and> fst (last (below b)) < b"
  using ok k unfolding below_def
proof (induction m)
  case (Cons e m)
  obtain k' v' where e: "e = (k', v')" by (cases e)
  have later: "\<forall>d \<in> set m. k' < fst d" using Cons.prems(1) by (auto simp: e omap_ok_Cons)
  show ?case
  proof (cases "k = k'")
    case True
    have "k' < fst (last (takeWhile (\<lambda>(k, v). k < b) m)) \<and> fst (last (takeWhile (\<lambda>(k, v). k < b) m)) < b"
      if "takeWhile (\<lambda>(k, v). k < b) m \<noteq> []"
      using set_takeWhileD [OF last_in_set [OF that]] later by (auto simp: case_prod_beta)
    then show ?thesis using True b by (auto simp: e)
  next
    case False
    then have mem: "map_of m k = Some v" using Cons.prems(2) by (simp add: e split: if_splits)
    then have "k' < b" using later b map_of_SomeD [OF mem] by force
    then show ?thesis using Cons.IH Cons.prems(1) mem by (simp add: e omap_ok_Cons)
  qed
qed simp

lemma local_vote_round_floor_ge:
  assumes ok: "omap_ok (nd_local_prevotes n)" and h: "h \<noteq> - 1"
  shows "map_of (nd_local_vote_locks n) h = Some (tid, r) \<Longrightarrow> r \<le> local_vote_round_floor n h"
    and "map_of (nd_local_prevotes n) (h, r) = Some tid \<Longrightarrow> r \<le> local_vote_round_floor n h"
proof -
  define below where "below = takeWhile (\<lambda>(k, tid). k < (h + 1, 0)) (nd_local_prevotes n)"
  have floor: "local_vote_round_floor n h =
      (let floor = (case map_of (nd_local_vote_locks n) h of None \<Rightarrow> 0 | Some (tid, round) \<Rightarrow> round)
       in if below \<noteq> [] \<and> fst (fst (last below)) = h then max floor (snd (fst (last below))) else floor)"
    by (simp add: local_vote_round_floor_def below_def Let_def)
  show "map_of (nd_local_vote_locks n) h = Some (tid, r) \<Longrightarrow> r \<le> local_vote_round_floor n h"
    by (simp add: floor)
  assume "map_of (nd_local_prevotes n) (h, r) = Some tid"
  from omap_below_last [OF ok this, of "(h + 1, 0)"]
  have "below \<noteq> [] \<and> (h, r) \<le> fst (last below) \<and> fst (last below) < (h + 1, 0)"
    unfolding below_def using next_height(1) [OF h] by (simp add: less_prod_def')
  then have ne: "below \<noteq> []" and lower: "h < fst (fst (last below)) \<or> h \<le> fst (fst (last below)) \<and> r \<le> snd (fst (last below))"
    and upper: "fst (fst (last below)) < h + 1"
    by (simp_all add: less_prod_def' less_eq_prod_def)
  have "fst (fst (last below)) \<le> h" using upper next_height(3) [OF h] by simp
  then have "below \<noteq> []" "fst (fst (last below)) = h" "r \<le> snd (fst (last below))" using ne lower by auto
  then show "r \<le> local_vote_round_floor n h" by (simp add: floor Let_def le_max_iff_disj)
qed

subsection \<open>The invariant\<close>

text \<open>A row of the vote record contains every vote cast at its height.\<close>

definition row_covers :: "disk_log \<Rightarrow> u64 \<Rightarrow> ConsensusSafetyState \<Rightarrow> bool" where
  "row_covers L h st \<longleftrightarrow>
     (\<forall>r tid. cast_prevote L h r tid \<longrightarrow> map_of (cs_prevotes st) r = Some tid)
   \<and> (\<forall>r tid. cast_precommit L h r tid \<longrightarrow> (\<exists>tid' r'. cs_lock st = Some (tid', r') \<and> (r < r' \<or> r = r' \<and> tid = tid')))"

definition sealed_row :: "Disk \<Rightarrow> u64 \<Rightarrow> ConsensusSafetyState \<Rightarrow> bool" where
  "sealed_row d h st \<longleftrightarrow> map_of (dk_primary d) h = Some (Sealed st) \<or> map_of (dk_mirror d) h = Some (Sealed st)"

definition disk_ok :: "Disk \<Rightarrow> bool" where
  "disk_ok d \<longleftrightarrow>
     Finalized_Tip (fst (dk_finalized d)) (snd (dk_finalized d)) \<in> set (dk_log d)
   \<and> (\<forall>h tid. Finalized_Tip h tid \<in> set (dk_log d) \<longrightarrow> h \<le> fst (dk_finalized d))
   \<and> (\<forall>h st. Safety_Row h st \<in> set (dk_log d) \<longrightarrow> h \<noteq> 0 \<and> h - 1 \<le> fst (dk_finalized d) \<and> omap_ok (cs_prevotes st))
   \<and> (\<forall>h st. sealed_row d h st \<longrightarrow> Safety_Row h st \<in> set (dk_log d))
   \<and> (\<forall>h st. fst (dk_finalized d) < h \<longrightarrow> h \<notin> dk_quarantine d \<longrightarrow> sealed_row d h st \<longrightarrow> row_covers (set (dk_log d)) h st)
   \<and> (\<forall>h r tid. fst (dk_finalized d) < h \<longrightarrow> h \<notin> dk_quarantine d \<longrightarrow>
        cast_prevote (set (dk_log d)) h r tid \<or> cast_precommit (set (dk_log d)) h r tid \<longrightarrow> h \<le> dk_highwater d)"

definition own_log :: "Node \<Rightarrow> disk_log" where
  "own_log n = set (dk_log (nd_disk n))"

definition world :: "(pubkey32 \<Rightarrow> disk_log) \<Rightarrow> pubkey32 \<Rightarrow> Node \<Rightarrow> pubkey32 \<Rightarrow> disk_log" where
  "world W p n = W(p := own_log n)"

definition counts_ok :: "Net \<Rightarrow> (pubkey32 \<Rightarrow> disk_log) \<Rightarrow> Node \<Rightarrow> bool" where
  "counts_ok C V n \<longleftrightarrow>
     genuine (nt_honest C) (\<lambda>q. cast_prevote (V q)) (tracked (nd_prevotes n))
   \<and> genuine (nt_honest C) (\<lambda>q. cast_precommit (V q)) (tracked (nd_votes n))
   \<and> genuine (nt_honest C) (\<lambda>q. cast_prevote (V q)) {k. fc_contains (nd_prevote_verify_cache n) k}
   \<and> genuine (nt_honest C) (\<lambda>q. cast_precommit (V q)) {k. fc_contains (nd_vote_verify_cache n) k}"

definition memory_ok :: "Net \<Rightarrow> pubkey32 \<Rightarrow> Node \<Rightarrow> bool" where
  "memory_ok C p n \<longleftrightarrow>
     omap_ok (nd_local_prevotes n)
   \<and> (\<forall>h r tid. map_of (nd_local_prevotes n) (h, r) = Some tid \<longrightarrow> cast_prevote (own_log n) h r tid)
   \<and> (\<forall>h tid r. map_of (nd_local_vote_locks n) h = Some (tid, r) \<longrightarrow> cast_precommit (own_log n) h r tid)
   \<and> (\<forall>v \<in> set (nd_pending_local_precommits n). vote_validator_pubkey v = p
        \<and> cast_precommit (own_log n) (vote_height v) (vote_round v) (vote_frontier_transition_id v))
   \<and> (\<forall>k q. map_of (nd_candidates n) k = Some q \<longrightarrow> transition_id (nt_sha256d C) (fpr_transition q) = k)"

abbreviation tip :: "Node \<Rightarrow> u64 \<times> hash32" where
  "tip n \<equiv> (nd_finalized_height n, nd_finalized_id n)"

definition synced :: "Node \<Rightarrow> bool" where
  "synced n \<longleftrightarrow> dk_finalized (nd_disk n) = (nd_finalized_height n, nd_finalized_id n)
     \<and> nd_abstain_heights n \<subseteq> dk_quarantine (nd_disk n)"

definition memory_covers :: "Node \<Rightarrow> bool" where
  "memory_covers n \<longleftrightarrow> (\<forall>h. nd_finalized_height n < h \<longrightarrow> h \<notin> nd_abstain_heights n \<longrightarrow>
     row_covers (own_log n) h (consensus_safety_state n h))"

text \<open>The part of the invariant that holds between a durable write and its publication in memory, and all of it.\<close>

definition node_pre :: "Net \<Rightarrow> (pubkey32 \<Rightarrow> disk_log) \<Rightarrow> pubkey32 \<Rightarrow> Node \<Rightarrow> bool" where
  "node_pre C W p n \<longleftrightarrow> counts_ok C (world W p n) n \<and> memory_ok C p n \<and> vote_laws C (world W p n) p
     \<and> disk_ok (nd_disk n) \<and> (nd_safety_storage_failed n \<longrightarrow> dk_fenced (nd_disk n)) \<and> (\<not> safety_storage_failed n \<longrightarrow> synced n)"

definition node_inv :: "Net \<Rightarrow> (pubkey32 \<Rightarrow> disk_log) \<Rightarrow> pubkey32 \<Rightarrow> Node \<Rightarrow> bool" where
  "node_inv C W p n \<longleftrightarrow> node_pre C W p n \<and> (\<not> safety_storage_failed n \<longrightarrow> memory_covers n)"

lemma node_invD:
  assumes "node_inv C W p n"
  shows "node_pre C W p n" and "counts_ok C (world W p n) n" and "memory_ok C p n" and "vote_laws C (world W p n) p"
    and "disk_ok (nd_disk n)" and "\<not> safety_storage_failed n \<Longrightarrow> synced n" and "\<not> safety_storage_failed n \<Longrightarrow> memory_covers n"
    and "nd_safety_storage_failed n \<Longrightarrow> dk_fenced (nd_disk n)"
  using assms unfolding node_inv_def node_pre_def by blast+

lemma node_preD:
  assumes "node_pre C W p n"
  shows "counts_ok C (world W p n) n" and "memory_ok C p n" and "vote_laws C (world W p n) p" and "disk_ok (nd_disk n)"
    and "\<not> safety_storage_failed n \<Longrightarrow> synced n" and "nd_safety_storage_failed n \<Longrightarrow> dk_fenced (nd_disk n)"
  using assms unfolding node_pre_def by blast+

lemma disk_okD:
  assumes "disk_ok d"
  shows "Finalized_Tip (fst (dk_finalized d)) (snd (dk_finalized d)) \<in> set (dk_log d)"
    and "Finalized_Tip h tid \<in> set (dk_log d) \<Longrightarrow> h \<le> fst (dk_finalized d)"
    and "Safety_Row h st \<in> set (dk_log d) \<Longrightarrow> h \<noteq> 0 \<and> h - 1 \<le> fst (dk_finalized d) \<and> omap_ok (cs_prevotes st)"
    and "sealed_row d h st \<Longrightarrow> Safety_Row h st \<in> set (dk_log d)"
    and "fst (dk_finalized d) < h \<Longrightarrow> h \<notin> dk_quarantine d \<Longrightarrow> sealed_row d h st \<Longrightarrow> row_covers (set (dk_log d)) h st"
    and "fst (dk_finalized d) < h \<Longrightarrow> h \<notin> dk_quarantine d \<Longrightarrow>
      cast_prevote (set (dk_log d)) h r tid \<or> cast_precommit (set (dk_log d)) h r tid \<Longrightarrow> h \<le> dk_highwater d"
  using assms unfolding disk_ok_def by blast+

lemma memory_okD:
  assumes "memory_ok C p n"
  shows "omap_ok (nd_local_prevotes n)"
    and "map_of (nd_local_prevotes n) (h, r) = Some tid \<Longrightarrow> cast_prevote (own_log n) h r tid"
    and "map_of (nd_local_vote_locks n) h = Some (tid, r) \<Longrightarrow> cast_precommit (own_log n) h r tid"
    and "v \<in> set (nd_pending_local_precommits n) \<Longrightarrow> vote_validator_pubkey v = p
        \<and> cast_precommit (own_log n) (vote_height v) (vote_round v) (vote_frontier_transition_id v)"
    and "map_of (nd_candidates n) k = Some q \<Longrightarrow> transition_id (nt_sha256d C) (fpr_transition q) = k"
  using assms unfolding memory_ok_def by blast+

subsection \<open>Writes\<close>

lemma casts_insert [simp]:
  "cast_prevote (insert (Safety_Row h st) L) h' r tid \<longleftrightarrow> h' = h \<and> map_of (cs_prevotes st) r = Some tid \<or> cast_prevote L h' r tid"
  "cast_precommit (insert (Safety_Row h st) L) h' r tid \<longleftrightarrow> h' = h \<and> cs_lock st = Some (tid, r) \<or> cast_precommit L h' r tid"
  "cast_prevote (insert (Finalized_Tip h i) L) = cast_prevote L"
  "cast_precommit (insert (Finalized_Tip h i) L) = cast_precommit L"
  "is_parent (insert (Safety_Row h st) L) = is_parent L"
  by (auto simp: cast_prevote_def cast_precommit_def is_parent_def fun_eq_iff)

lemma row_covers_other [simp]: "h' \<noteq> h \<Longrightarrow> row_covers (insert (Safety_Row h st) L) h' = row_covers L h'"
  "row_covers (insert (Finalized_Tip h i) L) h' = row_covers L h'"
  by (simp_all add: row_covers_def fun_eq_iff)

lemma disk_ok_fields [simp]:
  "disk_ok (d\<lparr>dk_faults := fs\<rparr>) = disk_ok d" "disk_ok (d\<lparr>dk_fenced := b\<rparr>) = disk_ok d"
  "disk_ok (d\<lparr>dk_locked_proposal := ps\<rparr>) = disk_ok d"
  by (simp_all add: disk_ok_def sealed_row_def)

lemma stage_simps [simp]:
  "dk_log (stage_consensus_safety_state h st d) = dk_log d @ [Safety_Row h st]"
  "dk_finalized (stage_consensus_safety_state h st d) = dk_finalized d"
  "dk_quarantine (stage_consensus_safety_state h st d) = dk_quarantine d"
  "dk_fenced (stage_consensus_safety_state h st d) = dk_fenced d"
  "dk_locked_proposal (stage_consensus_safety_state h st d) = dk_locked_proposal d"
  "sealed_row (stage_consensus_safety_state h st d) h' st' \<longleftrightarrow>
     (if h' = h then st' = st \<and> \<not> (cs_lock st = None \<and> cs_valid_polka st = None \<and> cs_prevotes st = []) else sealed_row d h' st')"
  "dk_highwater (stage_consensus_safety_state h st d) =
     (if cs_lock st = None \<and> cs_valid_polka st = None \<and> cs_prevotes st = [] then dk_highwater d else max h (dk_highwater d))"
  by (auto simp: stage_consensus_safety_state_def sealed_row_def Let_def max_def)

lemma disk_ok_stage:
  assumes ok: "disk_ok d" and h: "h = fst (dk_finalized d) + 1" and fin: "fst (dk_finalized d) \<noteq> - 1"
    and st: "omap_ok (cs_prevotes st)"
    and covers: "h \<notin> dk_quarantine d \<Longrightarrow> row_covers (insert (Safety_Row h st) (set (dk_log d))) h st"
  shows "disk_ok (stage_consensus_safety_state h st d)"
proof -
  let ?d = "stage_consensus_safety_state h st d" and ?L = "insert (Safety_Row h st) (set (dk_log d))"
  note old = disk_okD [OF ok]
  have log: "set (dk_log ?d) = ?L" by simp
  have empty: "\<not> cast_prevote ?L h r tid \<and> \<not> cast_precommit ?L h r tid"
    if "row_covers ?L h st" "cs_lock st = None" "cs_prevotes st = []" for r tid
    using that unfolding row_covers_def by auto
  show ?thesis
    unfolding disk_ok_def log
  proof (intro conjI allI impI)
    show "Finalized_Tip (fst (dk_finalized ?d)) (snd (dk_finalized ?d)) \<in> ?L" using old(1) by simp
    show "h' \<le> fst (dk_finalized ?d)" if "Finalized_Tip h' tid \<in> ?L" for h' tid using old(2) that by simp
    fix h' st'
    assume "Safety_Row h' st' \<in> ?L"
    then show "h' \<noteq> 0" "h' - 1 \<le> fst (dk_finalized ?d)" "omap_ok (cs_prevotes st')"
      using old(3) [of h' st'] next_height(2) [OF fin] h st by auto
  next
    fix h' st' assume "sealed_row ?d h' st'"
    then show "Safety_Row h' st' \<in> ?L" using old(4) by (auto split: if_splits)
  next
    fix h' st' assume "fst (dk_finalized ?d) < h'" "h' \<notin> dk_quarantine ?d" "sealed_row ?d h' st'"
    then show "row_covers ?L h' st'" using old(5) covers by (cases "h' = h") auto
  next
    fix h' r tid
    assume a: "fst (dk_finalized ?d) < h'" "h' \<notin> dk_quarantine ?d" "cast_prevote ?L h' r tid \<or> cast_precommit ?L h' r tid"
    show "h' \<le> dk_highwater ?d"
    proof (cases "h' = h")
      case True
      then show ?thesis using a empty [of r tid] covers by (auto simp: le_max_iff_disj)
    next
      case False
      then show ?thesis using a old(6) [of h' r tid] by (auto simp: le_max_iff_disj)
    qed
  qed
qed

lemma stage_finalization_simps [simp]:
  "dk_log (stage_finalization h tid d) = dk_log d @ [Finalized_Tip h tid]"
  "dk_finalized (stage_finalization h tid d) = (h, tid)"
  "dk_fenced (stage_finalization h tid d) = dk_fenced d"
  "dk_highwater (stage_finalization h tid d) = dk_highwater d"
  "h \<noteq> 0 \<Longrightarrow> dk_quarantine (stage_finalization h tid d) = dk_quarantine d - {h}"
  "h \<noteq> 0 \<Longrightarrow> sealed_row (stage_finalization h tid d) h' st \<longleftrightarrow> h' \<noteq> h \<and> sealed_row d h' st"
  by (auto simp: stage_finalization_def stage_consensus_safety_clear_def sealed_row_def Let_def word_neq_0_conv)

lemma disk_ok_finalize:
  assumes ok: "disk_ok d" and h: "h = fst (dk_finalized d) + 1" and fin: "fst (dk_finalized d) \<noteq> - 1"
  shows "disk_ok (stage_finalization h tid d)"
proof -
  let ?d = "stage_finalization h tid d" and ?L = "insert (Finalized_Tip h tid) (set (dk_log d))"
  note old = disk_okD [OF ok]
  have log: "set (dk_log ?d) = ?L" by simp
  have h0: "h \<noteq> 0" and up: "fst (dk_finalized d) \<le> h" using next_height(1,2) [OF fin] h by simp_all
  show ?thesis
    unfolding disk_ok_def log
  proof (intro conjI allI impI)
    show "Finalized_Tip (fst (dk_finalized ?d)) (snd (dk_finalized ?d)) \<in> ?L" by simp
    show "h' \<le> fst (dk_finalized ?d)" if "Finalized_Tip h' tid' \<in> ?L" for h' tid'
      using old(2) [of h' tid'] that up by auto
    fix h' st'
    assume "Safety_Row h' st' \<in> ?L"
    then show "h' \<noteq> 0" "h' - 1 \<le> fst (dk_finalized ?d)" "omap_ok (cs_prevotes st')"
      using old(3) [of h' st'] up by auto
  next
    fix h' st' assume "sealed_row ?d h' st'"
    then show "Safety_Row h' st' \<in> ?L" using old(4) h0 by simp
  next
    fix h' st' assume "fst (dk_finalized ?d) < h'" "h' \<notin> dk_quarantine ?d" "sealed_row ?d h' st'"
    then show "row_covers ?L h' st'" using old(5) [of h' st'] up h0 by auto
  next
    fix h' r tid'
    assume "fst (dk_finalized ?d) < h'" "h' \<notin> dk_quarantine ?d" "cast_prevote ?L h' r tid' \<or> cast_precommit ?L h' r tid'"
    then show "h' \<le> dk_highwater ?d" using old(6) [of h' r tid'] up h0 by auto
  qed
qed

text \<open>A batch of a node that has not stopped is stored, stored but reported as failed, or lost.\<close>

lemma persist_batch_cases [consumes 2, case_names stored replayed lost]:
  assumes "persist_batch batch n = (ok, n')" and "\<not> safety_storage_failed n"
  obtains (stored) fs where "ok" "n' = n\<lparr>nd_disk := batch ((nd_disk n)\<lparr>dk_faults := fs\<rparr>)\<rparr>"
  | (replayed) fs where "\<not> ok"
      "n' = n\<lparr>nd_disk := (batch ((nd_disk n)\<lparr>dk_faults := fs\<rparr>))\<lparr>dk_fenced := True\<rparr>, nd_safety_storage_failed := True\<rparr>"
  | (lost) fs where "\<not> ok" "n' = n\<lparr>nd_disk := (nd_disk n)\<lparr>dk_faults := fs, dk_fenced := True\<rparr>, nd_safety_storage_failed := True\<rparr>"
proof -
  have live: "\<not> dk_fenced (nd_disk n)" "\<not> nd_safety_storage_failed n" using assms(2) by (auto simp: safety_storage_failed_def)
  have same: "(nd_disk n)\<lparr>dk_faults := dk_faults (nd_disk n)\<rparr> = nd_disk n" by simp
  show ?thesis
  proof (cases "dk_faults (nd_disk n)")
    case Nil
    then have "ok" "n' = n\<lparr>nd_disk := batch ((nd_disk n)\<lparr>dk_faults := dk_faults (nd_disk n)\<rparr>)\<rparr>"
      using assms(1) live unfolding same by (simp_all add: persist_batch_def write_batch_durable_def)
    then show ?thesis by (rule stored)
  next
    case (Cons out fs)
    note eq = assms(1) [unfolded persist_batch_def write_batch_durable_def enter_safety_fail_stop_def]
    show ?thesis
    proof (cases out)
      case Written
      show ?thesis by (rule stored [of fs]) (use eq live Cons Written in simp_all)
    next
      case Lost
      show ?thesis by (rule lost [of fs]) (use eq live Cons Lost in simp_all)
    next
      case Replayed
      show ?thesis by (rule replayed [of fs]) (use eq live Cons Replayed in simp_all)
    qed
  qed
qed

lemma persist_batch_failed:
  assumes "safety_storage_failed n" and "nd_safety_storage_failed n \<longrightarrow> dk_fenced (nd_disk n)"
  shows "persist_batch batch n = (False, n\<lparr>nd_safety_storage_failed := True\<rparr>)"
  using assms
  by (cases "nd_disk n")
     (auto simp: persist_batch_def write_batch_durable_def safety_storage_failed_def enter_safety_fail_stop_def)

lemma world_mono: "own_log n \<subseteq> own_log n' \<Longrightarrow> world W p n q \<subseteq> world W p n' q"
  by (simp add: world_def)

lemma counts_ok_mono:
  assumes "counts_ok C V n" and "\<And>q. V q \<subseteq> V' q"
  shows "counts_ok C V' n"
  using assms(1) unfolding counts_ok_def
  by (elim conjE, intro conjI) (erule genuine_mono, erule cast_mono, rule assms(2))+

lemma memory_ok_grow:
  assumes "memory_ok C p n" and "own_log n \<subseteq> set (dk_log d)"
  shows "memory_ok C p (n\<lparr>nd_disk := d\<rparr>)"
  using memory_okD [OF assms(1)] cast_mono(1,2) [OF _ assms(2)] unfolding memory_ok_def
  by (simp add: own_log_def)

lemma node_pre_grow:
  assumes pre: "node_pre C W p n" and sub: "own_log n \<subseteq> set (dk_log d)"
    and laws: "vote_laws C (W(p := set (dk_log d))) p" and disk: "disk_ok d"
    and same: "dk_fenced d \<or> dk_finalized d = dk_finalized (nd_disk n) \<and> dk_quarantine (nd_disk n) \<subseteq> dk_quarantine d"
    and fence: "b \<longrightarrow> dk_fenced d" and live: "\<not> safety_storage_failed n"
  shows "node_pre C W p (n\<lparr>nd_disk := d, nd_safety_storage_failed := b\<rparr>)"
proof -
  let ?n = "n\<lparr>nd_disk := d, nd_safety_storage_failed := b\<rparr>"
  have w: "world W p n q \<subseteq> world W p ?n q" for q using sub by (simp add: world_def own_log_def)
  have "counts_ok C (world W p ?n) n" using counts_ok_mono [of C "world W p n" n, OF _ w] pre by (simp add: node_pre_def)
  then have "counts_ok C (world W p ?n) ?n" by (simp add: counts_ok_def)
  moreover have "memory_ok C p ?n"
    using memory_ok_grow [OF _ sub, of C p] pre by (simp add: node_pre_def memory_ok_def own_log_def)
  moreover have "\<not> safety_storage_failed ?n \<Longrightarrow> synced ?n"
    using pre live same by (auto simp: node_pre_def synced_def safety_storage_failed_def)
  moreover have "vote_laws C (world W p ?n) p" using laws by (simp add: world_def own_log_def)
  ultimately show ?thesis using disk fence by (simp add: node_pre_def)
qed

lemma persist_row:
  assumes inv: "node_pre C W p n" and live: "\<not> safety_storage_failed n" and h: "h = nd_finalized_height n + 1"
    and fin: "nd_finalized_height n \<noteq> - 1" and st: "omap_ok (cs_prevotes st)"
    and laws: "vote_laws C (W(p := insert (Safety_Row h st) (own_log n))) p"
    and covers: "h \<notin> dk_quarantine (nd_disk n) \<Longrightarrow> row_covers (insert (Safety_Row h st) (own_log n)) h st"
    and res: "persist_batch (\<lambda>d. (stage_consensus_safety_state h st d)\<lparr>dk_locked_proposal := f d\<rparr>) n = (ok, n')"
  shows "(if ok then node_pre C W p n' \<and> \<not> safety_storage_failed n' else node_inv C W p n' \<and> safety_storage_failed n')
    \<and> (\<exists>d b. n' = n\<lparr>nd_disk := d, nd_safety_storage_failed := b\<rparr>
         \<and> dk_quarantine d = dk_quarantine (nd_disk n)
         \<and> (set (dk_log d) = insert (Safety_Row h st) (own_log n) \<or> \<not> ok \<and> set (dk_log d) = own_log n))"
proof -
  let ?L = "insert (Safety_Row h st) (own_log n)"
  have sync: "fst (dk_finalized (nd_disk n)) = nd_finalized_height n" using node_preD(5) [OF inv live] by (simp add: synced_def)
  define d' where "d' = (\<lambda>fs b. (stage_consensus_safety_state h st ((nd_disk n)\<lparr>dk_faults := fs\<rparr>))
      \<lparr>dk_locked_proposal := f ((nd_disk n)\<lparr>dk_faults := fs\<rparr>), dk_fenced := b\<rparr>)"
  have pre: "node_pre C W p (n\<lparr>nd_disk := d' fs b, nd_safety_storage_failed := b\<rparr>)" for fs b
  proof (rule node_pre_grow [OF inv _ _ _ _ _ live])
    have "disk_ok (stage_consensus_safety_state h st ((nd_disk n)\<lparr>dk_faults := fs\<rparr>))"
      by (rule disk_ok_stage) (use node_preD(4) [OF inv] sync h fin st covers in \<open>simp_all add: own_log_def\<close>)
    then show "disk_ok (d' fs b)" by (simp add: d'_def)
  qed (use laws in \<open>auto simp: d'_def own_log_def\<close>)
  have live_flags: "\<not> dk_fenced (nd_disk n)" "\<not> nd_safety_storage_failed n" using live by (auto simp: safety_storage_failed_def)
  from res live show ?thesis
  proof (cases rule: persist_batch_cases)
    case (stored fs)
    have unfenced: "\<not> dk_fenced x \<Longrightarrow> x\<lparr>dk_fenced := False\<rparr> = x" for x :: Disk by (cases x) simp
    have n': "n' = n\<lparr>nd_disk := d' fs False\<rparr>" unfolding stored(2) d'_def using live_flags by (subst unfenced) simp_all
    then have n'': "n' = n\<lparr>nd_disk := d' fs False, nd_safety_storage_failed := False\<rparr>" using live_flags by (cases n) simp
    then have "node_pre C W p n'" using pre by simp
    moreover have "\<not> safety_storage_failed n'" using live_flags by (simp add: n' safety_storage_failed_def d'_def)
    moreover have "set (dk_log (d' fs False)) = ?L" "dk_quarantine (d' fs False) = dk_quarantine (nd_disk n)" by (simp_all add: d'_def own_log_def)
    ultimately show ?thesis using stored(1) n'' by auto
  next
    case (replayed fs)
    then have n': "n' = n\<lparr>nd_disk := d' fs True, nd_safety_storage_failed := True\<rparr>" by (simp add: d'_def)
    moreover have "set (dk_log (d' fs True)) = ?L" "dk_quarantine (d' fs True) = dk_quarantine (nd_disk n)"
      by (simp_all add: d'_def own_log_def)
    moreover have "node_inv C W p n'" "safety_storage_failed n'"
      unfolding n' using pre [where fs = fs and b = True] by (simp_all add: node_inv_def safety_storage_failed_def)
    ultimately show ?thesis using replayed(1) by auto
  next
    case (lost fs)
    have "node_pre C W p n'"
      unfolding lost(2)
      by (rule node_pre_grow [OF inv _ _ _ _ _ live])
         (use node_preD(3,4) [OF inv] in \<open>simp_all add: own_log_def world_def\<close>)
    then have "node_inv C W p n'" "safety_storage_failed n'" by (simp_all add: node_inv_def safety_storage_failed_def lost(2))
    moreover have "set (dk_log ((nd_disk n)\<lparr>dk_faults := fs, dk_fenced := True\<rparr>)) = own_log n" by (simp add: own_log_def)
    ultimately show ?thesis using lost by auto
  qed
qed

subsection \<open>The record of one vote\<close>

lemma row_backed:
  assumes "memory_ok C p n"
  shows "map_of (cs_prevotes (consensus_safety_state n h)) r = Some a \<Longrightarrow> cast_prevote (own_log n) h r a"
    and "cs_lock (consensus_safety_state n h) = Some (a, r) \<Longrightarrow> cast_precommit (own_log n) h r a"
    and "omap_ok (cs_prevotes (consensus_safety_state n h))"
    and "map_of (cs_prevotes (consensus_safety_state n h)) r = map_of (nd_local_prevotes n) (h, r)"
  using memory_okD(1-3) [OF assms]
  by (simp_all add: consensus_safety_state_def map_of_prevotes_at omap_ok_prevotes_at)

lemma css_lock: "cs_lock (consensus_safety_state n h) = map_of (nd_local_vote_locks n) h"
  by (simp add: consensus_safety_state_def)

lemma world_self [simp]: "world W p n p = own_log n"
  by (simp add: world_def)

lemma world_upd [simp]: "(world W p n)(p := L) = W(p := L)"
  by (simp add: world_def)

text \<open>A row that repeats what was cast.\<close>

lemma vote_laws_same_row:
  assumes laws: "vote_laws C (world W p n) p"
    and pv: "\<And>r a. map_of (cs_prevotes st) r = Some a \<Longrightarrow> cast_prevote (own_log n) h r a"
    and pc: "\<And>a r. cs_lock st = Some (a, r) \<Longrightarrow> cast_precommit (own_log n) h r a"
  shows "vote_laws C (W(p := insert (Safety_Row h st) (own_log n))) p \<and> extends (own_log n) (insert (Safety_Row h st) (own_log n))"
  using vote_laws_grow [OF laws, of "insert (Safety_Row h st) (own_log n)" "\<lambda>h r a. False" "\<lambda>h r a. False" "\<lambda>h a. False"] pv pc
  by auto

lemma row_covers_same_row:
  assumes "row_covers L h st" and "\<And>r a. map_of (cs_prevotes st) r = Some a \<Longrightarrow> cast_prevote L h r a"
    and "\<And>a r. cs_lock st = Some (a, r) \<Longrightarrow> cast_precommit L h r a"
    and "cs_lock st' = cs_lock st" and "cs_prevotes st' = cs_prevotes st"
  shows "row_covers (insert (Safety_Row h st') L) h st'"
proof -
  have "cast_prevote (insert (Safety_Row h st') L) h r a \<longleftrightarrow> cast_prevote L h r a"
    "cast_precommit (insert (Safety_Row h st') L) h r a \<longleftrightarrow> cast_precommit L h r a" for r a
    using assms(2) [of r a] assms(3) [of a r] assms(4,5) by auto
  then show ?thesis using assms(1,4,5) by (simp add: row_covers_def)
qed

text \<open>The row with one more prevote.\<close>

lemma vote_laws_prevote_row:
  assumes laws: "vote_laws C (world W p n) p" and mem: "memory_ok C p n" and covers: "row_covers (own_log n) h (consensus_safety_state n h)"
    and fresh: "map_of (nd_local_prevotes n) (h, r) = None"
    and par: "is_parent (own_log n) h par" and member: "p \<in> set (comm C par h)"
    and rule: "\<And>tid' r0. map_of (nd_local_vote_locks n) h = Some (tid', r0) \<Longrightarrow> tid' \<noteq> tid \<Longrightarrow>
        \<exists>pr. r0 \<le> pr \<and> pr < r \<and> polka C (world W p n) par h pr tid"
    and floor: "\<And>tid' r0. map_of (nd_local_vote_locks n) h = Some (tid', r0) \<Longrightarrow> r0 \<le> r"
    and kills: "\<And>r0 a. polka C (world W p n) par h r tid \<Longrightarrow> r0 < r \<Longrightarrow> a \<noteq> tid \<Longrightarrow> dead C (world W p n) par h r0 a"
    and st: "st = (consensus_safety_state n h)\<lparr>cs_prevotes := omap_upd r tid (cs_prevotes (consensus_safety_state n h))\<rparr>"
  shows "vote_laws C (W(p := insert (Safety_Row h st) (own_log n))) p \<and> extends (own_log n) (insert (Safety_Row h st) (own_log n))"
proof -
  let ?L = "insert (Safety_Row h st) (own_log n)" and ?css = "consensus_safety_state n h"
  note backed = row_backed [OF mem]
  have lock: "\<exists>tid' r'. map_of (nd_local_vote_locks n) h = Some (tid', r') \<and> (r0 < r' \<or> r0 = r' \<and> a = tid')"
    if "cast_precommit (own_log n) h r0 a" for r0 a
    using covers that unfolding row_covers_def by (simp add: css_lock)
  have none: "\<not> cast_prevote (own_log n) h r a" for a
    using covers fresh unfolding row_covers_def by (auto simp: backed(4))
  have "vote_laws C ((world W p n)(p := ?L)) p \<and> extends (world W p n p) ?L"
  proof (rule vote_laws_grow [OF laws, where npv = "\<lambda>h' r' a. h' = h \<and> r' = r \<and> a = tid" and npc = "\<lambda>h r a. False" and nft = "\<lambda>h a. False"])
    fix h' r' a assume "cast_prevote ?L h' r' a"
    then show "cast_prevote (world W p n p) h' r' a \<or> h' = h \<and> r' = r \<and> a = tid"
      using backed(1) by (auto simp: st split: if_splits)
  next
    fix h' r' a assume "cast_precommit ?L h' r' a"
    then show "cast_precommit (world W p n p) h' r' a \<or> False" using backed(2) by (auto simp: st)
  next
    fix h' r' a b assume "h' = h \<and> r' = r \<and> a = tid" "cast_prevote ?L h' r' b"
    then show "a = b" using none by (auto simp: st)
  next
    fix h' r0 a r' b
    assume new: "h' = h \<and> r' = r \<and> b = tid" and old: "cast_precommit (world W p n p) h' r0 a" and lt: "r0 < r'" and ne: "b \<noteq> a"
    from lock [of r0 a] old new obtain tid' r1 where
      l: "map_of (nd_local_vote_locks n) h = Some (tid', r1)" "r0 < r1 \<or> r0 = r1 \<and> a = tid'" by auto
    have "(\<exists>pr. r0 \<le> pr \<and> pr < r \<and> polka C (world W p n) par h pr tid) \<or> dead C (world W p n) par h r0 a"
    proof (cases "tid' = tid")
      case False
      from rule [OF l(1) False] obtain pr where "r1 \<le> pr" "pr < r" "polka C (world W p n) par h pr tid" by blast
      moreover have "r0 \<le> r1" using l(2) by auto
      ultimately show ?thesis using order_trans by blast
    next
      case True
      then have r01: "r0 < r1" using l(2) ne new by blast
      have "cast_precommit (world W p n p) h r1 tid" using backed(2) [of h tid r1] l(1) True by (simp add: css_lock)
      from vote_lawsD(3) [OF laws this] obtain x where x: "is_parent (own_log n) h x" "polka C (world W p n) x h r1 tid" by auto
      have "x = par" using vote_lawsD(6) [OF laws, of "h - 1" x par] x(1) par by (simp add: is_parent_def)
      then have pk: "polka C (world W p n) par h r1 tid" using x(2) by simp
      show ?thesis
      proof (cases "r1 < r")
        case True
        then show ?thesis using pk r01 less_imp_le by blast
      next
        case False
        then have "r1 = r" using floor [OF l(1)] by simp
        then have "dead C (world W p n) par h r0 a" using kills [of r0 a] pk r01 ne new by simp
        then show ?thesis ..
      qed
    qed
    then show "\<exists>x. is_parent (world W p n p) h' x \<and> ((\<exists>pr. r0 \<le> pr \<and> pr < r' \<and> polka C (world W p n) x h' pr b) \<or> dead C (world W p n) x h' r0 a)"
      using par new by auto
  qed (use par member in auto)
  then show ?thesis by simp
qed

text \<open>The row with a new lock.\<close>

lemma vote_laws_lock_row:
  assumes laws: "vote_laws C (world W p n) p" and mem: "memory_ok C p n" and covers: "row_covers (own_log n) h (consensus_safety_state n h)"
    and par: "is_parent (own_log n) h par" and member: "p \<in> set (comm C par h)"
    and pk: "polka C (world W p n) par h r tid"
    and top: "\<And>r' b. map_of (nd_local_prevotes n) (h, r') = Some b \<Longrightarrow> r' \<le> r"
    and st: "st = (consensus_safety_state n h)\<lparr>cs_lock := Some (tid, r)\<rparr>"
  shows "vote_laws C (W(p := insert (Safety_Row h st) (own_log n))) p \<and> extends (own_log n) (insert (Safety_Row h st) (own_log n))"
proof -
  let ?L = "insert (Safety_Row h st) (own_log n)"
  note backed = row_backed [OF mem]
  have old: "cast_prevote (own_log n) h r' b \<Longrightarrow> r' \<le> r" for r' b
    using covers top unfolding row_covers_def by (auto simp: backed(4))
  have "vote_laws C ((world W p n)(p := ?L)) p \<and> extends (world W p n p) ?L"
  proof (rule vote_laws_grow [OF laws, where npv = "\<lambda>h r a. False" and npc = "\<lambda>h' r' a. h' = h \<and> r' = r \<and> a = tid" and nft = "\<lambda>h a. False"])
    fix h' r' a assume "cast_prevote ?L h' r' a"
    then show "cast_prevote (world W p n p) h' r' a \<or> False" using backed(1) by (auto simp: st)
  next
    fix h' r' a assume "cast_precommit ?L h' r' a"
    then show "cast_precommit (world W p n p) h' r' a \<or> h' = h \<and> r' = r \<and> a = tid" by (auto simp: st)
  next
    fix h' r' a r'' b assume "h' = h \<and> r' = r \<and> a = tid" "cast_prevote ?L h' r'' b"
    then show "\<not> r' < r''" using old [of r'' b] backed(1) [of h r'' b] by (auto simp: st not_less)
  qed (use par member pk in auto)
  then show ?thesis by simp
qed

lemma row_covers_cong:
  "cs_lock st = cs_lock st' \<Longrightarrow> (\<And>r. map_of (cs_prevotes st) r = map_of (cs_prevotes st') r) \<Longrightarrow> row_covers L h st = row_covers L h st'"
  by (simp add: row_covers_def)

text \<open>A row is written and then published in memory.\<close>

lemma write_and_publish:
  fixes h st pv lk vp n
  assumes inv: "node_inv C W p n" and live: "\<not> safety_storage_failed n" and h: "h = nd_finalized_height n + 1"
    and fin: "nd_finalized_height n \<noteq> - 1" and st: "omap_ok (cs_prevotes st)"
    and laws: "vote_laws C (W(p := insert (Safety_Row h st) (own_log n))) p"
    and covers: "h \<notin> nd_abstain_heights n \<Longrightarrow> row_covers (insert (Safety_Row h st) (own_log n)) h st"
    and pv: "omap_ok pv" "\<And>h' r' a. map_of pv (h', r') = Some a \<Longrightarrow> cast_prevote (insert (Safety_Row h st) (own_log n)) h' r' a"
    and lk: "\<And>h' a r'. map_of lk h' = Some (a, r') \<Longrightarrow> cast_precommit (insert (Safety_Row h st) (own_log n)) h' r' a"
    and others: "\<And>h' r'. h' \<noteq> h \<Longrightarrow> map_of lk h' = map_of (nd_local_vote_locks n) h' \<and> map_of pv (h', r') = map_of (nd_local_prevotes n) (h', r')"
    and here: "\<And>r'. map_of lk h = cs_lock st \<and> map_of pv (h, r') = map_of (cs_prevotes st) r'"
    and res: "persist_batch (\<lambda>d. (stage_consensus_safety_state h st d)\<lparr>dk_locked_proposal := f d\<rparr>) n = (ok, n1)"
  defines "n2 \<equiv> n1\<lparr>nd_local_prevotes := pv, nd_local_vote_locks := lk, nd_valid_polka_by_height := vp\<rparr>"
  shows "(ok \<longrightarrow> node_inv C W p n2 \<and> own_log n2 = insert (Safety_Row h st) (own_log n))
    \<and> (\<not> ok \<longrightarrow> node_inv C W p n1 \<and> own_log n1 \<in> {own_log n, insert (Safety_Row h st) (own_log n)})
    \<and> (\<exists>d b. n1 = n\<lparr>nd_disk := d, nd_safety_storage_failed := b\<rparr>)"
proof -
  let ?L = "insert (Safety_Row h st) (own_log n)"
  have "h \<notin> dk_quarantine (nd_disk n) \<Longrightarrow> row_covers ?L h st"
    using covers node_invD(6) [OF inv live] by (auto simp: synced_def)
  note P = persist_row [OF node_invD(1) [OF inv] live h fin st laws this res]
  show ?thesis
  proof (cases ok)
    case True
    with P obtain d b where pre: "node_pre C W p n1" and n1: "n1 = n\<lparr>nd_disk := d, nd_safety_storage_failed := b\<rparr>"
      and d: "set (dk_log d) = ?L" by auto
    have log: "own_log n1 = ?L" "own_log n2 = ?L" by (simp_all add: n2_def n1 own_log_def d)
    have css: "cs_lock (consensus_safety_state n2 h') = map_of lk h'"
      "map_of (cs_prevotes (consensus_safety_state n2 h')) r' = map_of pv (h', r')" for h' r'
      by (simp_all add: n2_def consensus_safety_state_def map_of_prevotes_at pv(1))
    have mem1: "memory_ok C p n1" using pre by (simp add: node_pre_def)
    have "memory_ok C p n2"
      unfolding memory_ok_def log using memory_okD(4,5) [OF mem1] pv lk by (simp add: n2_def log)
    moreover have "memory_covers n2"
      unfolding memory_covers_def
    proof (intro allI impI)
      fix h' assume a: "nd_finalized_height n2 < h'" "h' \<notin> nd_abstain_heights n2"
      show "row_covers (own_log n2) h' (consensus_safety_state n2 h')"
      proof (cases "h' = h")
        case True
        have "row_covers ?L h st" using covers a(2) True by (simp add: n2_def n1)
        then show ?thesis using row_covers_cong [of "consensus_safety_state n2 h" st] here by (simp add: log True css)
      next
        case False
        have "row_covers (own_log n) h' (consensus_safety_state n h')"
          using node_invD(7) [OF inv live] a by (simp add: memory_covers_def n2_def n1)
        moreover have "row_covers (own_log n) h' (consensus_safety_state n2 h') = row_covers (own_log n) h' (consensus_safety_state n h')"
          by (rule row_covers_cong) (use others [OF False] row_backed(4) [OF node_invD(3) [OF inv]] in \<open>simp_all add: css css_lock [of n]\<close>)
        ultimately show ?thesis using False by (simp add: log)
      qed
    qed
    ultimately have "node_inv C W p n2"
      using pre unfolding node_inv_def node_pre_def world_def log
      by (simp add: n2_def counts_ok_def safety_storage_failed_def synced_def)
    then show ?thesis using True log n1 by blast
  next
    case False
    with P obtain d b where "node_inv C W p n1" and n1: "n1 = n\<lparr>nd_disk := d, nd_safety_storage_failed := b\<rparr>"
      and "set (dk_log d) \<in> {own_log n, ?L}" by auto
    then have "node_inv C W p n1" "own_log n1 \<in> {own_log n, ?L}" by (auto simp: own_log_def)
    then show ?thesis using False n1 by blast
  qed
qed

subsection \<open>Steps of a node in its network\<close>

text \<open>The fields the invariant speaks about; an update of any other field keeps it.\<close>

definition core where
  "core n = (nd_finalized_height n, nd_finalized_id n, nd_votes n, nd_prevotes n, nd_local_vote_locks n, nd_local_prevotes n,
     nd_abstain_heights n, nd_candidates n, nd_pending_local_precommits n, nd_vote_verify_cache n, nd_prevote_verify_cache n,
     nd_safety_storage_failed n, nd_disk n)"

lemma node_inv_core:
  assumes "core n' = core n"
  shows "node_inv C W p n' = node_inv C W p n"
proof -
  note eqs = assms [unfolded core_def prod.inject]
  have css: "row_covers L h (consensus_safety_state n' h) = row_covers L h (consensus_safety_state n h)" for L h
    by (rule row_covers_cong) (use eqs in \<open>simp_all add: consensus_safety_state_def\<close>)
  show ?thesis
    using eqs
    by (simp add: node_inv_def node_pre_def counts_ok_def memory_ok_def synced_def memory_covers_def css own_log_def world_def
        safety_storage_failed_def)
qed

definition net_ok :: "Net \<Rightarrow> bool" where
  "net_ok C \<longleftrightarrow> few_faults C \<and> (\<forall>par h. length (comm C par h) \<noteq> 1)"

definition sound :: "Net \<Rightarrow> (pubkey32 \<Rightarrow> disk_log) \<Rightarrow> pubkey32 \<Rightarrow> NodeEnv \<Rightarrow> Node \<Rightarrow> bool" where
  "sound C W p env n \<longleftrightarrow> env_of C p env \<and> net_ok C \<and> p \<in> nt_honest C \<and> node_inv C W p n
     \<and> (\<forall>q \<in> nt_honest C. vote_laws C (world W p n) q)"

definition step_ok :: "Net \<Rightarrow> (pubkey32 \<Rightarrow> disk_log) \<Rightarrow> pubkey32 \<Rightarrow> NodeEnv \<Rightarrow> Node \<Rightarrow> Node \<Rightarrow> bool" where
  "step_ok C W p env n n' \<longleftrightarrow> sound C W p env n' \<and> extends (own_log n) (own_log n')"

lemma soundD:
  assumes "sound C W p env n"
  shows "env_of C p env" and "few_faults C" and "length (comm C par h) \<noteq> 1" and "p \<in> nt_honest C" and "node_inv C W p n"
    and "lawful C (world W p n)"
  using assms unfolding sound_def net_ok_def lawful_def by blast+

lemma step_okI:
  assumes "sound C W p env n" and "node_inv C W p n'" and "extends (own_log n) (own_log n')"
  shows "step_ok C W p env n n'"
proof -
  have "vote_laws C (world W p n') q" if "q \<in> nt_honest C" for q
  proof (cases "q = p")
    case True
    then show ?thesis using node_invD(4) [OF assms(2)] by simp
  next
    case False
    have "vote_laws C (world W p n) q" using assms(1) that by (simp add: sound_def)
    then show ?thesis by (rule vote_laws_mono) (use assms(3) False in \<open>simp_all add: world_def\<close>)
  qed
  then show ?thesis using assms by (simp add: step_ok_def sound_def)
qed

lemma step_ok_refl: "sound C W p env n \<Longrightarrow> step_ok C W p env n n"
  by (simp add: step_ok_def)

lemma step_ok_sound: "step_ok C W p env n n' \<Longrightarrow> sound C W p env n'"
  by (simp add: step_ok_def)

lemma step_ok_trans: "step_ok C W p env n n' \<Longrightarrow> step_ok C W p env n' n'' \<Longrightarrow> step_ok C W p env n n''"
  by (auto simp: step_ok_def intro: extends_trans)

lemma step_ok_core: "sound C W p env n \<Longrightarrow> core n' = core n \<Longrightarrow> step_ok C W p env n n'"
  by (rule step_okI) (auto simp: node_inv_core [of n' n] soundD(5), simp add: core_def own_log_def)

lemma step_ok_core_after: "step_ok C W p env n n' \<Longrightarrow> core n'' = core n' \<Longrightarrow> step_ok C W p env n n''"
  using step_ok_trans step_ok_core step_ok_sound by blast

lemma tip_parent:
  assumes "node_inv C W p n" and "\<not> safety_storage_failed n" and "h = nd_finalized_height n + 1"
  shows "is_parent (own_log n) h (nd_finalized_id n)"
  using disk_okD(1) [OF node_invD(5) [OF assms(1)]] node_invD(6) [OF assms(1,2)] assms(3)
  by (simp add: is_parent_def own_log_def synced_def)

lemma persist_as_batch:
  "persist_consensus_safety_state h st n =
     persist_batch (\<lambda>d. (stage_consensus_safety_state h st d)\<lparr>dk_locked_proposal := dk_locked_proposal d\<rparr>) n"
proof -
  have same: "x\<lparr>dk_locked_proposal := y\<rparr> = x" if "dk_locked_proposal x = y" for x :: Disk and y using that by (cases x) simp
  have "(\<lambda>d. (stage_consensus_safety_state h st d)\<lparr>dk_locked_proposal := dk_locked_proposal d\<rparr>) = stage_consensus_safety_state h st"
    by (rule ext) (rule same, simp)
  then show ?thesis by (simp add: persist_consensus_safety_state_def)
qed

lemma below_max:
  assumes "f < (- 2 :: u64)"
  shows "f \<noteq> - 1" and "f + 1 \<noteq> - 1"
proof -
  show "f \<noteq> - 1" using assms by auto
  have "f = - 1 - 1" if "f + 1 = - 1" by (subst that [symmetric]) simp
  then show "f + 1 \<noteq> - 1" using assms by auto
qed

lemma stopped_ok:
  assumes "sound C W p env n" and failed: "safety_storage_failed n"
  shows "step_ok C W p env n (n\<lparr>nd_safety_storage_failed := True\<rparr>)"
proof (rule step_okI [OF assms(1)])
  note inv = soundD(5) [OF assms(1)]
  have "dk_fenced (nd_disk n)" using failed node_invD(8) [OF inv] by (auto simp: safety_storage_failed_def)
  then show "node_inv C W p (n\<lparr>nd_safety_storage_failed := True\<rparr>)"
    using node_invD(1) [OF inv]
    by (simp add: node_inv_def node_pre_def counts_ok_def memory_ok_def own_log_def world_def safety_storage_failed_def)
qed (simp add: own_log_def)

text \<open>A failed write leaves the record as it was or with the new row.\<close>

lemma unpublished_ok:
  assumes "sound C W p env n" and "node_inv C W p n1" and "own_log n1 \<in> {own_log n, L'}" and "extends (own_log n) L'"
  shows "step_ok C W p env n n1"
  by (rule step_okI [OF assms(1,2)]) (use assms(3,4) in auto)

lemma record_local_prevote_ok:
  assumes s: "sound C W p env n" and live: "\<not> safety_storage_failed n" and h: "h = nd_finalized_height n + 1"
    and fin: "nd_finalized_height n < - 2" and voting: "h \<notin> nd_abstain_heights n"
    and fresh: "map_of (nd_local_prevotes n) (h, r) = None" and member: "p \<in> set (comm C (nd_finalized_id n) h)"
    and floor: "local_vote_round_floor n h \<le> r"
    and rule: "\<And>tid' r0. map_of (nd_local_vote_locks n) h = Some (tid', r0) \<Longrightarrow> tid' \<noteq> tid \<Longrightarrow>
        \<exists>pr. r0 \<le> pr \<and> pr < r \<and> polka C (world W p n) (nd_finalized_id n) h pr tid"
    and res: "record_local_prevote h r tid n = (ok, n')"
  shows "step_ok C W p env n n' \<and> (ok \<longrightarrow> cast_prevote (own_log n') h r tid)"
proof -
  let ?css = "consensus_safety_state n h"
  define st where "st = ?css\<lparr>cs_prevotes := omap_upd r tid (cs_prevotes ?css)\<rparr>"
  let ?L = "insert (Safety_Row h st) (own_log n)"
  note inv = soundD(5) [OF s] and mem = node_invD(3) [OF soundD(5) [OF s]]
  have fin': "nd_finalized_height n \<noteq> - 1" and h': "h \<noteq> - 1" using below_max [OF fin] h by simp_all
  have par: "is_parent (own_log n) h (nd_finalized_id n)" by (rule tip_parent [OF inv live h])
  have covers: "row_covers (own_log n) h ?css"
    using node_invD(7) [OF inv live] voting h next_height(1) [OF fin'] by (simp add: memory_covers_def)
  have "vote_laws C (W(p := ?L)) p \<and> extends (own_log n) ?L"
  proof (rule vote_laws_prevote_row [OF node_invD(4) [OF inv] mem covers fresh par member rule _ _ st_def])
    fix tid' r0 assume "map_of (nd_local_vote_locks n) h = Some (tid', r0)"
    from local_vote_round_floor_ge(1) [OF memory_okD(1) [OF mem] h' this] show "r0 \<le> r" using floor by simp
  next
    fix r0 a assume "polka C (world W p n) (nd_finalized_id n) h r tid" "r0 < r" "a \<noteq> tid"
    moreover have "is_parent (world W p n p) h (nd_finalized_id n)" using par by simp
    ultimately show "dead C (world W p n) (nd_finalized_id n) h r0 a"
      using polka_kills_tip [OF soundD(2,6,4) [OF s]] by blast
  qed
  then have laws: "vote_laws C (W(p := ?L)) p" and ext: "extends (own_log n) ?L" by blast+
  obtain ok1 n1 where res1: "persist_consensus_safety_state h st n = (ok1, n1)" by fastforce
  note res1' = res1 [unfolded persist_as_batch]
  note backed = row_backed [OF mem]
  define n2 where "n2 = n1\<lparr>nd_local_prevotes := omap_upd (h, r) tid (nd_local_prevotes n),
      nd_local_vote_locks := nd_local_vote_locks n, nd_valid_polka_by_height := nd_valid_polka_by_height n\<rparr>"
  have "row_covers ?L h st"
    using covers fresh unfolding row_covers_def st_def by (auto simp: backed(4))
  then have W: "(ok1 \<longrightarrow> node_inv C W p n2 \<and> own_log n2 = ?L) \<and> (\<not> ok1 \<longrightarrow> node_inv C W p n1 \<and> own_log n1 \<in> {own_log n, ?L})
      \<and> (\<exists>d b. n1 = n\<lparr>nd_disk := d, nd_safety_storage_failed := b\<rparr>)"
    unfolding n2_def using memory_okD(1-3) [OF mem] backed(3,4)
    by (intro write_and_publish [OF inv live h fin' _ laws _ _ _ _ _ _ res1']) (auto simp: st_def css_lock split: if_splits)
  show ?thesis
  proof (cases ok1)
    case True
    from W obtain d b where n1: "n1 = n\<lparr>nd_disk := d, nd_safety_storage_failed := b\<rparr>" by blast
    have n': "ok" "n' = n2"
      using res res1 True unfolding record_local_prevote_def Let_def st_def [symmetric] by (auto simp: n2_def n1)
    have "step_ok C W p env n n2" by (rule step_okI [OF s]) (use W True ext in simp_all)
    moreover have "cast_prevote (own_log n2) h r tid" using W True by (simp add: st_def)
    ultimately show ?thesis using n' by simp
  next
    case False
    have n': "\<not> ok" "n' = n1" using res res1 False unfolding record_local_prevote_def Let_def st_def [symmetric] by simp_all
    have "step_ok C W p env n n1" by (rule unpublished_ok [OF s _ _ ext]) (use W False in simp_all)
    then show ?thesis using n' by simp
  qed
qed

lemma lock_on_polka_ok:
  assumes s: "sound C W p env n" and live: "\<not> safety_storage_failed n" and h: "h = nd_finalized_height n + 1"
    and fin: "nd_finalized_height n < - 2" and voting: "h \<notin> nd_abstain_heights n"
    and member: "p \<in> set (comm C (nd_finalized_id n) h)" and floor: "local_vote_round_floor n h \<le> r"
    and tid: "tid = transition_id (nt_sha256d C) (fpr_transition q)"
    and pk: "polka C (world W p n) (nd_finalized_id n) h r tid"
    and res: "lock_on_polka env h r q n = (ok, n')"
  shows "step_ok C W p env n n' \<and> (ok \<longrightarrow> cast_precommit (own_log n') h r tid)"
proof -
  let ?css = "consensus_safety_state n h" and ?lock = "map_of (nd_local_vote_locks n) h"
  define st where "st = ?css\<lparr>cs_lock := Some (tid, r)\<rparr>"
  let ?L = "insert (Safety_Row h st) (own_log n)"
  note inv = soundD(5) [OF s] and mem = node_invD(3) [OF soundD(5) [OF s]]
  note backed = row_backed [OF mem]
  have fin': "nd_finalized_height n \<noteq> - 1" and h': "h \<noteq> - 1" using below_max [OF fin] h by simp_all
  have par: "is_parent (own_log n) h (nd_finalized_id n)" by (rule tip_parent [OF inv live h])
  have covers: "row_covers (own_log n) h ?css"
    using node_invD(7) [OF inv live] voting h next_height(1) [OF fin'] by (simp add: memory_covers_def)
  have sha: "en_sha256d env = nt_sha256d C" using soundD(1) [OF s] by (simp add: env_of_def)
  note res' = res [unfolded lock_on_polka_def Let_def sha, folded tid, folded st_def]
  consider (same) "?lock = Some (tid, r)"
    | (low) a r0 where "?lock \<noteq> Some (tid, r)" "?lock = Some (a, r0)" "r \<le> r0"
    | (new) "?lock \<noteq> Some (tid, r)" "\<And>a r0. ?lock = Some (a, r0) \<Longrightarrow> r0 < r"
    by (cases ?lock) (simp, metis not_le option.inject prod.inject surj_pair)
  then show ?thesis
  proof cases
    case same
    then show ?thesis using res' step_ok_refl [OF s] memory_okD(3) [OF mem] by auto
  next
    case low
    then show ?thesis using res' step_ok_refl [OF s] by auto
  next
    case new
    have top: "r' \<le> r" if "map_of (nd_local_prevotes n) (h, r') = Some b" for r' b
      using local_vote_round_floor_ge(2) [OF memory_okD(1) [OF mem] h' that] floor by simp
    have "vote_laws C (W(p := ?L)) p \<and> extends (own_log n) ?L"
      by (rule vote_laws_lock_row [OF node_invD(4) [OF inv] mem covers par member pk top st_def])
    then have laws: "vote_laws C (W(p := ?L)) p" and ext: "extends (own_log n) ?L" by blast+
    obtain ok1 n1 where res1: "persist_consensus_safety_state h st n = (ok1, n1)" by fastforce
    note res1' = res1 [unfolded persist_as_batch]
    define n2 where "n2 = n1\<lparr>nd_local_prevotes := nd_local_prevotes n,
        nd_local_vote_locks := omap_upd h (tid, r) (nd_local_vote_locks n), nd_valid_polka_by_height := nd_valid_polka_by_height n\<rparr>"
    have "row_covers ?L h st"
      using covers new(2) unfolding row_covers_def st_def css_lock by (auto simp: backed(4)) (metis less_trans)+
    then have W: "(ok1 \<longrightarrow> node_inv C W p n2 \<and> own_log n2 = ?L) \<and> (\<not> ok1 \<longrightarrow> node_inv C W p n1 \<and> own_log n1 \<in> {own_log n, ?L})
        \<and> (\<exists>d b. n1 = n\<lparr>nd_disk := d, nd_safety_storage_failed := b\<rparr>)"
      unfolding n2_def using memory_okD(1-3) [OF mem] backed(3,4)
      by (intro write_and_publish [OF inv live h fin' _ laws _ _ _ _ _ _ res1']) (auto simp: st_def split: if_splits)
    have guard: "\<not> (case ?lock of None \<Rightarrow> False | Some (locked_id, locked_round) \<Rightarrow> r \<le> locked_round)"
      using new(2) by (auto simp: not_le split: option.splits)
    show ?thesis
    proof (cases ok1)
      case True
      from W obtain d b where n1: "n1 = n\<lparr>nd_disk := d, nd_safety_storage_failed := b\<rparr>" by blast
      have n': "ok" "n' = n2" using res' res1 True new(1) guard by (auto simp: n2_def n1)
      have "step_ok C W p env n n2" by (rule step_okI [OF s]) (use W True ext in simp_all)
      moreover have "cast_precommit (own_log n2) h r tid" using W True by (simp add: st_def)
      ultimately show ?thesis using n' by simp
    next
      case False
      have n': "\<not> ok" "n' = n1" using res' res1 False new(1) guard by auto
      have "step_ok C W p env n n1" by (rule unpublished_ok [OF s _ _ ext]) (use W False in simp_all)
      then show ?thesis using n' by simp
    qed
  qed
qed

lemma store_valid_polka_ok:
  assumes s: "sound C W p env n" and h: "qc_height qc = nd_finalized_height n + 1" and fin: "nd_finalized_height n < - 2"
  shows "step_ok C W p env n (store_valid_polka qc q n)
    \<and> (\<exists>d b vp. store_valid_polka qc q n = n\<lparr>nd_disk := d, nd_safety_storage_failed := b, nd_valid_polka_by_height := vp\<rparr>)"
proof -
  define h where "h = qc_height qc"
  let ?css = "consensus_safety_state n h"
  define st where "st = ?css\<lparr>cs_valid_polka := Some qc\<rparr>"
  define batch where "batch = (\<lambda>d. (stage_consensus_safety_state h st d)\<lparr>dk_locked_proposal := omap_upd h q (dk_locked_proposal d)\<rparr>)"
  let ?L = "insert (Safety_Row h st) (own_log n)" and ?new = "case map_of (nd_valid_polka_by_height n) h of None \<Rightarrow> True | Some q \<Rightarrow> qc_round qc > qc_round q"
  note inv = soundD(5) [OF s] and mem = node_invD(3) [OF soundD(5) [OF s]]
  note backed = row_backed [OF mem]
  have hn: "h = nd_finalized_height n + 1" using h by (simp add: h_def)
  have fin': "nd_finalized_height n \<noteq> - 1" using below_max [OF fin] by simp
  have eq: "store_valid_polka qc q n = (if ?new then (case persist_batch batch n of (False, n) \<Rightarrow> n
      | (True, n) \<Rightarrow> n\<lparr>nd_valid_polka_by_height := omap_upd h qc (nd_valid_polka_by_height n)\<rparr>) else n)"
    by (simp add: store_valid_polka_def h_def [symmetric] st_def batch_def)
  obtain ok1 n1 where res1: "persist_batch batch n = (ok1, n1)" by fastforce
  have noop: "\<exists>d b vp. n = n\<lparr>nd_disk := d, nd_safety_storage_failed := b, nd_valid_polka_by_height := vp\<rparr>"
    by (intro exI [of _ "nd_disk n"] exI [of _ "nd_safety_storage_failed n"] exI [of _ "nd_valid_polka_by_height n"]) simp
  show ?thesis
  proof (cases ?new)
    case False
    then show ?thesis using step_ok_refl [OF s] noop by (simp add: eq)
  next
    case new: True
    show ?thesis
    proof (cases "safety_storage_failed n")
      case True
      have "persist_batch batch n = (False, n\<lparr>nd_safety_storage_failed := True\<rparr>)"
        by (rule persist_batch_failed [OF True]) (use node_invD(8) [OF inv] in simp)
      then have "store_valid_polka qc q n = n\<lparr>nd_safety_storage_failed := True\<rparr>" using new by (simp add: eq)
      moreover have "n\<lparr>nd_safety_storage_failed := True\<rparr>
          = n\<lparr>nd_disk := nd_disk n, nd_safety_storage_failed := True, nd_valid_polka_by_height := nd_valid_polka_by_height n\<rparr>" by simp
      ultimately show ?thesis using stopped_ok [OF s True] by metis
    next
      case live: False
      have "vote_laws C (W(p := ?L)) p \<and> extends (own_log n) ?L"
        by (rule vote_laws_same_row [OF node_invD(4) [OF inv]]) (use backed(1,2) in \<open>simp_all add: st_def\<close>)
      then have laws: "vote_laws C (W(p := ?L)) p" and ext: "extends (own_log n) ?L" by blast+
      define n2 where "n2 = n1\<lparr>nd_local_prevotes := nd_local_prevotes n, nd_local_vote_locks := nd_local_vote_locks n,
          nd_valid_polka_by_height := omap_upd h qc (nd_valid_polka_by_height n)\<rparr>"
      have covers: "row_covers ?L h st" if "h \<notin> nd_abstain_heights n"
      proof -
        have "row_covers (own_log n) h ?css"
          using node_invD(7) [OF inv live] that hn next_height(1) [OF fin'] by (simp add: memory_covers_def)
        then show ?thesis by (rule row_covers_same_row) (use backed(1,2) in \<open>simp_all add: st_def\<close>)
      qed
      have W: "(ok1 \<longrightarrow> node_inv C W p n2 \<and> own_log n2 = ?L) \<and> (\<not> ok1 \<longrightarrow> node_inv C W p n1 \<and> own_log n1 \<in> {own_log n, ?L})
          \<and> (\<exists>d b. n1 = n\<lparr>nd_disk := d, nd_safety_storage_failed := b\<rparr>)"
        unfolding n2_def using memory_okD(1-3) [OF mem] backed(3,4) covers
        by (intro write_and_publish [OF inv live hn fin' _ laws _ _ _ _ _ _ res1 [unfolded batch_def]]) (auto simp: st_def css_lock)
      then obtain d b where n1: "n1 = n\<lparr>nd_disk := d, nd_safety_storage_failed := b\<rparr>" by blast
      show ?thesis
      proof (cases ok1)
        case True
        have n': "store_valid_polka qc q n = n2" using new res1 True by (simp add: eq n2_def n1)
        have "step_ok C W p env n n2" by (rule step_okI [OF s]) (use W True ext in simp_all)
        then show ?thesis unfolding n' by (auto simp: n2_def n1)
      next
        case False
        have n': "store_valid_polka qc q n = n1" using new res1 False by (simp add: eq)
        have "step_ok C W p env n n1" by (rule unpublished_ok [OF s _ _ ext]) (use W False in simp_all)
        moreover have "n1 = n\<lparr>nd_disk := d, nd_safety_storage_failed := b, nd_valid_polka_by_height := nd_valid_polka_by_height n\<rparr>"
          by (simp add: n1)
        ultimately show ?thesis unfolding n' by blast
      qed
    qed
  qed
qed

subsection \<open>Finalization\<close>

lemma forget_lookups:
  fixes h h' :: u64 and m :: "(u64 \<times> u32, 'a) omap"
  assumes "h \<noteq> - 1" and "h' \<noteq> h"
  shows "map_of (filter (\<lambda>(k, tid). \<not> ((h, 0) \<le> k \<and> k < (h + 1, 0))) m) (h', r) = map_of m (h', r :: u32)"
proof -
  have "\<not> ((h, 0) \<le> (h', r) \<and> (h', r) < (h + 1, 0))"
    using assms(2) next_height(3) [OF assms(1), of h'] by (auto simp: less_prod_def' less_eq_prod_def)
  moreover have "(\<lambda>(k, tid). \<not> ((h, 0) \<le> k \<and> k < (h + 1, 0))) = (\<lambda>e :: (u64 \<times> u32) \<times> 'a. \<not> ((h, 0) \<le> fst e \<and> fst e < (h + 1, 0)))"
    by auto
  ultimately show ?thesis
    using map_of_omap_filter_keys [of "\<lambda>k. \<not> ((h, 0) \<le> k \<and> k < (h + 1, 0))" m "(h', r)"] by auto
qed

lemma filter_lookup: "omap_ok m \<Longrightarrow> map_of (filter P m) k = Some v \<Longrightarrow> map_of m k = Some v"
  using omap_in_set [of m k v] map_of_SomeD [of "filter P m" k v] by auto

text \<open>The state after the batch of a finalization is durable and published.\<close>

lemma publish_finalized_inv:
  fixes n d t
  assumes inv: "node_inv C W p n" and live: "\<not> safety_storage_failed n" and fin: "nd_finalized_height n < - 2"
    and h: "ft_height t = nd_finalized_height n + 1" and sha: "en_sha256d env = nt_sha256d C"
    and tid: "tid = transition_id (nt_sha256d C) t"
    and n1: "n1 = n\<lparr>nd_disk := stage_finalization (ft_height t) tid ((nd_disk n)\<lparr>dk_faults := fs\<rparr>)\<rparr>"
    and laws: "vote_laws C (W(p := insert (Finalized_Tip (ft_height t) tid) (own_log n))) p"
  shows "node_inv C W p (publish_finalized env t commit_round committee sigs n1)
    \<and> own_log (publish_finalized env t commit_round committee sigs n1) = insert (Finalized_Tip (ft_height t) tid) (own_log n)"
proof -
  let ?h = "ft_height t" and ?n = "publish_finalized env t commit_round committee sigs n1"
  let ?L = "insert (Finalized_Tip ?h tid) (own_log n)"
  have fin': "nd_finalized_height n \<noteq> - 1" and h': "?h \<noteq> - 1" using below_max [OF fin] h by simp_all
  have up: "nd_finalized_height n < ?h" and h0: "?h \<noteq> 0" using next_height(1,2) [OF fin'] h by simp_all
  have h_pos: "0 < ?h" using h0 by (simp add: word_neq_0_conv)
  have fields: "nd_disk ?n = nd_disk n1" "nd_finalized_height ?n = ?h" "nd_finalized_id ?n = tid"
      "nd_votes ?n = vt_clear_height ?h (vt_clear_height (?h + 1) (nd_votes n))"
      "nd_prevotes ?n = vt_clear_height ?h (vt_clear_height (?h + 1) (nd_prevotes n))"
      "nd_vote_verify_cache ?n = nd_vote_verify_cache n" "nd_prevote_verify_cache ?n = nd_prevote_verify_cache n"
      "nd_local_vote_locks ?n = omap_del ?h (nd_local_vote_locks n)"
      "nd_local_prevotes ?n = filter (\<lambda>(k, tid). \<not> ((?h, 0) \<le> k \<and> k < (?h + 1, 0))) (nd_local_prevotes n)"
      "nd_abstain_heights ?n = nd_abstain_heights n - {?h}" "nd_candidates ?n = []"
      "nd_pending_local_precommits ?n = nd_pending_local_precommits n" "nd_safety_storage_failed ?n = nd_safety_storage_failed n"
    using up h_pos by (simp_all add: publish_finalized_def forget_consensus_safety_state_def Let_def n1 sha tid)
  have disk: "nd_disk n1 = stage_finalization ?h tid ((nd_disk n)\<lparr>dk_faults := fs\<rparr>)" by (simp add: n1)
  have log: "own_log ?n = ?L" unfolding own_log_def fields disk by simp
  have sub: "own_log n \<subseteq> ?L" by blast
  have w: "world W p n q \<subseteq> world W p ?n q" for q unfolding world_def log by auto
  note mem = memory_okD [OF node_invD(3) [OF inv]]
  have "counts_ok C (world W p ?n) n" by (rule counts_ok_mono [OF node_invD(2) [OF inv] w])
  then have "counts_ok C (world W p ?n) ?n"
    unfolding counts_ok_def fields
    using genuine_subset [OF _ order_trans [OF tracked_clear tracked_clear]] by blast
  moreover have "memory_ok C p ?n"
    unfolding memory_ok_def log fields
  proof (intro conjI allI impI ballI)
    fix h r a assume "map_of (filter (\<lambda>(k, tid). \<not> ((?h, 0) \<le> k \<and> k < (?h + 1, 0))) (nd_local_prevotes n)) (h, r) = Some a"
    then show "cast_prevote ?L h r a" using mem(2) filter_lookup [OF mem(1)] by simp
  qed (use mem in \<open>auto split: if_splits\<close>)
  moreover have "vote_laws C (world W p ?n) p" using laws by (simp add: world_def log)
  moreover have sync: "dk_finalized (nd_disk n) = (nd_finalized_height n, nd_finalized_id n)"
      "nd_abstain_heights n \<subseteq> dk_quarantine (nd_disk n)"
    using node_invD(6) [OF inv live] by (simp_all add: synced_def)
  moreover have "disk_ok (nd_disk ?n)"
    unfolding fields disk by (rule disk_ok_finalize) (use node_invD(5) [OF inv] sync h fin' in simp_all)
  moreover have "synced ?n"
    unfolding synced_def fields disk using sync(2) h0 by auto
  moreover have "memory_covers ?n"
    unfolding memory_covers_def
  proof (intro allI impI)
    fix h2 assume a: "nd_finalized_height ?n < h2" "h2 \<notin> nd_abstain_heights ?n"
    then have ne: "h2 \<noteq> ?h" and above: "nd_finalized_height n < h2" using up by (auto simp: fields)
    have "row_covers (own_log n) h2 (consensus_safety_state n h2)"
      using node_invD(7) [OF inv live] above a(2) ne by (simp add: memory_covers_def fields)
    moreover have "row_covers (own_log n) h2 (consensus_safety_state ?n h2) = row_covers (own_log n) h2 (consensus_safety_state n h2)"
      by (rule row_covers_cong)
         (use forget_lookups [OF h' ne, of "nd_local_prevotes n"] ne mem(1) in
          \<open>simp_all add: consensus_safety_state_def fields map_of_prevotes_at\<close>)
    ultimately show "row_covers (own_log ?n) h2 (consensus_safety_state ?n h2)" by (simp add: log)
  qed
  moreover have "nd_safety_storage_failed ?n \<longrightarrow> dk_fenced (nd_disk ?n)"
    unfolding fields using live by (simp add: safety_storage_failed_def)
  ultimately show ?thesis using log by (simp add: node_inv_def node_pre_def)
qed

lemma persist_batch_frame [simp]:
  "nd_finalized_height (snd (persist_batch batch n)) = nd_finalized_height n"
  "nd_finalized_id (snd (persist_batch batch n)) = nd_finalized_id n"
  "nd_current_round (snd (persist_batch batch n)) = nd_current_round n"
  by (auto simp: persist_batch_def enter_safety_fail_stop_def split: prod.splits bool.splits)

lemma apply_finalized_ok:
  assumes s: "sound C W p env n" and fin: "nd_finalized_height n < - 2"
    and commit: "record_extends_tip env n q \<Longrightarrow>
      commit C (world W p n) (nd_finalized_id n) (nd_finalized_height n + 1) r (transition_id (nt_sha256d C) (fpr_transition q))"
    and res: "apply_finalized_frontier_effects env q r sigs committee n = (ok, n')"
  shows "step_ok C W p env n n' \<and> (tip n' = tip n \<or> nd_finalized_height n' = nd_finalized_height n + 1)"
proof -
  define t where "t = fpr_transition q"
  define tid where "tid = transition_id (nt_sha256d C) t"
  let ?h = "ft_height t" and ?batch = "stage_finalization (ft_height t) tid"
  let ?L = "insert (Finalized_Tip ?h tid) (own_log n)"
  have sha: "en_sha256d env = nt_sha256d C" using soundD(1) [OF s] by (simp add: env_of_def)
  note inv = soundD(5) [OF s]
  note res' = res [unfolded apply_finalized_frontier_effects_def Let_def sha, folded t_def, folded tid_def]
  consider (refused) "n' = n"
    | (written) "record_extends_tip env n q" "(case persist_batch ?batch n of (False, n) \<Rightarrow> (False, n)
         | (True, n) \<Rightarrow> (True, publish_finalized env t r committee
             (canonicalize_finality_signatures sigs (quorum_threshold (length committee))) n)) = (ok, n')"
    using res' by (auto split: if_splits)
  then show ?thesis
  proof cases
    case refused
    then show ?thesis using step_ok_refl [OF s] by simp
  next
    case written
    have h: "?h = nd_finalized_height n + 1" using written(1) by (simp add: record_extends_tip_def t_def)
    have fin': "nd_finalized_height n \<noteq> - 1" using below_max [OF fin] by simp
    obtain ok1 n1 where res1: "persist_batch ?batch n = (ok1, n1)" by fastforce
    show ?thesis
    proof (cases "safety_storage_failed n")
      case True
      have "persist_batch ?batch n = (False, n\<lparr>nd_safety_storage_failed := True\<rparr>)"
        by (rule persist_batch_failed [OF True]) (use node_invD(8) [OF inv] in simp)
      then show ?thesis using written(2) stopped_ok [OF s True] by auto
    next
      case live: False
      have sync: "fst (dk_finalized (nd_disk n)) = nd_finalized_height n" using node_invD(6) [OF inv live] by (simp add: synced_def)
      have "vote_laws C ((world W p n)(p := ?L)) p \<and> extends (world W p n p) ?L"
      proof (rule vote_laws_grow [OF node_invD(4) [OF inv], where npv = "\<lambda>h r a. False" and npc = "\<lambda>h r a. False"
            and nft = "\<lambda>h a. h = ?h \<and> a = tid"])
        fix h a assume "h = ?h \<and> a = tid"
        then show "h \<noteq> 0 \<and> (\<exists>par r. is_parent (world W p n p) h par \<and> commit C (world W p n) par h r a)"
          using tip_parent [OF inv live h] commit [OF written(1)] next_height(2) [OF fin'] h by (auto simp: tid_def t_def)
      next
        fix h a b assume a: "h = ?h \<and> a = tid" "Finalized_Tip h b \<in> ?L"
        show "a = b"
          using a disk_okD(2) [OF node_invD(5) [OF inv], of h b] sync h next_height(1) [OF fin'] by (auto simp: own_log_def)
      qed auto
      then have laws: "vote_laws C (W(p := ?L)) p" and ext: "extends (own_log n) ?L" by auto
      have grown: "node_inv C W p n1 \<and> own_log n1 \<in> {own_log n, ?L}" if "\<not> ok1"
        using res1 live that
      proof (cases rule: persist_batch_cases)
        case (replayed fs)
        define d where "d = (?batch ((nd_disk n)\<lparr>dk_faults := fs\<rparr>))\<lparr>dk_fenced := True\<rparr>"
        have log: "set (dk_log d) = ?L" by (simp add: d_def own_log_def)
        have "disk_ok d" unfolding d_def disk_ok_fields
          by (rule disk_ok_finalize) (use node_invD(5) [OF inv] sync h fin' in simp_all)
        then have "node_pre C W p (n\<lparr>nd_disk := d, nd_safety_storage_failed := True\<rparr>)"
          by (intro node_pre_grow [OF node_invD(1) [OF inv] _ _ _ _ _ live]) (use laws in \<open>auto simp: d_def own_log_def\<close>)
        then show ?thesis
          using log by (simp add: replayed(2) d_def [symmetric] node_inv_def safety_storage_failed_def own_log_def)
      next
        case (lost fs)
        have "node_pre C W p n1"
          unfolding lost(2) by (rule node_pre_grow [OF node_invD(1) [OF inv] _ _ _ _ _ live])
            (use node_invD(4,5) [OF inv] in \<open>simp_all add: own_log_def world_def\<close>)
        then show ?thesis by (simp add: lost(2) node_inv_def safety_storage_failed_def own_log_def)
      qed simp
      show ?thesis
      proof (cases ok1)
        case False
        have "tip n1 = tip n" using persist_batch_frame(1,2) [of ?batch n] res1 by simp
        moreover have "step_ok C W p env n n1" by (rule unpublished_ok [OF s _ _ ext]) (use grown False in simp_all)
        ultimately show ?thesis using written(2) res1 False by auto
      next
        case True
        have "\<exists>fs. n1 = n\<lparr>nd_disk := ?batch ((nd_disk n)\<lparr>dk_faults := fs\<rparr>)\<rparr>"
          using res1 live
        proof (cases rule: persist_batch_cases)
          case (stored fs)
          then show ?thesis by (intro exI)
        qed (use True in simp_all)
        then obtain fs where n1: "n1 = n\<lparr>nd_disk := ?batch ((nd_disk n)\<lparr>dk_faults := fs\<rparr>)\<rparr>" ..
        note P = publish_finalized_inv [OF inv live fin h sha tid_def n1 laws]
        have n': "n' = publish_finalized env t r committee (canonicalize_finality_signatures sigs (quorum_threshold (length committee))) n1"
          using written(2) res1 True by auto
        have "step_ok C W p env n n'" unfolding n' by (rule step_okI [OF s]) (use P ext in simp_all)
        moreover have "nd_finalized_height n' = ?h"
          unfolding n' by (simp add: publish_finalized_def forget_consensus_safety_state_def Let_def)
        ultimately show ?thesis using h by simp
      qed
    qed
  qed
qed

subsection \<open>Certificates are quorums of cast votes\<close>

lemma quorum_of_sigs:
  assumes "quorum_threshold (length X) \<le> length (filter_sigs X ok [] ss)"
    and "\<And>s. s \<in> set ss \<Longrightarrow> ok s \<Longrightarrow> fs_validator_pubkey s \<in> H \<Longrightarrow> P (fs_validator_pubkey s)"
  shows "\<exists>Q \<subseteq> set X. quorum_threshold (length X) \<le> card Q \<and> (\<forall>q \<in> Q \<inter> H. P q)"
proof -
  from assms(1) obtain Q where Q: "Q \<subseteq> set X" "quorum_threshold (length X) \<le> card Q"
    "\<And>q. q \<in> Q \<Longrightarrow> \<exists>s \<in> set ss. fs_validator_pubkey s = q \<and> ok s" by (rule filter_sigs_quorum) blast
  have "P q" if "q \<in> Q \<inter> H" for q using Q(3) [of q] that assms(2) by blast
  then show ?thesis using Q(1,2) by blast
qed

lemma tracked_polka:
  assumes s: "sound C W p env n" and h: "h = nd_finalized_height n + 1"
    and ok: "verify_polka env n (make_quorum_certificate h r tid (vt_signatures_for (nd_prevotes n) h r tid)) True = Inr filtered"
  shows "polka C (world W p n) (nd_finalized_id n) h r tid"
proof -
  let ?X = "comm C (nd_finalized_id n) h"
  have comm: "committee_for_height_round env n h r = ?X" by (rule committee_next(1) [OF soundD(1) [OF s] h])
  have "quorum_threshold (length ?X) \<le> length (filter_sigs ?X (\<lambda>s. True) [] (vt_signatures_for (nd_prevotes n) h r tid))"
    using ok by (simp add: verify_polka_def make_quorum_certificate_def Let_def comm not_less split: if_splits)
  then show ?thesis
    unfolding polka_def
  proof (rule quorum_of_sigs)
    fix s' assume "s' \<in> set (vt_signatures_for (nd_prevotes n) h r tid)" "fs_validator_pubkey s' \<in> nt_honest C"
    then show "cast_prevote (world W p n (fs_validator_pubkey s')) h r tid"
      using node_invD(2) [OF soundD(5) [OF s]] genuineD [OF _ tracked_signatures] unfolding counts_ok_def by blast
  qed
qed

lemma received_polka:
  assumes s: "sound C W p env n" and h: "qc_height qc = nd_finalized_height n + 1"
    and ok: "verify_polka env n qc False = Inr filtered"
    and sigs: "\<And>s'. s' \<in> set (qc_signatures qc) \<Longrightarrow> fs_validator_pubkey s' \<in> nt_honest C \<Longrightarrow>
      nt_verify C (prevote_signing_message (nt_sha256d C) (nt_domain C) (qc_height qc) (qc_round qc) (qc_frontier_transition_id qc))
        (fs_signature s') (fs_validator_pubkey s') \<Longrightarrow>
      cast_prevote (world W p n (fs_validator_pubkey s')) (qc_height qc) (qc_round qc) (qc_frontier_transition_id qc)"
  shows "polka C (world W p n) (nd_finalized_id n) (qc_height qc) (qc_round qc) (qc_frontier_transition_id qc)"
    and "\<And>s'. s' \<in> set filtered \<Longrightarrow> fs_validator_pubkey s' \<in> nt_honest C \<Longrightarrow>
      cast_prevote (world W p n (fs_validator_pubkey s')) (qc_height qc) (qc_round qc) (qc_frontier_transition_id qc)"
proof -
  let ?X = "comm C (nd_finalized_id n) (qc_height qc)"
  define good where "good = (\<lambda>s' :: FinalitySig. nt_verify C (prevote_signing_message (nt_sha256d C) (nt_domain C) (qc_height qc) (qc_round qc)
    (qc_frontier_transition_id qc)) (fs_signature s') (fs_validator_pubkey s'))"
  have comm: "committee_for_height_round env n (qc_height qc) (qc_round qc) = ?X"
    by (rule committee_next(1) [OF soundD(1) [OF s] h])
  have env: "en_verify env = nt_verify C" "en_sha256d env = nt_sha256d C" "en_domain env = nt_domain C"
    using soundD(1) [OF s] by (simp_all add: env_of_def)
  have f: "filtered = filter_sigs ?X good [] (qc_signatures qc)" and q: "quorum_threshold (length ?X) \<le> length filtered"
    using ok unfolding verify_polka_def by (auto simp: Let_def comm env good_def not_less split: if_splits)
  have cast: "cast_prevote (world W p n (fs_validator_pubkey s')) (qc_height qc) (qc_round qc) (qc_frontier_transition_id qc)"
    if "s' \<in> set (qc_signatures qc)" "good s'" "fs_validator_pubkey s' \<in> nt_honest C" for s'
    using sigs [OF that(1,3)] that(2) by (simp add: good_def)
  show "polka C (world W p n) (nd_finalized_id n) (qc_height qc) (qc_round qc) (qc_frontier_transition_id qc)"
    unfolding polka_def by (rule quorum_of_sigs [OF q [unfolded f]]) (rule cast)
  fix s' assume "s' \<in> set filtered" "fs_validator_pubkey s' \<in> nt_honest C"
  then show "cast_prevote (world W p n (fs_validator_pubkey s')) (qc_height qc) (qc_round qc) (qc_frontier_transition_id qc)"
    using filter_sigs_props [of ?X good "[]" "qc_signatures qc"] cast unfolding f by blast
qed

end
