(* ===== verification/Node_Steps.thy ===== *)
theory Node_Steps
  imports Node_Safety
begin

text \<open>
  Every critical section of a node, its startup and every fault of its disk keep the invariant of
  theory \<open>Node_Safety\<close>, and whatever vote a section hands out for sending has been cast before.
\<close>

subsection \<open>Precommits and finalization\<close>

lemma if_chain: "(if a then x else if b then x else y) = (if a \<or> b then x else y)"
  by simp

lemma step_ok_world: "step_ok C W p env n n' \<Longrightarrow> world W p n q \<subseteq> world W p n' q"
  by (auto simp: step_ok_def world_def dest: extendsD(1))

lemma sign_live: "sign_consensus env n msg = Some sig \<Longrightarrow> \<not> safety_storage_failed n"
  by (auto simp: sign_consensus_def split: if_splits)

definition vote_cast :: "pubkey32 \<Rightarrow> Node \<Rightarrow> Vote \<Rightarrow> bool" where
  "vote_cast p n v \<longleftrightarrow> vote_validator_pubkey v = p \<and> cast_precommit (own_log n) (vote_height v) (vote_round v) (vote_frontier_transition_id v)"

lemma lock_on_polka_frame:
  assumes "lock_on_polka env h r q n = (ok, n')"
  shows "tip n' = tip n"
proof -
  define st where "st = (consensus_safety_state n h)\<lparr>cs_lock := Some (transition_id (en_sha256d env) (fpr_transition q), r)\<rparr>"
  obtain ok1 n1 where res: "persist_consensus_safety_state h st n = (ok1, n1)" by fastforce
  have "tip n1 = tip n"
    using persist_batch_frame(1,2) [of "stage_consensus_safety_state h st" n]
    unfolding res [unfolded persist_consensus_safety_state_def] by simp
  then show ?thesis
    using assms res by (cases ok1) (auto simp: lock_on_polka_def Let_def st_def [symmetric] split: if_splits)
qed

lemma precommit_on_polka_ok:
  assumes s: "sound C W p env n" and fin: "nd_finalized_height n < - 2"
    and tid: "tid = transition_id (nt_sha256d C) (fpr_transition q)"
    and pk: "polka C (world W p n) (nd_finalized_id n) h r tid"
    and res: "precommit_on_polka env tid h r q n = (v, n')"
  shows "step_ok C W p env n n' \<and> tip n' = tip n \<and> (\<forall>x. v = Some x \<longrightarrow> vote_cast p n' x)"
proof -
  have pub: "en_pub env = p" using soundD(1) [OF s] by (simp add: env_of_def)
  obtain ok n2 where lock: "lock_on_polka env h r q n = (ok, n2)" by fastforce
  define guard where "guard \<longleftrightarrow> h = nd_finalized_height n + 1 \<and> r = nd_current_round n \<and> (h, r) \<notin> nd_local_vote_reservations n
    \<and> map_of (nd_local_timed_out_rounds n) (h, r) = None \<and> \<not> r < local_vote_round_floor n h \<and> h \<notin> nd_abstain_heights n
    \<and> is_committee_member_for env n p h r \<and> en_ingress_status env (nd_finalized_id n) q = Ready"
  have eq: "precommit_on_polka env tid h r q n =
    (if \<not> guard then (None, n)
     else case sign_consensus env n (vote_signing_message (en_sha256d env) (en_domain env) h r tid) of
            None \<Rightarrow> (None, n)
          | Some sig \<Rightarrow>
              if ok then (Some (own_vote env h r tid sig), n2\<lparr>nd_local_vote_reservations := insert (h, r) (nd_local_vote_reservations n2)\<rparr>)
              else (None, n2))"
    unfolding precommit_on_polka_def lock guard_def abstaining_at_height_def own_vote_def pub
    unfolding if_chain by (rule if_cong) (auto split: option.splits)
  consider (skip) "v = None" "n' = n"
    | (sign) sig where "guard"
        "sign_consensus env n (vote_signing_message (en_sha256d env) (en_domain env) h r tid) = Some sig"
        "if ok then v = Some (own_vote env h r tid sig) \<and> n' = n2\<lparr>nd_local_vote_reservations := insert (h, r) (nd_local_vote_reservations n2)\<rparr>
         else v = None \<and> n' = n2"
    using res unfolding eq
    by (cases guard; cases "sign_consensus env n (vote_signing_message (en_sha256d env) (en_domain env) h r tid)"; cases ok) simp_all
  then show ?thesis
  proof cases
    case skip
    then show ?thesis using step_ok_refl [OF s] by simp
  next
    case sign
    have h: "h = nd_finalized_height n + 1" and voting: "h \<notin> nd_abstain_heights n" and floor: "local_vote_round_floor n h \<le> r"
      and "is_committee_member_for env n p h r" using sign(1) unfolding guard_def by auto
    then have member: "p \<in> set (comm C (nd_finalized_id n) h)"
      using committee_next(1) [OF soundD(1) [OF s] h, of r] by (simp add: is_committee_member_for_def)
    note L = lock_on_polka_ok [OF s sign_live [OF sign(2)] h fin voting member floor tid pk lock]
    have fin2: "tip n2 = tip n" by (rule lock_on_polka_frame [OF lock])
    show ?thesis
    proof (cases ok)
      case False
      then show ?thesis using L fin2 sign(3) by simp
    next
      case True
      then have n': "n' = n2\<lparr>nd_local_vote_reservations := insert (h, r) (nd_local_vote_reservations n2)\<rparr>"
        and v: "v = Some (own_vote env h r tid sig)" using sign(3) by simp_all
      have "step_ok C W p env n n'" by (rule step_ok_core_after [of _ _ _ _ _ n2]) (use L in \<open>simp_all add: n' core_def\<close>)
      then show ?thesis using L True pub fin2 by (simp add: v n' vote_cast_def own_vote_def own_log_def)
    qed
  qed
qed

lemma on_prevotes_changed_ok:
  assumes s: "sound C W p env n" and h: "h = nd_finalized_height n + 1" and fin: "nd_finalized_height n < - 2"
    and res: "on_prevotes_changed env tid h r n = (v, n')"
  shows "step_ok C W p env n n' \<and> tip n' = tip n \<and> (\<forall>x. v = Some x \<longrightarrow> vote_cast p n' x)"
proof -
  define qc where "qc = make_quorum_certificate h r tid (vt_signatures_for (nd_prevotes n) h r tid)"
  consider (skip) "v = None" "n' = n"
    | (polka) filtered q where "verify_polka env n qc True = Inr filtered" "map_of (nd_candidates n) tid = Some q"
        "precommit_on_polka env tid h r q (store_valid_polka (qc\<lparr>qc_signatures := filtered\<rparr>) q n) = (v, n')"
    using res unfolding on_prevotes_changed_def Let_def qc_def [symmetric]
    by (cases "verify_polka env n qc True"; cases "map_of (nd_candidates n) tid";
        cases "vote_round_covers_transition r (ft_round (fpr_transition (the (map_of (nd_candidates n) tid))))") simp_all
  then show ?thesis
  proof cases
    case skip
    then show ?thesis using step_ok_refl [OF s] by simp
  next
    case polka
    let ?n = "store_valid_polka (qc\<lparr>qc_signatures := filtered\<rparr>) q n"
    have "qc_height (qc\<lparr>qc_signatures := filtered\<rparr>) = nd_finalized_height n + 1"
      by (simp add: qc_def make_quorum_certificate_def h)
    from store_valid_polka_ok [OF s this fin, of q] obtain d b vp where step: "step_ok C W p env n ?n"
      and n1: "?n = n\<lparr>nd_disk := d, nd_safety_storage_failed := b, nd_valid_polka_by_height := vp\<rparr>" by blast
    have tip: "nd_finalized_height ?n = nd_finalized_height n" "nd_finalized_id ?n = nd_finalized_id n" by (simp_all add: n1)
    have "Vote_Laws.polka C (world W p n) (nd_finalized_id n) h r tid" by (rule tracked_polka [OF s h polka(1) [unfolded qc_def]])
    then have pk: "Vote_Laws.polka C (world W p ?n) (nd_finalized_id ?n) h r tid"
      unfolding tip by (rule polka_mono) (rule step_ok_world [OF step])
    have "tid = transition_id (nt_sha256d C) (fpr_transition q)"
      using memory_okD(5) [OF node_invD(3) [OF soundD(5) [OF s]] polka(2)] by simp
    from precommit_on_polka_ok [OF step_ok_sound [OF step] _ this pk polka(3)] fin
    show ?thesis using step_ok_trans [OF step] by (simp add: tip)
  qed
qed

lemma finalize_if_quorum_ok:
  assumes s: "sound C W p env n" and h: "h = nd_finalized_height n + 1" and fin: "nd_finalized_height n < - 2"
  shows "step_ok C W p env n (snd (finalize_if_quorum env tid h r n))
    \<and> (tip (snd (finalize_if_quorum env tid h r n)) = tip n
        \<or> nd_finalized_height (snd (finalize_if_quorum env tid h r n)) = nd_finalized_height n + 1)"
proof -
  let ?X = "comm C (nd_finalized_id n) h" and ?sigs = "vt_signatures_for (nd_votes n) h r tid"
  define filtered where "filtered = filter_sigs ?X (\<lambda>s. True) [] ?sigs"
  define canonical where "canonical = canonicalize_finality_signatures filtered (quorum_threshold (length ?X))"
  have X: "canonical_committee env n h r = ?X" by (rule canonical_committee_any [OF soundD(1) [OF s]])
  have no_self: "self_vote env tid h r ?X n = n" using soundD(3) [OF s] by (simp add: self_vote_def)
  consider (skip) "snd (finalize_if_quorum env tid h r n) = n"
    | (run) q ok n' where "map_of (nd_candidates n) tid = Some q" "\<not> length filtered < quorum_threshold (length ?X)"
        "apply_finalized_frontier_effects env q r canonical ?X n = (ok, n')"
        "core (snd (finalize_if_quorum env tid h r n)) = core n'"
  proof (cases "map_of (nd_candidates n) tid")
    case None
    then show ?thesis using skip by (simp add: finalize_if_quorum_def)
  next
    case (Some q)
    obtain ok n' where res: "apply_finalized_frontier_effects env q r canonical ?X n = (ok, n')" by fastforce
    define refused where "refused \<longleftrightarrow> \<not> vote_round_covers_transition r (ft_round (fpr_transition q)) \<or> certain_miss env tid h r n
      \<or> \<not> en_records_stored env (fpr_transition q) \<or> \<not> record_extends_tip env n q \<or> ?X = []
      \<or> length ?sigs < quorum_threshold (length ?X) \<or> length filtered < quorum_threshold (length ?X)"
    have eq: "finalize_if_quorum env tid h r n = (if refused then (False, n)
       else if ok then (True, n'\<lparr>nd_pending_finalized := nd_pending_finalized n' @
          [(q, make_finality_certificate h r tid (quorum_threshold (length ?X)) ?X canonical)]\<rparr>) else (False, n'))"
      unfolding finalize_if_quorum_def Some Let_def X no_self filtered_def [symmetric] canonical_def [symmetric]
      unfolding option.case if_chain by (rule if_cong) (cases ok, auto simp: res refused_def)
    show ?thesis
    proof (cases refused)
      case True
      then show ?thesis using skip by (simp add: eq)
    next
      case False
      have "core (snd (finalize_if_quorum env tid h r n)) = core n'" unfolding eq using False by (cases ok) (simp_all add: core_def)
      then show ?thesis using run [OF Some _ res] False unfolding refused_def by blast
    qed
  qed
  then show ?thesis
  proof cases
    case skip
    then show ?thesis using step_ok_refl [OF s] by simp
  next
    case run
    have tid: "transition_id (nt_sha256d C) (fpr_transition q) = tid"
      by (rule memory_okD(5) [OF node_invD(3) [OF soundD(5) [OF s]] run(1)])
    have "commit C (world W p n) (nd_finalized_id n) h r tid"
      unfolding commit_def
    proof (rule quorum_of_sigs)
      show "quorum_threshold (length ?X) \<le> length (filter_sigs ?X (\<lambda>s. True) [] ?sigs)"
        using run(2) by (simp add: filtered_def)
      fix s' assume "s' \<in> set ?sigs" "fs_validator_pubkey s' \<in> nt_honest C"
      then show "cast_precommit (world W p n (fs_validator_pubkey s')) h r tid"
        using node_invD(2) [OF soundD(5) [OF s]] genuineD [OF _ tracked_signatures] unfolding counts_ok_def by blast
    qed
    then have "step_ok C W p env n n' \<and> (tip n' = tip n \<or> nd_finalized_height n' = nd_finalized_height n + 1)"
      by (intro apply_finalized_ok [OF s fin _ run(3)]) (simp add: tid h)
    moreover have "tip (snd (finalize_if_quorum env tid h r n)) = tip n'"
      using run(4) by (simp add: core_def)
    ultimately show ?thesis using step_ok_core_after [OF _ run(4)] by simp
  qed
qed

lemma pending_ok:
  assumes "sound C W p env n" and "vote_cast p n v"
  shows "step_ok C W p env n (n\<lparr>nd_pending_local_precommits := nd_pending_local_precommits n @ [v]\<rparr>)"
proof (rule step_okI [OF assms(1)])
  have "memory_ok C p (n\<lparr>nd_pending_local_precommits := nd_pending_local_precommits n @ [v]\<rparr>)"
    using node_invD(3) [OF soundD(5) [OF assms(1)]] assms(2) by (auto simp: memory_ok_def own_log_def vote_cast_def)
  then show "node_inv C W p (n\<lparr>nd_pending_local_precommits := nd_pending_local_precommits n @ [v]\<rparr>)"
    using soundD(5) [OF assms(1)]
    by (simp add: node_inv_def node_pre_def counts_ok_def synced_def memory_covers_def consensus_safety_state_def own_log_def world_def
        safety_storage_failed_def)
qed (simp add: own_log_def)

lemma candidate_body_loop_ok:
  assumes "sound C W p env n" and "nd_finalized_height n < - 2 \<or> h \<le> nd_finalized_height n"
    and "candidate_body_loop env tid h rs n = Some n'"
  shows "step_ok C W p env n n' \<and> (tip n' = tip n \<or> h \<le> nd_finalized_height n')"
  using assms
proof (induction rs arbitrary: n)
  case Nil
  then show ?case using step_ok_refl by (auto split: if_splits)
next
  case (Cons r rs)
  note s = Cons.prems(1)
  show ?case
  proof (cases "r \<le> nd_current_round n \<and> nd_finalized_height n < h \<and> h = nd_finalized_height n + 1")
    case False
    then have "n' = n" using Cons.prems(3) by (auto split: if_splits)
    then show ?thesis using step_ok_refl [OF s] by simp
  next
    case True
    then have h: "h = nd_finalized_height n + 1" and fin: "nd_finalized_height n < - 2" using Cons.prems(2) by auto
    obtain v n1 where res: "on_prevotes_changed env tid h r n = (v, n1)" by fastforce
    define n2 where "n2 = (case v of None \<Rightarrow> n1 | Some v \<Rightarrow> n1\<lparr>nd_pending_local_precommits := nd_pending_local_precommits n1 @ [v]\<rparr>)"
    define n3 where "n3 = snd (finalize_if_quorum env tid h r n2)"
    note P = on_prevotes_changed_ok [OF s h fin res]
    have step2: "step_ok C W p env n n2" and fin2: "tip n2 = tip n"
      unfolding n2_def using P pending_ok [OF step_ok_sound, of C W p env n n1] step_ok_trans by (auto split: option.splits)
    have h2: "h = nd_finalized_height n2 + 1" "nd_finalized_height n2 < - 2" using h fin fin2 by simp_all
    note F = finalize_if_quorum_ok [OF step_ok_sound [OF step2] h2, of tid r, folded n3_def]
    then have step3: "step_ok C W p env n n3" using step_ok_trans [OF step2] by blast
    have fin3: "tip n3 = tip n \<or> nd_finalized_height n3 = h" using F fin2 h by auto
    have loop: "candidate_body_loop env tid h rs n3 = Some n'"
    proof -
      have "(r \<le> nd_current_round n \<and> nd_finalized_height n < h) = True" "(h \<noteq> nd_finalized_height n + 1) = False" using True by blast+
      then show ?thesis
        using Cons.prems(3)
        by (simp only: candidate_body_loop.simps res Let_def prod.case n2_def n3_def if_False if_True not_True_eq_False)
    qed
    have "step_ok C W p env n3 n' \<and> (tip n' = tip n3 \<or> h \<le> nd_finalized_height n')"
      by (rule Cons.IH [OF step_ok_sound [OF step3] _ loop]) (use fin3 fin in auto)
    then show ?thesis using step_ok_trans [OF step3] fin3 by auto
  qed
qed

lemma on_candidate_body_ok:
  assumes "sound C W p env n" and "nd_finalized_height n < - 2" and "on_candidate_body env t n = Some n'"
  shows "step_ok C W p env n n' \<and> (tip n' = tip n \<or> ft_height t \<le> nd_finalized_height n')"
  using candidate_body_loop_ok [OF assms(1)] assms(2,3) unfolding on_candidate_body_def by blast

subsection \<open>Counting received votes\<close>

lemma counts_step:
  assumes s: "sound C W p env n"
    and counts: "counts_ok C (world W p n) (n\<lparr>nd_votes := a, nd_prevotes := b, nd_vote_verify_cache := c, nd_prevote_verify_cache := d\<rparr>)"
    and core: "core n' = core (n\<lparr>nd_votes := a, nd_prevotes := b, nd_vote_verify_cache := c, nd_prevote_verify_cache := d\<rparr>)"
  shows "step_ok C W p env n n'"
proof -
  let ?n = "n\<lparr>nd_votes := a, nd_prevotes := b, nd_vote_verify_cache := c, nd_prevote_verify_cache := d\<rparr>"
  have "node_inv C W p ?n"
    using soundD(5) [OF s] counts
    by (simp add: node_inv_def node_pre_def memory_ok_def synced_def memory_covers_def consensus_safety_state_def own_log_def world_def
        safety_storage_failed_def)
  then have "step_ok C W p env n ?n" by (rule step_okI [OF s]) (simp add: own_log_def)
  then show ?thesis by (rule step_ok_core_after) (rule core)
qed

lemma check_vote_signature_ok:
  assumes "check_vote_signature env msg vote valid invalid = (reason, valid', invalid')"
    and "genuine H cast {k. fc_contains valid k}"
    and "en_verify env msg (vote_signature vote) (vote_validator_pubkey vote) \<Longrightarrow> vote_validator_pubkey vote \<in> H \<Longrightarrow>
      cast (vote_validator_pubkey vote) (vote_height vote) (vote_round vote) (vote_frontier_transition_id vote)"
  shows "genuine H cast {k. fc_contains valid' k}
    \<and> (reason = None \<longrightarrow> vote_validator_pubkey vote \<in> H \<longrightarrow>
        cast (vote_validator_pubkey vote) (vote_height vote) (vote_round vote) (vote_frontier_transition_id vote))"
proof -
  have "genuine H cast {k. fc_contains (fc_insert (verify_key_of vote) valid) k}"
    if "en_verify env msg (vote_signature vote) (vote_validator_pubkey vote)"
    by (rule genuine_insert [OF assms(2)]) (use fc_contains_insert assms(3) [OF that] in \<open>auto simp: verify_key_of_def\<close>)
  moreover have "vote_validator_pubkey vote \<in> H \<Longrightarrow>
      cast (vote_validator_pubkey vote) (vote_height vote) (vote_round vote) (vote_frontier_transition_id vote)"
    if "fc_contains valid (verify_key_of vote)"
    using genuineD [OF assms(2)] that by (simp add: verify_key_of_def)
  ultimately show ?thesis
    using assms unfolding check_vote_signature_def by (auto simp: Let_def split: if_splits)
qed

lemma genuine_add:
  assumes "genuine H cast (tracked t)"
    and "vote_validator_pubkey vote \<in> H \<Longrightarrow>
      cast (vote_validator_pubkey vote) (vote_height vote) (vote_round vote) (vote_frontier_transition_id vote)"
  shows "genuine H cast (tracked (snd (vt_add_vote vote t)))"
  by (rule genuine_insert [OF assms(1) tracked_add [unfolded verify_key_of_def]]) (rule assms(2))

lemma note_equivocation_core [simp]: "core (note_equivocation kind tr vote n) = core n"
  by (auto simp: note_equivocation_def core_def split: option.splits)

lemma record_late_core: "core (snd (record_late_finalized_vote env vote n)) = core n"
  by (simp add: record_late_finalized_vote_def core_def Let_def)

definition vote_genuine :: "Net \<Rightarrow> (pubkey32 \<Rightarrow> disk_log) \<Rightarrow> Vote \<Rightarrow> bool" where
  "vote_genuine C V vote \<longleftrightarrow> (vote_validator_pubkey vote \<in> nt_honest C \<longrightarrow>
     nt_verify C (vote_signing_message (nt_sha256d C) (nt_domain C) (vote_height vote) (vote_round vote) (vote_frontier_transition_id vote))
       (vote_signature vote) (vote_validator_pubkey vote) \<longrightarrow>
     cast_precommit (V (vote_validator_pubkey vote)) (vote_height vote) (vote_round vote) (vote_frontier_transition_id vote))"

definition prevote_genuine :: "Net \<Rightarrow> (pubkey32 \<Rightarrow> disk_log) \<Rightarrow> Vote \<Rightarrow> bool" where
  "prevote_genuine C V vote \<longleftrightarrow> (vote_validator_pubkey vote \<in> nt_honest C \<longrightarrow>
     nt_verify C (prevote_signing_message (nt_sha256d C) (nt_domain C) (vote_height vote) (vote_round vote) (vote_frontier_transition_id vote))
       (vote_signature vote) (vote_validator_pubkey vote) \<longrightarrow>
     cast_prevote (V (vote_validator_pubkey vote)) (vote_height vote) (vote_round vote) (vote_frontier_transition_id vote))"

lemma handle_vote_section_ok:
  assumes s: "sound C W p env n" and fin: "nd_finalized_height n < - 2" and v: "vote_genuine C (world W p n) vote"
    and res: "handle_vote_section env vote from_network n = (out, relay, n')"
  shows "step_ok C W p env n n'"
proof -
  have env: "en_verify env = nt_verify C" "en_sha256d env = nt_sha256d C" "en_domain env = nt_domain C"
    using soundD(1) [OF s] by (simp_all add: env_of_def)
  have quiet: "core n' = core n \<Longrightarrow> step_ok C W p env n n'" by (rule step_ok_core [OF s])
  define msg where "msg = vote_signing_message (nt_sha256d C) (nt_domain C) (vote_height vote) (vote_round vote) (vote_frontier_transition_id vote)"
  obtain reason valid invalid where chk: "check_vote_signature env msg vote (nd_vote_verify_cache n) (nd_invalid_vote_verify_cache n)
      = (reason, valid, invalid)" by (metis prod_cases3)
  obtain tr votes where add: "vt_add_vote vote (nd_votes n) = (tr, votes)" by fastforce
  define n1 where "n1 = note_equivocation Precommit tr vote
      (n\<lparr>nd_vote_verify_cache := valid, nd_invalid_vote_verify_cache := invalid, nd_votes := votes\<rparr>)"
  have counts: "counts_ok C (world W p n) n" by (rule node_invD(2) [OF soundD(5) [OF s]])
  note G = check_vote_signature_ok [OF chk, of "nt_honest C" "\<lambda>q. cast_precommit (world W p n q)"]
  have G: "genuine (nt_honest C) (\<lambda>q. cast_precommit (world W p n q)) {k. fc_contains valid k}"
    "reason = None \<Longrightarrow> vote_validator_pubkey vote \<in> nt_honest C \<Longrightarrow>
      cast_precommit (world W p n (vote_validator_pubkey vote)) (vote_height vote) (vote_round vote) (vote_frontier_transition_id vote)"
    using G counts v unfolding counts_ok_def vote_genuine_def msg_def env by blast+
  have counted: "step_ok C W p env n n1" if "reason = None"
    by (rule counts_step [OF s, where a = votes and b = "nd_prevotes n" and c = valid and d = "nd_prevote_verify_cache n"])
       (use counts G that genuine_add [of _ _ "nd_votes n" vote] in \<open>simp_all add: counts_ok_def add n1_def\<close>, simp add: core_def)
  have n1: "nd_finalized_height n1 = nd_finalized_height n" by (auto simp: n1_def note_equivocation_def split: option.splits)
  show ?thesis
  proof (cases "vote_height vote = nd_finalized_height n + 1")
    case False
    obtain b n2 where late: "record_late_finalized_vote env vote n = (b, n2)" by fastforce
    have "n' = n \<or> n' = n2"
      using res False unfolding handle_vote_section_def late
      by (cases "vote_height vote = nd_finalized_height n"; cases b) (auto split: if_splits)
    then show ?thesis using quiet record_late_core [of env vote n] late by auto
  next
    case h: True
    define refused where "refused \<longleftrightarrow> from_network \<and> \<not> en_running env \<or> vote_round vote > nd_current_round n
      \<or> \<not> is_committee_member_for env n (vote_validator_pubkey vote) (vote_height vote) (vote_round vote) \<or> from_network \<and> \<not> en_rate_ok env"
    note res' = res [unfolded handle_vote_section_def env msg_def [symmetric] chk add prod.case Let_def n1_def [symmetric]]
    show ?thesis
    proof (cases refused)
      case True
      then have "n' = n" using res' h by (auto simp: refused_def split: if_splits)
      then show ?thesis using quiet by simp
    next
      case ok: False
      show ?thesis
      proof (cases reason)
        case (Some e)
        then have n': "n' = n\<lparr>nd_vote_verify_cache := valid, nd_invalid_vote_verify_cache := invalid\<rparr>"
          using res' h ok by (auto simp: refused_def split: if_splits)
        show ?thesis
          by (rule counts_step [OF s, where a = "nd_votes n" and b = "nd_prevotes n" and c = valid and d = "nd_prevote_verify_cache n"])
             (use counts G in \<open>simp_all add: counts_ok_def n' core_def\<close>)
      next
        case None
        then have "n' = n1 \<or> n' = snd (finalize_if_quorum env (vote_frontier_transition_id vote) (vote_height vote) (vote_round vote) n1)"
          using res' h ok by (auto simp: refused_def split: if_splits)
        moreover have "step_ok C W p env n (snd (finalize_if_quorum env (vote_frontier_transition_id vote) (vote_height vote) (vote_round vote) n1))"
          by (rule step_ok_trans [OF counted [OF None]], rule finalize_if_quorum_ok [THEN conjunct1, OF step_ok_sound [OF counted [OF None]]])
             (use h fin n1 in simp_all)
        ultimately show ?thesis using counted [OF None] by blast
      qed
    qed
  qed
qed

lemma handle_prevote_section_ok:
  assumes s: "sound C W p env n" and fin: "nd_finalized_height n < - 2" and v: "prevote_genuine C (world W p n) vote"
    and res: "handle_prevote_section env vote from_network n = (out, relay, precommit, n')"
  shows "step_ok C W p env n n' \<and> (\<forall>x. precommit = Some x \<longrightarrow> vote_cast p n' x)"
proof -
  have env: "en_verify env = nt_verify C" "en_sha256d env = nt_sha256d C" "en_domain env = nt_domain C"
    using soundD(1) [OF s] by (simp_all add: env_of_def)
  define msg where "msg = prevote_signing_message (nt_sha256d C) (nt_domain C) (vote_height vote) (vote_round vote) (vote_frontier_transition_id vote)"
  obtain reason valid invalid where chk: "check_vote_signature env msg vote (nd_prevote_verify_cache n) (nd_invalid_prevote_verify_cache n)
      = (reason, valid, invalid)" by (metis prod_cases3)
  obtain tr votes where add: "vt_add_vote vote (nd_prevotes n) = (tr, votes)" by fastforce
  define n1 where "n1 = note_equivocation Prevote tr vote
      (n\<lparr>nd_prevote_verify_cache := valid, nd_invalid_prevote_verify_cache := invalid, nd_prevotes := votes\<rparr>)"
  have counts: "counts_ok C (world W p n) n" by (rule node_invD(2) [OF soundD(5) [OF s]])
  note G = check_vote_signature_ok [OF chk, of "nt_honest C" "\<lambda>q. cast_prevote (world W p n q)"]
  have G: "genuine (nt_honest C) (\<lambda>q. cast_prevote (world W p n q)) {k. fc_contains valid k}"
    "reason = None \<Longrightarrow> vote_validator_pubkey vote \<in> nt_honest C \<Longrightarrow>
      cast_prevote (world W p n (vote_validator_pubkey vote)) (vote_height vote) (vote_round vote) (vote_frontier_transition_id vote)"
    using G counts v unfolding counts_ok_def prevote_genuine_def msg_def env by blast+
  have counted: "step_ok C W p env n n1" if "reason = None"
    by (rule counts_step [OF s, where a = "nd_votes n" and b = votes and c = "nd_vote_verify_cache n" and d = valid])
       (use counts G that genuine_add [of _ _ "nd_prevotes n" vote] in \<open>simp_all add: counts_ok_def add n1_def\<close>, simp add: core_def)
  have n1: "nd_finalized_height n1 = nd_finalized_height n" by (auto simp: n1_def note_equivocation_def split: option.splits)
  define refused where "refused \<longleftrightarrow> from_network \<and> \<not> en_running env \<or> vote_height vote \<noteq> nd_finalized_height n + 1
    \<or> vote_round vote > nd_current_round n
    \<or> \<not> is_committee_member_for env n (vote_validator_pubkey vote) (vote_height vote) (vote_round vote) \<or> from_network \<and> \<not> en_rate_ok env"
  note res' = res [unfolded handle_prevote_section_def env msg_def [symmetric] chk add prod.case Let_def n1_def [symmetric]]
  show ?thesis
  proof (cases refused)
    case True
    then have "n' = n" "precommit = None" using res' by (auto simp: refused_def split: if_splits)
    then show ?thesis using step_ok_refl [OF s] by simp
  next
    case ok: False
    show ?thesis
    proof (cases reason)
      case (Some e)
      then have n': "n' = n\<lparr>nd_prevote_verify_cache := valid, nd_invalid_prevote_verify_cache := invalid\<rparr>" and none: "precommit = None"
        using res' ok by (auto simp: refused_def split: if_splits)
      have "step_ok C W p env n n'"
        by (rule counts_step [OF s, where a = "nd_votes n" and b = "nd_prevotes n" and c = "nd_vote_verify_cache n" and d = valid])
           (use counts G in \<open>simp_all add: counts_ok_def n' core_def\<close>)
      then show ?thesis using none by simp
    next
      case None
      obtain v2 n2 where chg: "on_prevotes_changed env (vote_frontier_transition_id vote) (vote_height vote) (vote_round vote) n1 = (v2, n2)"
        by fastforce
      have "n' = n1 \<and> precommit = None \<or> n' = n2 \<and> precommit = v2"
        using res' None ok chg by (auto simp: refused_def split: if_splits)
      moreover have h1: "vote_height vote = nd_finalized_height n1 + 1" "nd_finalized_height n1 < - 2"
        using ok fin n1 by (auto simp: refused_def)
      note P = on_prevotes_changed_ok [OF step_ok_sound [OF counted [OF None]] h1 chg]
      ultimately show ?thesis using counted [OF None] step_ok_trans [OF counted [OF None]] P by auto
    qed
  qed
qed

subsection \<open>Rounds and timeouts\<close>

lemma catch_up_core [simp]: "core (maybe_catch_up_round_from_timeout_votes env h n) = core n"
  by (auto simp: maybe_catch_up_round_from_timeout_votes_def core_def Let_def split: option.splits)

lemma record_tc_core [simp]: "core (maybe_record_timeout_certificate env h r n) = core n"
  by (auto simp: maybe_record_timeout_certificate_def core_def Let_def split: sum.splits)

lemma handle_timeout_vote_core:
  "handle_timeout_vote_section env vote from_network n = (out, relay, n') \<Longrightarrow> core n' = core n"
proof -
  obtain tr timeouts where "tt_add_vote vote (nd_timeout_votes n) = (tr, timeouts)" by fastforce
  then have "core (snd (snd (handle_timeout_vote_section env vote from_network n))) = core n"
    unfolding handle_timeout_vote_section_def Let_def by (simp add: core_def [of "n\<lparr>nd_timeout_votes := x\<rparr>" for x] core_def [of n]
        core_def [of "n\<lparr>nd_seen_timeout_votes := x\<rparr>" for x] core_def [of "n\<lparr>nd_seen_timeout_votes := x, nd_timeout_votes := y\<rparr>" for x y])
  then show "handle_timeout_vote_section env vote from_network n = (out, relay, n') \<Longrightarrow> core n' = core n" by simp
qed

lemma round_timeout_core: "core (snd (round_timeout env advance_alone n)) = core n"
  by (simp add: round_timeout_def core_def Let_def)

lemma prune_caches_core [simp]: "core (prune_caches env h r n) = core n"
  by (simp add: prune_caches_def core_def)

subsection \<open>Proposals\<close>

definition prevote_cast :: "pubkey32 \<Rightarrow> Node \<Rightarrow> Vote \<Rightarrow> bool" where
  "prevote_cast p n v \<longleftrightarrow> vote_validator_pubkey v = p \<and> cast_prevote (own_log n) (vote_height v) (vote_round v) (vote_frontier_transition_id v)"

lemma defer_certified_vote_core [simp]: "core (defer_certified_vote tid msg peer n) = core n"
  by (simp add: defer_certified_vote_def core_def Let_def)

lemma vote_on_candidate_ok:
  assumes s: "sound C W p env n" and fin: "nd_finalized_height n < - 2" and h: "pm_height msg = nd_finalized_height n + 1"
    and tid: "tid = transition_id (nt_sha256d C) (fpr_transition q)"
    and pol: "\<And>qc. pm_pol msg = Some qc \<Longrightarrow> qc_round qc < pm_round msg
      \<and> polka C (world W p n) (nd_finalized_id n) (pm_height msg) (qc_round qc) tid"
    and res: "vote_on_candidate env msg q peer n = (out, v, n')"
  shows "step_ok C W p env n n' \<and> (\<forall>x. v = Some x \<longrightarrow> prevote_cast p n' x)"
proof -
  let ?h = "pm_height msg" and ?r = "pm_round msg"
  have env: "en_sha256d env = nt_sha256d C" "en_domain env = nt_domain C" "en_pub env = p"
    using soundD(1) [OF s] by (simp_all add: env_of_def)
  define can where "can \<longleftrightarrow> is_committee_member_for env n p ?h ?r \<and> map_of (nd_local_prevotes n) (?h, ?r) = None
    \<and> map_of (nd_local_timed_out_rounds n) (?h, ?r) = None \<and> \<not> ?r < local_vote_round_floor n ?h
    \<and> \<not> ft_timestamp (fpr_transition q) > en_now_unix env + kMaxTransitionTimestampDriftS
    \<and> can_prevote n ?h tid (map_option qc_round (pm_pol msg))"
  obtain ok n2 where rec: "record_local_prevote ?h ?r tid n = (ok, n2)" by fastforce
  note res' = res [unfolded vote_on_candidate_def Let_def env, folded tid, folded can_def, unfolded rec]
  consider (quiet) "v = None" "core n' = core n"
    | (sign) sig where "can" "sign_consensus env n (prevote_signing_message (nt_sha256d C) (nt_domain C) ?h ?r tid) = Some sig"
        "n' = n2" "v = (if ok then Some (own_vote env ?h ?r tid sig) else None)"
  proof (cases "can \<and> en_ingress_status env (nd_finalized_id n) q = Ready")
    case False
    then have "v = None \<and> core n' = core n" using res' by (auto split: if_splits CertifiedIngressStatus.splits)
    then show ?thesis using quiet by blast
  next
    case True
    show ?thesis
      by (cases "sign_consensus env n (prevote_signing_message (nt_sha256d C) (nt_domain C) ?h ?r tid)"; cases ok)
         (use True res' quiet sign in simp_all)
  qed
  then show ?thesis
  proof cases
    case quiet
    then show ?thesis using step_ok_core [OF s] by simp
  next
    case sign
    have member: "p \<in> set (comm C (nd_finalized_id n) ?h)"
      using sign(1) committee_next(1) [OF soundD(1) [OF s] h, of ?r] by (simp add: can_def is_committee_member_for_def)
    have voting: "?h \<notin> nd_abstain_heights n" and lock: "\<And>tid' r0. map_of (nd_local_vote_locks n) ?h = Some (tid', r0) \<Longrightarrow> tid' \<noteq> tid \<Longrightarrow>
        \<exists>qc. pm_pol msg = Some qc \<and> r0 \<le> qc_round qc"
      using sign(1) unfolding can_def can_prevote_def abstaining_at_height_def by (auto split: if_splits option.splits)
    have "step_ok C W p env n n2 \<and> (ok \<longrightarrow> cast_prevote (own_log n2) ?h ?r tid)"
    proof (rule record_local_prevote_ok [OF s sign_live [OF sign(2)] h fin voting _ member _ _ rec])
      fix tid' r0 assume "map_of (nd_local_vote_locks n) ?h = Some (tid', r0)" "tid' \<noteq> tid"
      from lock [OF this] pol show "\<exists>pr\<ge>r0. pr < ?r \<and> polka C (world W p n) (nd_finalized_id n) ?h pr tid" by blast
    qed (use sign(1) in \<open>auto simp: can_def\<close>)
    then show ?thesis using sign(3,4) env by (auto simp: prevote_cast_def own_vote_def split: if_splits)
  qed
qed

lemma check_propose_inv:
  assumes "check_propose env msg from_network n = Inr (q, pol)"
  shows "pm_height msg = nd_finalized_height n + 1" and "ft_height (fpr_transition q) = pm_height msg"
    and "pm_pol msg = None \<Longrightarrow> pol = []"
    and "pm_pol msg = Some qc \<Longrightarrow> verify_polka env n qc False = Inr pol \<and> qc_height qc = pm_height msg
      \<and> qc_frontier_transition_id qc = transition_id (en_sha256d env) (fpr_transition q) \<and> qc_round qc < pm_round msg"
proof -
  let ?tid = "transition_id (en_sha256d env) (fpr_transition q)"
  have top: "pm_height msg = nd_finalized_height n + 1 \<and> ft_height (fpr_transition q) = pm_height msg
      \<and> (case map_option qc_round (pm_pol msg) of Some pol \<Rightarrow> pol < pm_round msg | None \<Rightarrow> True)
      \<and> check_justification env msg ?tid n = Inr pol"
    using assms unfolding check_propose_def Let_def
    by (auto simp: map_sum_def split: if_splits option.splits sum.splits)
  then show "pm_height msg = nd_finalized_height n + 1" "ft_height (fpr_transition q) = pm_height msg" by blast+
  have just: "check_justification env msg ?tid n = Inr pol" using top by blast
  show "pm_pol msg = None \<Longrightarrow> pol = []"
    using just unfolding check_justification_def Let_def by (auto split: if_splits option.splits sum.splits)
  assume qc: "pm_pol msg = Some qc"
  then have "verify_polka env n qc False = Inr pol \<and> qc_height qc = pm_height msg \<and> qc_frontier_transition_id qc = ?tid"
    using just unfolding check_justification_def Let_def qc by (auto split: if_splits option.splits sum.splits)
  then show "verify_polka env n qc False = Inr pol \<and> qc_height qc = pm_height msg
      \<and> qc_frontier_transition_id qc = ?tid \<and> qc_round qc < pm_round msg" using top qc by simp
qed

lemma candidate_ok:
  assumes s: "sound C W p env n" and tid: "tid = transition_id (nt_sha256d C) (fpr_transition q)"
    and core: "core n' = core (n\<lparr>nd_candidates := omap_upd tid q (nd_candidates n)\<rparr>)"
  shows "step_ok C W p env n n'"
proof -
  let ?n = "n\<lparr>nd_candidates := omap_upd tid q (nd_candidates n)\<rparr>"
  have "memory_ok C p ?n" using node_invD(3) [OF soundD(5) [OF s]] tid by (auto simp: memory_ok_def own_log_def)
  then have "node_inv C W p ?n"
    using soundD(5) [OF s]
    by (simp add: node_inv_def node_pre_def counts_ok_def synced_def memory_covers_def consensus_safety_state_def own_log_def world_def
        safety_storage_failed_def)
  then have "step_ok C W p env n ?n" by (rule step_okI [OF s]) (simp add: own_log_def)
  then show ?thesis by (rule step_ok_core_after) (rule core)
qed

lemma genuine_fold:
  assumes "genuine H cast (tracked t)"
    and "\<And>s. s \<in> set sigs \<Longrightarrow> fs_validator_pubkey s \<in> H \<Longrightarrow> cast (fs_validator_pubkey s) h r tid"
  shows "genuine H cast (tracked (foldl (\<lambda>t s. snd (vt_add_vote \<lparr>vote_height = h, vote_round = r,
      vote_frontier_transition_id = tid, vote_validator_pubkey = fs_validator_pubkey s, vote_signature = fs_signature s\<rparr> t)) t sigs))"
  using assms
proof (induction sigs arbitrary: t)
  case (Cons s sigs)
  show ?case
    unfolding foldl.simps by (rule Cons.IH, rule genuine_add) (use Cons.prems in simp_all)
qed simp

lemma store_candidate_ok:
  assumes s: "sound C W p env n" and tid: "tid = transition_id (nt_sha256d C) (fpr_transition q)"
    and pol: "\<And>s'. s' \<in> set pol \<Longrightarrow> fs_validator_pubkey s' \<in> nt_honest C \<Longrightarrow>
      cast_prevote (world W p n (fs_validator_pubkey s')) (pm_height msg) (case pm_pol msg of None \<Rightarrow> 0 | Some qc \<Rightarrow> qc_round qc) tid"
    and res: "store_candidate env msg q pol n = out" and n': "n' = (case out of Inl (e, n') \<Rightarrow> n' | Inr n' \<Rightarrow> n')"
  shows "step_ok C W p env n n' \<and> tip n' = tip n"
proof -
  have sha: "en_sha256d env = nt_sha256d C" using soundD(1) [OF s] by (simp add: env_of_def)
  define t where "t = foldl (\<lambda>t s. snd (vt_add_vote \<lparr>vote_height = pm_height msg,
      vote_round = (case pm_pol msg of None \<Rightarrow> 0 | Some qc \<Rightarrow> qc_round qc), vote_frontier_transition_id = tid,
      vote_validator_pubkey = fs_validator_pubkey s, vote_signature = fs_signature s\<rparr> t)) (nd_prevotes n) pol"
  define n1 where "n1 = n\<lparr>nd_candidates := omap_upd tid q (nd_candidates n)\<rparr>"
  have step1: "step_ok C W p env n n1" by (rule candidate_ok [OF s tid]) (simp add: n1_def)
  have counts: "counts_ok C (world W p n) n" by (rule node_invD(2) [OF soundD(5) [OF s]])
  have world1: "world W p n1 = world W p n" by (simp add: world_def own_log_def n1_def)
  have "genuine (nt_honest C) (\<lambda>q. cast_prevote (world W p n q)) (tracked t)"
    unfolding t_def by (rule genuine_fold) (use counts pol in \<open>simp_all add: counts_ok_def\<close>)
  then have c: "counts_ok C (world W p n1) (n1\<lparr>nd_votes := nd_votes n, nd_prevotes := t,
      nd_vote_verify_cache := nd_vote_verify_cache n, nd_prevote_verify_cache := nd_prevote_verify_cache n\<rparr>)"
    using counts by (simp add: counts_ok_def world1)
  consider (full) "core n' = core n" | (stored) "core n' = core (n1\<lparr>nd_prevotes := t\<rparr>)"
  proof (cases out)
    case (Inl e)
    then have "core n' = core n"
      using res n' unfolding store_candidate_def Let_def by (auto simp: core_def split: if_splits)
    then show ?thesis by (rule full)
  next
    case (Inr m)
    define m0 where "m0 = (if pm_round msg > nd_current_round n then n\<lparr>nd_current_round := pm_round msg\<rparr> else n)"
    define m1 where "m1 = (if map_of (nd_candidates m0) tid = None
      then m0\<lparr>nd_candidate_block_sizes := omap_upd tid (length (pm_frontier_proposal_bytes msg)) (nd_candidate_block_sizes m0)\<rparr> else m0)"
    have m1: "core m1 = core n" by (simp add: m1_def m0_def core_def)
    have "Inr (prune_caches env (pm_height msg) (pm_round msg) (m1\<lparr>nd_candidates := omap_upd tid q (nd_candidates m1),
        nd_prevotes := foldl (\<lambda>t s. snd (vt_add_vote \<lparr>vote_height = pm_height msg,
          vote_round = (case pm_pol msg of None \<Rightarrow> 0 | Some qc \<Rightarrow> qc_round qc), vote_frontier_transition_id = tid,
          vote_validator_pubkey = fs_validator_pubkey s, vote_signature = fs_signature s\<rparr> t))
          (nd_prevotes (m1\<lparr>nd_candidates := omap_upd tid q (nd_candidates m1)\<rparr>)) pol\<rparr>)) = out"
      using res Inr
      unfolding store_candidate_def Let_def sha tid [symmetric] m0_def [symmetric] m1_def [symmetric] by (simp split: if_splits)
    then have "m = prune_caches env (pm_height msg) (pm_round msg) (m1\<lparr>nd_candidates := omap_upd tid q (nd_candidates m1), nd_prevotes := t\<rparr>)"
      using Inr m1 by (simp add: t_def core_def)
    then have "core m = core (n1\<lparr>nd_prevotes := t\<rparr>)" using m1 by (simp add: n1_def) (simp add: core_def)
    then show ?thesis using stored Inr n' by simp
  qed
  then show ?thesis
  proof cases
    case full
    then show ?thesis using step_ok_core [OF s] by (simp add: core_def)
  next
    case stored
    have "step_ok C W p env n1 n'" by (rule counts_step [OF step_ok_sound [OF step1] c]) (subst stored, simp add: n1_def core_def)
    then show ?thesis using step_ok_trans [OF step1] stored by (simp add: core_def n1_def)
  qed
qed

definition polka_genuine :: "Net \<Rightarrow> (pubkey32 \<Rightarrow> disk_log) \<Rightarrow> QuorumCertificate \<Rightarrow> bool" where
  "polka_genuine C V qc \<longleftrightarrow> (\<forall>s \<in> set (qc_signatures qc). fs_validator_pubkey s \<in> nt_honest C \<longrightarrow>
     nt_verify C (prevote_signing_message (nt_sha256d C) (nt_domain C) (qc_height qc) (qc_round qc) (qc_frontier_transition_id qc))
       (fs_signature s) (fs_validator_pubkey s) \<longrightarrow>
     cast_prevote (V (fs_validator_pubkey s)) (qc_height qc) (qc_round qc) (qc_frontier_transition_id qc))"

lemma handle_propose_section_ok:
  assumes s: "sound C W p env n" and fin: "nd_finalized_height n < - 2"
    and gen: "\<And>qc. pm_pol msg = Some qc \<Longrightarrow> polka_genuine C (world W p n) qc"
    and res: "handle_propose_section env msg from_network peer n = Some (out, v, n')"
  shows "step_ok C W p env n n' \<and> (\<forall>x. v = Some x \<longrightarrow> prevote_cast p n' x)"
proof -
  have sha: "en_sha256d env = nt_sha256d C" using soundD(1) [OF s] by (simp add: env_of_def)
  note res' = res [unfolded handle_propose_section_def]
  show ?thesis
  proof (cases "\<not> (from_network \<and> \<not> en_running env) \<and> \<not> isl (check_propose env msg from_network n)")
    case False
    then have "v = None" "n' = n" using res' by (auto split: if_splits sum.splits)
    then show ?thesis using step_ok_refl [OF s] by simp
  next
    case True
    then obtain q pol where chk: "check_propose env msg from_network n = Inr (q, pol)"
      by (cases "check_propose env msg from_network n") auto
    define tid where "tid = transition_id (nt_sha256d C) (fpr_transition q)"
    note inv = check_propose_inv [OF chk, unfolded sha, folded tid_def]
    have pk: "qc_round qc < pm_round msg \<and> polka C (world W p n) (nd_finalized_id n) (pm_height msg) (qc_round qc) tid"
      and cast: "\<And>s'. s' \<in> set pol \<Longrightarrow> fs_validator_pubkey s' \<in> nt_honest C \<Longrightarrow>
        cast_prevote (world W p n (fs_validator_pubkey s')) (pm_height msg) (qc_round qc) tid"
      if "pm_pol msg = Some qc" for qc
    proof -
      note I = inv(4) [OF that]
      have h: "qc_height qc = nd_finalized_height n + 1" using I inv(1) by simp
      note R = received_polka [OF s h I [THEN conjunct1]]
      show "qc_round qc < pm_round msg \<and> polka C (world W p n) (nd_finalized_id n) (pm_height msg) (qc_round qc) tid"
        using R(1) gen [OF that] I unfolding polka_genuine_def by simp
      show "cast_prevote (world W p n (fs_validator_pubkey s')) (pm_height msg) (qc_round qc) tid"
        if "s' \<in> set pol" "fs_validator_pubkey s' \<in> nt_honest C" for s'
        using R(2) [OF _ that] gen [OF \<open>pm_pol msg = Some qc\<close>] I unfolding polka_genuine_def by simp
    qed
    obtain out1 where st: "store_candidate env msg q pol n = out1" by blast
    define n1 where "n1 = (case out1 of Inl (e, n') \<Rightarrow> n' | Inr n' \<Rightarrow> n')"
    have S: "step_ok C W p env n n1 \<and> tip n1 = tip n"
      by (rule store_candidate_ok [OF s tid_def _ st n1_def]) (use cast inv(3) in \<open>auto split: option.splits\<close>)
    show ?thesis
    proof (cases out1)
      case (Inl e)
      then have "v = None" "n' = n1" using res' chk st True n1_def by (auto split: prod.splits)
      then show ?thesis using S by simp
    next
      case (Inr m)
      then have m: "m = n1" by (simp add: n1_def)
      from res' chk st True Inr obtain n2 where body: "on_candidate_body env (fpr_transition q) n1 = Some n2"
        and rest: "(if nd_finalized_height n2 \<ge> pm_height msg then (Accepted, None, n2) else vote_on_candidate env msg q peer n2) = (out, v, n')"
        unfolding m by (auto split: option.splits if_splits)
      have B: "step_ok C W p env n1 n2 \<and> (tip n2 = tip n1 \<or> ft_height (fpr_transition q) \<le> nd_finalized_height n2)"
        by (rule on_candidate_body_ok [OF step_ok_sound _ body]) (use S fin in auto)
      have step2: "step_ok C W p env n n2" using S B step_ok_trans by blast
      show ?thesis
      proof (cases "nd_finalized_height n2 \<ge> pm_height msg")
        case True
        then show ?thesis using rest step2 by simp
      next
        case False
        then have tip2: "tip n2 = tip n" using B S inv(2) by auto
        have "step_ok C W p env n2 n' \<and> (\<forall>x. v = Some x \<longrightarrow> prevote_cast p n' x)"
        proof (rule vote_on_candidate_ok [OF step_ok_sound [OF step2] _ _ tid_def])
          fix qc assume "pm_pol msg = Some qc"
          from pk [OF this] show "qc_round qc < pm_round msg \<and> polka C (world W p n2) (nd_finalized_id n2) (pm_height msg) (qc_round qc) tid"
            using polka_mono [where V = "world W p n" and V' = "world W p n2", OF _ step_ok_world [OF step2]] tip2 by auto
        qed (use tip2 fin inv(1) rest False in auto)
        then show ?thesis using step_ok_trans [OF step2] by blast
      qed
    qed
  qed
qed

lemma build_proposal_ok:
  assumes s: "sound C W p env n" and res: "build_proposal env h r built n = (out, n')"
  shows "step_ok C W p env n n'"
proof -
  have sha: "en_sha256d env = nt_sha256d C" using soundD(1) [OF s] by (simp add: env_of_def)
  define chosen where "chosen = (case (case (case map_of (nd_valid_polka_by_height n) h of None \<Rightarrow> None
        | Some q \<Rightarrow> if qc_round q < r then Some q else None) of None \<Rightarrow> None
      | Some q \<Rightarrow> map_option (\<lambda>p. (p, q)) (map_of (nd_candidates n) (qc_frontier_transition_id q))) of
      None \<Rightarrow> map_option (\<lambda>p. (p, None)) built | Some (p, q) \<Rightarrow> Some (p, Some q))"
  note res' = res [unfolded build_proposal_def Let_def sha, folded chosen_def]
  have "n' = n \<or> (\<exists>q. core n' = core (n\<lparr>nd_candidates := omap_upd (transition_id (nt_sha256d C) (fpr_transition q)) q (nd_candidates n)\<rparr>))"
  proof (cases chosen)
    case None
    then show ?thesis using res' by simp
  next
    case (Some x)
    obtain q pol where x: "x = (q, pol)" by (cases x)
    show ?thesis
      by (cases "sign_consensus env n (propose_signing_message (nt_sha256d C) (en_domain env) h r
            (transition_id (nt_sha256d C) (fpr_transition q)) (map_option qc_round pol))")
         (use res' Some x in \<open>auto simp: core_def split: if_splits\<close>)
  qed
  then show ?thesis using step_ok_refl [OF s] candidate_ok [OF s refl] by blast
qed

lemma retry_core: "core (snd (retry_deferred_certified_votes local_tips n)) = core n"
  by (simp add: retry_deferred_certified_votes_def core_def Let_def)

subsection \<open>Blocks with a certificate\<close>

definition cert_genuine :: "Net \<Rightarrow> (pubkey32 \<Rightarrow> disk_log) \<Rightarrow> FinalityCertificate \<Rightarrow> bool" where
  "cert_genuine C V cert \<longleftrightarrow> (\<forall>s \<in> set (fc_signatures cert). fs_validator_pubkey s \<in> nt_honest C \<longrightarrow>
     nt_verify C (vote_signing_message (nt_sha256d C) (nt_domain C) (fc_height cert) (fc_round cert) (fc_frontier_transition_id cert))
       (fs_signature s) (fs_validator_pubkey s) \<longrightarrow>
     cast_precommit (V (fs_validator_pubkey s)) (fc_height cert) (fc_round cert) (fc_frontier_transition_id cert))"

lemma certificate_commit:
  assumes s: "sound C W p env n" and ok: "verify_finality_certificate_for_frontier env cert t = Inr canonical"
    and gen: "cert_genuine C (world W p n) cert" and members: "fc_committee_members cert = comm C par h"
    and h: "ft_height t = h"
  shows "commit C (world W p n) par h (fc_round cert) (transition_id (nt_sha256d C) t)"
proof -
  have env: "en_verify env = nt_verify C" "en_sha256d env = nt_sha256d C" "en_domain env = nt_domain C"
    using soundD(1) [OF s] by (simp_all add: env_of_def)
  define good where "good = (\<lambda>s' :: FinalitySig. nt_verify C (vote_signing_message (nt_sha256d C) (nt_domain C) (fc_height cert) (fc_round cert)
    (fc_frontier_transition_id cert)) (fs_signature s') (fs_validator_pubkey s'))"
  have facts: "fc_height cert = h" "fc_frontier_transition_id cert = transition_id (nt_sha256d C) t"
    and q: "quorum_threshold (length (comm C par h)) \<le> length (filter_sigs (comm C par h) good [] (fc_signatures cert))"
    using ok h unfolding verify_finality_certificate_for_frontier_def
    by (auto simp: Let_def env members good_def not_less split: if_splits)
  show ?thesis
    unfolding commit_def
    by (rule quorum_of_sigs [OF q]) (use gen in \<open>auto simp: cert_genuine_def good_def facts\<close>)
qed

lemma handle_frontier_block_ok:
  assumes s: "sound C W p env n" and fin: "nd_finalized_height n < - 2"
    and gen: "\<And>cert. certificate = Some cert \<Longrightarrow> cert_genuine C (world W p n) cert"
    and res: "handle_frontier_block env q certificate lanes_ok from_network n = Some (ok, n')"
  shows "step_ok C W p env n n'"
proof -
  have sha: "en_sha256d env = nt_sha256d C" using soundD(1) [OF s] by (simp add: env_of_def)
  let ?t = "fpr_transition q"
  note res' = res [unfolded handle_frontier_block_def Let_def sha]
  show ?thesis
  proof (cases certificate)
    case (Some cert)
    show ?thesis
    proof (cases "n' = n")
      case True
      then show ?thesis using step_ok_refl [OF s] by simp
    next
      case False
      let ?X = "canonical_committee env n (ft_height ?t) (fc_round cert)"
      from res' Some False obtain sigs where sigs: "verify_finality_certificate_for_frontier env cert ?t = Inr sigs"
        and ext: "record_extends_tip env n q" and members: "fc_committee_members cert = ?X"
        and app: "apply_finalized_frontier_effects env q (fc_round cert) sigs ?X n = (ok, n')"
        by (auto split: if_splits sum.splits)
      have h: "ft_height ?t = nd_finalized_height n + 1" using ext by (simp add: record_extends_tip_def)
      have "commit C (world W p n) (nd_finalized_id n) (nd_finalized_height n + 1) (fc_round cert) (transition_id (nt_sha256d C) ?t)"
        by (rule certificate_commit [OF s sigs gen [OF Some]]) (use members canonical_committee_any [OF soundD(1) [OF s]] h in simp_all)
      from apply_finalized_ok [OF s fin this app] show ?thesis by blast
    qed
  next
    case None
    define n1 where "n1 = n\<lparr>nd_candidates := omap_upd (transition_id (nt_sha256d C) ?t) q (nd_candidates n),
        nd_candidate_block_sizes := omap_upd (transition_id (nt_sha256d C) ?t) (length (fpr_serialize q)) (nd_candidate_block_sizes n)\<rparr>"
    have step1: "step_ok C W p env n n1" by (rule candidate_ok [OF s refl]) (simp add: n1_def core_def)
    have "n' = n \<or> on_candidate_body env ?t n1 = Some n'"
      using res' None by (auto simp: n1_def split: if_splits)
    moreover have "step_ok C W p env n n'" if "on_candidate_body env ?t n1 = Some n'"
      using on_candidate_body_ok [OF step_ok_sound [OF step1] _ that] fin step_ok_trans [OF step1] by (simp add: n1_def)
    ultimately show ?thesis using step_ok_refl [OF s] by blast
  qed
qed

subsection \<open>Sending again\<close>

lemma flush_pending_ok:
  assumes s: "sound C W p env n" and res: "flush_pending n = (votes, blocks, n')"
  shows "step_ok C W p env n n' \<and> (\<forall>v \<in> set votes. vote_cast p n' v)"
proof -
  have n': "n' = n\<lparr>nd_pending_local_precommits := [], nd_pending_finalized := []\<rparr>"
    and votes: "set votes \<subseteq> set (nd_pending_local_precommits n)"
    using res by (auto simp: flush_pending_def split: if_splits)
  have mem: "memory_ok C p n" by (rule node_invD(3) [OF soundD(5) [OF s]])
  have "memory_ok C p n'" using mem by (simp add: memory_ok_def own_log_def n')
  then have "node_inv C W p n'"
    using soundD(5) [OF s]
    by (simp add: node_inv_def node_pre_def counts_ok_def synced_def memory_covers_def consensus_safety_state_def own_log_def world_def
        safety_storage_failed_def n')
  then have "step_ok C W p env n n'" by (rule step_okI [OF s]) (simp add: own_log_def n')
  then show ?thesis using memory_okD(4) [OF mem] votes by (auto simp: vote_cast_def own_log_def n')
qed

end
