(* ===== verification/Node_Restart.thy ===== *)
theory Node_Restart
  imports Node_Steps
begin

text \<open>
  A node that forgets its round state, sends its votes again, crashes and starts from its disk: its own
  votes are found again, or the node abstains at the height whose record is lost.
\<close>

subsection \<open>The node's own votes, counted and sent again\<close>

lemma own_prevotes_cast:
  assumes "memory_ok C p n" and "(r, tid) \<in> set (prevotes_at (nd_local_prevotes n) h)"
  shows "cast_prevote (own_log n) h r tid"
proof -
  note mem = memory_okD [OF assms(1)]
  have "map_of (prevotes_at (nd_local_prevotes n) h) r = Some tid"
    using assms(2) omap_in_set [OF omap_ok_prevotes_at [OF mem(1)]] by blast
  then show ?thesis using mem(2) by (simp add: map_of_prevotes_at [OF mem(1)])
qed

lemma reseed_prevotes_ok:
  assumes "sound C W p env n" and "\<And>r tid. (r, tid) \<in> set xs \<Longrightarrow> cast_prevote (own_log n) h r tid"
  shows "step_ok C W p env n (foldl (\<lambda>n (r, tid). case sign_prevote env n h r tid of None \<Rightarrow> n
      | Some v \<Rightarrow> n\<lparr>nd_prevotes := snd (vt_add_vote v (nd_prevotes n))\<rparr>) n xs)
    \<and> (\<exists>t. foldl (\<lambda>n (r, tid). case sign_prevote env n h r tid of None \<Rightarrow> n
      | Some v \<Rightarrow> n\<lparr>nd_prevotes := snd (vt_add_vote v (nd_prevotes n))\<rparr>) n xs = n\<lparr>nd_prevotes := t\<rparr>)"
  using assms
proof (induction xs arbitrary: n)
  case Nil
  have "n = n\<lparr>nd_prevotes := nd_prevotes n\<rparr>" by simp
  then show ?case using step_ok_refl [OF Nil(1)] by (auto intro: exI [of _ "nd_prevotes n"])
next
  case (Cons x xs)
  obtain r tid where x: "x = (r, tid)" by (cases x)
  define n1 where "n1 = (case sign_prevote env n h r tid of None \<Rightarrow> n | Some v \<Rightarrow> n\<lparr>nd_prevotes := snd (vt_add_vote v (nd_prevotes n))\<rparr>)"
  have pub: "en_pub env = p" using soundD(1) [OF Cons.prems(1)] by (simp add: env_of_def)
  have counts: "counts_ok C (world W p n) n" by (rule node_invD(2) [OF soundD(5) [OF Cons.prems(1)]])
  have step: "step_ok C W p env n n1"
  proof (cases "sign_prevote env n h r tid")
    case None
    then show ?thesis using step_ok_refl [OF Cons.prems(1)] by (simp add: n1_def)
  next
    case (Some v)
    have v: "v = own_vote env h r tid (vote_signature v)" using Some by (auto simp: sign_prevote_def own_vote_def)
    have "genuine (nt_honest C) (\<lambda>q. cast_prevote (world W p n q)) (tracked (snd (vt_add_vote v (nd_prevotes n))))"
      by (rule genuine_add) (use counts Cons.prems(2) [of r tid] in
          \<open>simp_all add: counts_ok_def x, subst (1 2 3 4) v, simp add: own_vote_def pub\<close>)
    then show ?thesis
      by (intro counts_step [OF Cons.prems(1), where a = "nd_votes n" and b = "snd (vt_add_vote v (nd_prevotes n))"
            and c = "nd_vote_verify_cache n" and d = "nd_prevote_verify_cache n"])
         (use counts in \<open>simp_all add: counts_ok_def n1_def Some core_def\<close>)
  qed
  have log: "own_log n1 = own_log n" and upd: "\<exists>t. n1 = n\<lparr>nd_prevotes := t\<rparr>"
    by (auto simp: n1_def own_log_def split: option.splits) (metis Node.surjective Node.update_convs(6))
  show ?case
    using Cons.IH [OF step_ok_sound [OF step]] Cons.prems(2) step_ok_trans [OF step] upd
    by (auto simp: x n1_def [symmetric] log)
qed

lemma count_own_precommit:
  assumes s: "sound C W p env n" and v: "sign_precommit env n h r tid = Some v" and c: "cast_precommit (own_log n) h r tid"
  shows "step_ok C W p env n (n\<lparr>nd_votes := snd (vt_add_vote v (nd_votes n)), nd_local_vote_reservations := R\<rparr>)"
proof -
  have pub: "en_pub env = p" using soundD(1) [OF s] by (simp add: env_of_def)
  have counts: "counts_ok C (world W p n) n" by (rule node_invD(2) [OF soundD(5) [OF s]])
  have fields: "vote_height v = h" "vote_round v = r" "vote_frontier_transition_id v = tid" "vote_validator_pubkey v = p"
    using v by (auto simp: sign_precommit_def own_vote_def pub)
  have "genuine (nt_honest C) (\<lambda>q. cast_precommit (world W p n q)) (tracked (snd (vt_add_vote v (nd_votes n))))"
    by (rule genuine_add) (use counts c in \<open>simp_all add: counts_ok_def fields\<close>)
  then show ?thesis
    by (intro counts_step [OF s, where a = "snd (vt_add_vote v (nd_votes n))" and b = "nd_prevotes n"
          and c = "nd_vote_verify_cache n" and d = "nd_prevote_verify_cache n"])
       (use counts in \<open>simp_all add: counts_ok_def core_def\<close>)
qed

lemma reseed_local_votes_ok:
  assumes s: "sound C W p env n"
  shows "step_ok C W p env n (reseed_local_votes env h n)"
proof (cases "safety_storage_failed n")
  case True
  then show ?thesis using step_ok_refl [OF s] by (simp add: reseed_local_votes_def)
next
  case False
  define n1 where "n1 = foldl (\<lambda>n (r, tid). case sign_prevote env n h r tid of None \<Rightarrow> n
      | Some v \<Rightarrow> n\<lparr>nd_prevotes := snd (vt_add_vote v (nd_prevotes n))\<rparr>) n (prevotes_at (nd_local_prevotes n) h)"
  have mem: "memory_ok C p n" by (rule node_invD(3) [OF soundD(5) [OF s]])
  from reseed_prevotes_ok [OF s, where h = h and xs = "prevotes_at (nd_local_prevotes n) h"] own_prevotes_cast [OF mem]
  have step: "step_ok C W p env n n1" and "\<exists>t. n1 = n\<lparr>nd_prevotes := t\<rparr>" unfolding n1_def by blast+
  then have log: "own_log n1 = own_log n" "nd_local_vote_locks n1 = nd_local_vote_locks n" by (auto simp: own_log_def)
  have eq: "reseed_local_votes env h n = (case map_of (nd_local_vote_locks n1) h of None \<Rightarrow> n1
      | Some (tid, round) \<Rightarrow> (case sign_precommit env n1 h round tid of None \<Rightarrow> n1
        | Some v \<Rightarrow> n1\<lparr>nd_votes := snd (vt_add_vote v (nd_votes n1)),
            nd_local_vote_reservations := insert (h, round) (nd_local_vote_reservations n1)\<rparr>))"
    using False by (simp add: reseed_local_votes_def n1_def [symmetric])
  show ?thesis
  proof (cases "map_of (nd_local_vote_locks n1) h")
    case None
    then show ?thesis using step by (simp add: eq)
  next
    case (Some lock)
    obtain tid round where lock: "lock = (tid, round)" by (cases lock)
    show ?thesis
    proof (cases "sign_precommit env n1 h round tid")
      case None
      then show ?thesis using step Some lock by (simp add: eq)
    next
      case vote: (Some v)
      have "cast_precommit (own_log n1) h round tid" using memory_okD(3) [OF mem] Some lock log by simp
      from step_ok_trans [OF step count_own_precommit [OF step_ok_sound [OF step] vote this]]
      show ?thesis using Some lock vote by (simp add: eq)
    qed
  qed
qed

lemma reset_round_state_ok:
  assumes s: "sound C W p env n"
  shows "step_ok C W p env n (reset_round_state env n)"
proof -
  define h where "h = nd_finalized_height n + 1"
  define n1 where "n1 = n\<lparr>nd_current_round := 0, nd_proposed_in_round := {}, nd_local_vote_reservations := {},
      nd_local_timeout_vote_reservations := {}, nd_votes := vt_clear_height h (nd_votes n),
      nd_prevotes := vt_clear_height h (nd_prevotes n), nd_timeout_votes := tt_clear_height h (nd_timeout_votes n)\<rparr>"
  have counts: "counts_ok C (world W p n) n" by (rule node_invD(2) [OF soundD(5) [OF s]])
  have step: "step_ok C W p env n n1"
    by (intro counts_step [OF s, where a = "vt_clear_height h (nd_votes n)" and b = "vt_clear_height h (nd_prevotes n)"
          and c = "nd_vote_verify_cache n" and d = "nd_prevote_verify_cache n"])
       (use counts genuine_subset [OF _ tracked_clear] in \<open>simp_all add: counts_ok_def core_def n1_def\<close>)
  have eq: "reset_round_state env n = (reseed_local_votes env h n1)\<lparr>nd_round_started_ms := en_now_ms env\<rparr>"
    by (simp add: reset_round_state_def h_def n1_def Let_def)
  show ?thesis
    unfolding eq
    by (rule step_ok_core_after [OF step_ok_trans [OF step reseed_local_votes_ok [OF step_ok_sound [OF step]]]])
       (simp add: core_def)
qed

lemma in_last_rounds: "x \<in> set (last_rounds k xs) \<Longrightarrow> x \<in> set xs"
  unfolding last_rounds_def by (rule in_set_dropD)

lemma in_votes_of_set:
  assumes "v \<in> set (votes_of_set h keep vs)"
  obtains s where "s \<in> set (vs_signatures vs)" and "keep (fs_validator_pubkey s)" and "vote_validator_pubkey v = fs_validator_pubkey s"
    and "vote_height v = h" and "vote_round v = vs_round vs" and "vote_frontier_transition_id v = vs_transition_id vs"
  using assms unfolding votes_of_set_def by auto

text \<open>Whatever the node sends again under its own key was cast.\<close>

lemma rebroadcast_ok:
  assumes s: "sound C W p env n"
  shows "v \<in> set (rb_prevotes (local_votes_for_rebroadcast env h n)) \<Longrightarrow> vote_validator_pubkey v = p \<Longrightarrow> prevote_cast p n v"
    and "v \<in> set (rb_precommits (local_votes_for_rebroadcast env h n)) \<Longrightarrow> vote_validator_pubkey v = p \<Longrightarrow> vote_cast p n v"
proof -
  have pub: "en_pub env = p" using soundD(1) [OF s] by (simp add: env_of_def)
  have mem: "memory_ok C p n" by (rule node_invD(3) [OF soundD(5) [OF s]])
  have counts: "genuine (nt_honest C) (\<lambda>q. cast_precommit (world W p n q)) (tracked (nd_votes n))"
    using node_invD(2) [OF soundD(5) [OF s]] by (simp add: counts_ok_def)
  define sets where "sets = vt_vote_sets_for_height (nd_votes n) h"
  define own where "own = concat (map (votes_of_set h (\<lambda>pub. pub = en_pub env)) sets)"
  have own: "vote_cast p n v" if "v \<in> set own"
  proof -
    from that obtain vs where vs: "vs \<in> set sets" "v \<in> set (votes_of_set h (\<lambda>pub. pub = en_pub env) vs)" by (auto simp: own_def)
    from vs(2) show ?thesis
    proof (rule in_votes_of_set)
      fix sg assume "sg \<in> set (vs_signatures vs)" "fs_validator_pubkey sg = en_pub env" "vote_validator_pubkey v = fs_validator_pubkey sg"
        and f: "vote_height v = h" "vote_round v = vs_round vs" "vote_frontier_transition_id v = vs_transition_id vs"
      then show ?thesis
        using genuineD [OF counts tracked_sets [OF vs(1) [unfolded sets_def]], of sg] soundD(4) [OF s] pub
        by (simp add: vote_cast_def)
    qed
  qed
  {
    assume v: "v \<in> set (rb_prevotes (local_votes_for_rebroadcast env h n))" "vote_validator_pubkey v = p"
    have "\<exists>r tid. (r, tid) \<in> set (prevotes_at (nd_local_prevotes n) h) \<and> sign_prevote env n h r tid = Some v"
      using v pub
      by (auto simp: local_votes_for_rebroadcast_def Let_def List.map_filter_def split: if_splits option.splits
          elim: in_votes_of_set dest!: in_last_rounds) blast
    then show "prevote_cast p n v"
      using own_prevotes_cast [OF mem] pub by (auto simp: prevote_cast_def sign_prevote_def own_vote_def)
  }
  {
    assume v: "v \<in> set (rb_precommits (local_votes_for_rebroadcast env h n))" "vote_validator_pubkey v = p"
    have live: "\<not> safety_storage_failed n" using v(1) by (auto simp: local_votes_for_rebroadcast_def)
    define lock where "lock = (case map_of (nd_local_vote_locks n) h of None \<Rightarrow> [] | Some (tid, round) \<Rightarrow>
        if round \<in> vote_round ` set own then [] else (case sign_precommit env n h round tid of None \<Rightarrow> [] | Some v \<Rightarrow> [v]))"
    define others where "others = (case foldl better_set None sets of None \<Rightarrow> []
        | Some b \<Rightarrow> votes_of_set h (\<lambda>pub. pub \<noteq> en_pub env) b)"
    have "rb_precommits (local_votes_for_rebroadcast env h n) = last_rounds kOwnPrecommitRounds own @ lock @ others"
      unfolding local_votes_for_rebroadcast_def Let_def lock_def others_def own_def sets_def using live by simp
    moreover have "v \<notin> set others"
      using v(2) pub by (auto simp: others_def split: option.splits elim: in_votes_of_set)
    ultimately have "v \<in> set own \<or> v \<in> set lock" using v(1) by (auto dest: in_last_rounds)
    moreover have "\<exists>tid r. map_of (nd_local_vote_locks n) h = Some (tid, r) \<and> sign_precommit env n h r tid = Some v" if "v \<in> set lock"
    proof (cases "map_of (nd_local_vote_locks n) h")
      case (Some l)
      obtain tid r where "l = (tid, r)" by (cases l)
      then show ?thesis using that Some by (cases "sign_precommit env n h r tid") (auto simp: lock_def split: if_splits)
    qed (use that in \<open>simp add: lock_def\<close>)
    ultimately consider "v \<in> set own" | tid r where "map_of (nd_local_vote_locks n) h = Some (tid, r)" "sign_precommit env n h r tid = Some v"
      by blast
    then show "vote_cast p n v"
      using own memory_okD(3) [OF mem] pub by cases (auto simp: vote_cast_def sign_precommit_def own_vote_def)
  }
qed

subsection \<open>Damage and quarantine\<close>

text \<open>Copies that get lost, and heights that get quarantined, leave a disk as trustworthy as before.\<close>

lemma disk_ok_weaken:
  assumes ok: "disk_ok d" and "dk_log d' = dk_log d" and "dk_finalized d' = dk_finalized d" and "dk_highwater d' = dk_highwater d"
    and quarantine: "\<And>h. fst (dk_finalized d) < h \<Longrightarrow> h \<in> dk_quarantine d \<Longrightarrow> h \<in> dk_quarantine d'"
    and sealed: "\<And>h st. sealed_row d' h st \<Longrightarrow> sealed_row d h st"
  shows "disk_ok d'"
  unfolding disk_ok_def assms(2-4)
proof (intro conjI allI impI)
  fix h st
  show "Safety_Row h st \<in> set (dk_log d)" if "sealed_row d' h st" using disk_okD(4) [OF ok sealed [OF that]] .
  show "row_covers (set (dk_log d)) h st" if "fst (dk_finalized d) < h" "h \<notin> dk_quarantine d'" "sealed_row d' h st"
    using disk_okD(5) [OF ok that(1) _ sealed [OF that(3)]] quarantine [OF that(1)] that(2) by blast
  show "h \<le> dk_highwater d" if "fst (dk_finalized d) < h" "h \<notin> dk_quarantine d'"
      "cast_prevote (set (dk_log d)) h r tid \<or> cast_precommit (set (dk_log d)) h r tid" for r tid
    using disk_okD(6) [OF ok that(1) _ that(3)] quarantine [OF that(1)] that(2) by blast
qed (use disk_okD(1-3) [OF ok] in blast)+

lemma only_next_height:
  assumes "disk_ok d" and "Safety_Row h st \<in> set (dk_log d)" and "fst (dk_finalized d) < h"
  shows "h = fst (dk_finalized d) + 1"
proof -
  have "h \<noteq> 0" "h - 1 \<le> fst (dk_finalized d)" using disk_okD(3) [OF assms(1,2)] by auto
  then have "unat h = unat (fst (dk_finalized d)) + 1"
    using assms(3) by (simp add: word_less_nat_alt word_le_nat_alt unat_minus_one)
  moreover have "fst (dk_finalized d) \<noteq> - 1"
    using assms(3) by auto
  ultimately show ?thesis using next_height(5) by (metis word_unat_eq_iff)
qed

lemma sealed_rows_less:
  "sealed_row (drop_row k d) h st \<Longrightarrow> sealed_row d h st"
  "sealed_row (quarantine_height k d) h st \<Longrightarrow> sealed_row d h st"
  by (auto simp: sealed_row_def drop_row_def quarantine_height_def split: if_splits)

text \<open>A write of the startup code that concerns no vote.\<close>

lemma write_or_stop_ok:
  assumes pre: "node_pre C W p n" and live: "\<not> safety_storage_failed n" and res: "write_or_stop batch n = (ok, n')"
    and batch: "\<And>fs. let d = (nd_disk n)\<lparr>dk_faults := fs\<rparr>; d' = batch d in disk_ok d' \<and> dk_log d' = dk_log d
      \<and> dk_finalized d' = dk_finalized d \<and> dk_quarantine d \<subseteq> dk_quarantine d' \<and> \<not> dk_fenced d'"
  shows "own_log n' = own_log n \<and> (\<exists>d. n' = n\<lparr>nd_disk := d\<rparr> \<and> dk_finalized d = dk_finalized (nd_disk n))
    \<and> (if ok then node_pre C W p n' \<and> \<not> safety_storage_failed n' \<and> (\<exists>fs. n' = n\<lparr>nd_disk := batch ((nd_disk n)\<lparr>dk_faults := fs\<rparr>)\<rparr>)
       else node_inv C W p n' \<and> safety_storage_failed n')"
proof -
  have flags: "\<not> dk_fenced (nd_disk n)" "\<not> nd_safety_storage_failed n" using live by (auto simp: safety_storage_failed_def)
  have same: "n\<lparr>nd_disk := d\<rparr> = n\<lparr>nd_disk := d, nd_safety_storage_failed := False\<rparr>" for d using flags by (cases n) simp
  have kept: "(nd_disk n)\<lparr>dk_faults := dk_faults (nd_disk n)\<rparr> = nd_disk n" by simp
  have laws: "vote_laws C (W(p := own_log n)) p" using node_preD(3) [OF pre] by (simp add: world_def)
  have stored: "node_pre C W p (n\<lparr>nd_disk := (batch ((nd_disk n)\<lparr>dk_faults := fs\<rparr>))\<lparr>dk_fenced := b\<rparr>\<rparr>)" for fs b
    by (subst same, rule node_pre_grow [OF pre _ _ _ _ _ live])
       (use batch [of fs] laws in \<open>simp_all add: Let_def own_log_def\<close>)
  have lost: "node_pre C W p (n\<lparr>nd_disk := (nd_disk n)\<lparr>dk_faults := fs, dk_fenced := True\<rparr>\<rparr>)" for fs
    by (subst same, rule node_pre_grow [OF pre _ _ _ _ _ live])
       (use node_preD(4) [OF pre] laws in \<open>simp_all add: own_log_def\<close>)
  have unfenced: "\<not> dk_fenced x \<Longrightarrow> x\<lparr>dk_fenced := False\<rparr> = x" for x :: Disk by (cases x) simp
  have fine: "node_pre C W p (n\<lparr>nd_disk := batch ((nd_disk n)\<lparr>dk_faults := fs\<rparr>)\<rparr>)" for fs
  proof -
    have "\<not> dk_fenced (batch ((nd_disk n)\<lparr>dk_faults := fs\<rparr>))" using batch [of fs] by (simp add: Let_def)
    from stored [where fs = fs and b = False, unfolded unfenced [OF this]] show ?thesis .
  qed
  have outcome: "(\<exists>fs. ok \<and> n' = n\<lparr>nd_disk := batch ((nd_disk n)\<lparr>dk_faults := fs\<rparr>)\<rparr>)
      \<or> (\<exists>fs. \<not> ok \<and> n' = n\<lparr>nd_disk := (batch ((nd_disk n)\<lparr>dk_faults := fs\<rparr>))\<lparr>dk_fenced := True\<rparr>\<rparr>)
      \<or> (\<exists>fs. \<not> ok \<and> n' = n\<lparr>nd_disk := (nd_disk n)\<lparr>dk_faults := fs, dk_fenced := True\<rparr>\<rparr>)"
  proof (cases "dk_faults (nd_disk n)")
    case Nil
    then have "ok \<and> n' = n\<lparr>nd_disk := batch ((nd_disk n)\<lparr>dk_faults := dk_faults (nd_disk n)\<rparr>)\<rparr>"
      unfolding kept using res flags by (simp add: write_or_stop_def write_batch_durable_def)
    then show ?thesis by blast
  qed (use res flags in \<open>auto simp: write_or_stop_def write_batch_durable_def split: write_outcome.splits\<close>)
  then show ?thesis
  proof (elim disjE exE conjE)
    fix fs assume "ok" and n': "n' = n\<lparr>nd_disk := batch ((nd_disk n)\<lparr>dk_faults := fs\<rparr>)\<rparr>"
    then show ?thesis
      using fine [of fs] batch [of fs] flags by (auto simp: own_log_def safety_storage_failed_def Let_def)
  next
    fix fs assume "\<not> ok" and "n' = n\<lparr>nd_disk := (batch ((nd_disk n)\<lparr>dk_faults := fs\<rparr>))\<lparr>dk_fenced := True\<rparr>\<rparr>"
    then show ?thesis
      using stored [where fs = fs and b = True] batch [of fs] by (auto simp: own_log_def safety_storage_failed_def node_inv_def Let_def)
  next
    fix fs assume "\<not> ok" and "n' = n\<lparr>nd_disk := (nd_disk n)\<lparr>dk_faults := fs, dk_fenced := True\<rparr>\<rparr>"
    then show ?thesis
      using lost [of fs] by (auto simp: own_log_def safety_storage_failed_def node_inv_def)
  qed
qed

subsection \<open>Startup\<close>

text \<open>
  While the rows are read: the heights in \<open>D\<close> are done, either quarantined or with every cast vote in
  memory again; nothing is in memory for the others.
\<close>

definition loading :: "Net \<Rightarrow> (pubkey32 \<Rightarrow> disk_log) \<Rightarrow> pubkey32 \<Rightarrow> u64 set \<Rightarrow> Node \<Rightarrow> bool" where
  "loading C W p D n \<longleftrightarrow> node_pre C W p n \<and> \<not> safety_storage_failed n
     \<and> (\<forall>h \<in> D. nd_finalized_height n < h \<longrightarrow> h \<in> dk_quarantine (nd_disk n) \<or> row_covers (own_log n) h (consensus_safety_state n h))
     \<and> (\<forall>h r. h \<notin> D \<longrightarrow> map_of (nd_local_vote_locks n) h = None \<and> map_of (nd_local_prevotes n) (h, r) = None)"

lemma loadingD:
  assumes "loading C W p D n"
  shows "node_pre C W p n" and "\<not> safety_storage_failed n"
    and "h \<in> D \<Longrightarrow> nd_finalized_height n < h \<Longrightarrow>
      h \<in> dk_quarantine (nd_disk n) \<or> row_covers (own_log n) h (consensus_safety_state n h)"
    and "h \<notin> D \<Longrightarrow> map_of (nd_local_vote_locks n) h = None"
    and "h \<notin> D \<Longrightarrow> map_of (nd_local_prevotes n) (h, r) = None"
    and "dk_finalized (nd_disk n) = (nd_finalized_height n, nd_finalized_id n)"
  using assms node_preD(5) [of C W p n] unfolding loading_def synced_def by auto

lemma parse_copy_sealed: "Option.bind (unseal_copy c m) parse_inner = Some st \<longleftrightarrow> c = Sealed st"
  by (cases c; cases m) auto

lemma readable_copy_sealed:
  assumes "readable_copy (map_of (dk_primary d) h) (map_of (dk_mirror d) h) = Some (st, m)"
  shows "sealed_row d h st"
  using assms
  by (cases "map_of (dk_primary d) h"; cases "map_of (dk_mirror d) h")
     (auto simp: readable_copy_def sealed_row_def Let_def parse_copy_sealed split: option.splits if_splits)

text \<open>A validator outside the committee of the next height has cast nothing there.\<close>

lemma outside_committee_no_casts:
  assumes env: "env_of C p env" and pre: "node_pre C W p n" and live: "\<not> safety_storage_failed n"
    and out: "outside_committee env n h"
  shows "\<not> cast_prevote (own_log n) h r tid \<and> \<not> cast_precommit (own_log n) h r tid"
proof (rule ccontr)
  assume "\<not> ?thesis"
  then have "cast_prevote (world W p n p) h r tid \<or> cast_precommit (world W p n p) h r tid" by auto
  from vote_lawsD(5) [OF node_preD(3) [OF pre] this] obtain par where
    par: "is_parent (own_log n) h par" "p \<in> set (comm C par h)" by auto
  have h: "h = nd_finalized_height n + 1" and member: "p \<notin> set (comm C (nd_finalized_id n) h)"
    using out env committee_next(1) [OF env] by (auto simp: outside_committee_def env_of_def)
  have "Finalized_Tip (nd_finalized_height n) (nd_finalized_id n) \<in> own_log n"
    using node_preD(5) [OF pre live] disk_okD(1) [OF node_preD(4) [OF pre]] by (simp add: synced_def own_log_def)
  then have "par = nd_finalized_id n"
    using vote_lawsD(6) [OF node_preD(3) [OF pre], of "nd_finalized_height n" par "nd_finalized_id n"] par(1) h by (simp add: is_parent_def)
  with par(2) member show False by simp
qed

lemma covers_nothing: "(\<And>r tid. \<not> cast_prevote L h r tid \<and> \<not> cast_precommit L h r tid) \<Longrightarrow> row_covers L h st"
  by (simp add: row_covers_def)

text \<open>A row that cannot be read.\<close>

lemma unreadable_row_ok:
  assumes env: "env_of C p env" and l: "loading C W p D n"
    and res: "(if outside_committee env n h then write_or_stop (drop_row h) n else write_or_stop (quarantine_height h) n) = (ok, n')"
  shows "own_log n' = own_log n \<and> tip n' = tip n
    \<and> (if ok then loading C W p (insert h D) n' else node_inv C W p n' \<and> safety_storage_failed n')"
proof -
  define batch where "batch = (if outside_committee env n h then drop_row h else quarantine_height h)"
  have res': "write_or_stop batch n = (ok, n')" using res by (simp add: batch_def split: if_splits)
  note pre = loadingD(1) [OF l] and live = loadingD(2) [OF l]
  have frame: "dk_log (batch d) = dk_log d" "dk_finalized (batch d) = dk_finalized d" "dk_highwater (batch d) = dk_highwater d"
    "dk_fenced (batch d) = dk_fenced d" "dk_quarantine d \<subseteq> dk_quarantine (batch d)" for d
    by (auto simp: batch_def drop_row_def quarantine_height_def)
  have less: "sealed_row (batch d) k st \<Longrightarrow> sealed_row d k st" for d k st
    using sealed_rows_less [of h d k st] by (simp add: batch_def split: if_splits)
  have "disk_ok (batch ((nd_disk n)\<lparr>dk_faults := fs\<rparr>))" for fs
  proof (rule disk_ok_weaken [OF _ frame(1-3)])
    show "disk_ok ((nd_disk n)\<lparr>dk_faults := fs\<rparr>)" using node_preD(4) [OF pre] by simp
  qed (use frame(5) less in blast)+
  then have W: "own_log n' = own_log n" "\<exists>d. n' = n\<lparr>nd_disk := d\<rparr>"
    "if ok then node_pre C W p n' \<and> \<not> safety_storage_failed n' \<and> (\<exists>fs. n' = n\<lparr>nd_disk := batch ((nd_disk n)\<lparr>dk_faults := fs\<rparr>)\<rparr>)
     else node_inv C W p n' \<and> safety_storage_failed n'"
    using write_or_stop_ok [OF pre live res'] frame live by (auto simp: safety_storage_failed_def Let_def)
  have mem: "tip n' = tip n" "nd_local_vote_locks n' = nd_local_vote_locks n" "nd_local_prevotes n' = nd_local_prevotes n"
    "consensus_safety_state n' k = consensus_safety_state n k" for k
    using W(2) by (auto simp: consensus_safety_state_def)
  have here: "h \<in> dk_quarantine (nd_disk n') \<or> row_covers (own_log n) h st"
    if "n' = n\<lparr>nd_disk := batch ((nd_disk n)\<lparr>dk_faults := fs\<rparr>)\<rparr>" for fs st
    using that outside_committee_no_casts [OF env pre live] covers_nothing [of "own_log n" h st]
    by (cases "outside_committee env n h") (simp_all add: batch_def quarantine_height_def)
  have more: "dk_quarantine (nd_disk n) \<subseteq> dk_quarantine (nd_disk n')"
    if "n' = n\<lparr>nd_disk := batch ((nd_disk n)\<lparr>dk_faults := fs\<rparr>)\<rparr>" for fs
    using that frame(5) [of "(nd_disk n)\<lparr>dk_faults := fs\<rparr>"] by simp
  show ?thesis
  proof (cases ok)
    case True
    then obtain fs where fs: "n' = n\<lparr>nd_disk := batch ((nd_disk n)\<lparr>dk_faults := fs\<rparr>)\<rparr>" and "node_pre C W p n'" "\<not> safety_storage_failed n'"
      using W(3) by auto
    then have "loading C W p (insert h D) n'"
      unfolding loading_def using here [OF fs] more [OF fs] loadingD(3-5) [OF l] W(1) mem by auto
    then show ?thesis using True W(1) mem(1) by simp
  qed (use W mem(1) in simp)
qed

text \<open>A row that can be read: its votes are put into memory, and the row is written again if a copy is missing.\<close>

lemma map_of_restored:
  "distinct (map fst xs) \<Longrightarrow> map_of (foldl (\<lambda>m (r, tid). omap_upd (h, r) tid m) m xs) (k, r)
     = (if k = h \<and> map_of xs r \<noteq> None then map_of xs r else map_of m (k, r))"
proof (induction xs arbitrary: m)
  case (Cons x xs)
  obtain a b where x: "x = (a, b)" by (cases x)
  have "map_of xs a = None" using Cons.prems by (simp add: x map_of_eq_None_iff)
  then show ?case using Cons by (auto simp: x)
qed simp

lemma omap_ok_restored: "omap_ok m \<Longrightarrow> omap_ok (foldl (\<lambda>m (r, tid). omap_upd (h, r) tid m) m xs)"
  by (induction xs arbitrary: m) (auto simp: omap_ok_upd)

definition restored :: "u64 \<Rightarrow> ConsensusSafetyState \<Rightarrow> (u64, QuorumCertificate) omap \<Rightarrow> Node \<Rightarrow> Node" where
  "restored h st vp n = n\<lparr>nd_local_vote_locks := (case cs_lock st of None \<Rightarrow> nd_local_vote_locks n
       | Some lock \<Rightarrow> omap_upd h lock (nd_local_vote_locks n)),
     nd_local_prevotes := foldl (\<lambda>m (r, tid). omap_upd (h, r) tid m) (nd_local_prevotes n) (cs_prevotes st),
     nd_valid_polka_by_height := vp\<rparr>"

lemma restored_loading:
  assumes l: "loading C W p D n" and h: "h \<notin> D" "nd_finalized_height n < h" and sealed: "sealed_row (nd_disk n) h st"
  shows "loading C W p (insert h D) (restored h st vp n)"
    and "h \<notin> dk_quarantine (nd_disk n) \<Longrightarrow> row_covers (own_log n) h (consensus_safety_state (restored h st vp n) h)"
    and "h = nd_finalized_height n + 1"
proof -
  let ?n = "restored h st vp n"
  note pre = loadingD(1) [OF l] and live = loadingD(2) [OF l]
  note disk = node_preD(4) [OF pre] and mem = node_preD(2) [OF pre]
  have fin: "fst (dk_finalized (nd_disk n)) = nd_finalized_height n" using loadingD(6) [OF l] by simp
  have row: "Safety_Row h st \<in> own_log n" using disk_okD(4) [OF disk sealed] by (simp add: own_log_def)
  show "h = nd_finalized_height n + 1"
    using only_next_height [OF disk row [unfolded own_log_def]] h(2) fin by simp
  have pv_ok: "omap_ok (cs_prevotes st)" using disk_okD(3) [OF disk row [unfolded own_log_def]] by simp
  have log: "own_log ?n = own_log n" "nd_disk ?n = nd_disk n" "tip ?n = tip n" by (simp_all add: restored_def own_log_def)
  have lk: "map_of (nd_local_vote_locks ?n) k = (if k = h \<and> cs_lock st \<noteq> None then cs_lock st else map_of (nd_local_vote_locks n) k)" for k
    by (simp add: restored_def split: option.splits)
  have pv: "map_of (nd_local_prevotes ?n) (k, r) =
      (if k = h \<and> map_of (cs_prevotes st) r \<noteq> None then map_of (cs_prevotes st) r else map_of (nd_local_prevotes n) (k, r))" for k r
    by (simp add: restored_def map_of_restored [OF omap_ok_distinct [OF pv_ok]])
  have "memory_ok C p ?n"
    unfolding memory_ok_def log
  proof (intro conjI allI impI ballI)
    show "omap_ok (nd_local_prevotes ?n)" using memory_okD(1) [OF mem] by (simp add: restored_def omap_ok_restored)
    fix k r tid
    show "cast_prevote (own_log n) k r tid" if "map_of (nd_local_prevotes ?n) (k, r) = Some tid"
      using that memory_okD(2) [OF mem] row by (auto simp: pv cast_prevote_def split: if_splits)
    show "cast_precommit (own_log n) k r tid" if "map_of (nd_local_vote_locks ?n) k = Some (tid, r)"
      using that memory_okD(3) [OF mem] row by (auto simp: lk cast_precommit_def split: if_splits)
  qed (use memory_okD(4,5) [OF mem] in \<open>simp_all add: restored_def\<close>)
  then have pre': "node_pre C W p ?n"
    using pre unfolding node_pre_def
    by (simp add: restored_def counts_ok_def synced_def safety_storage_failed_def world_def own_log_def)
  have empty: "map_of (nd_local_vote_locks n) h = None" "map_of (nd_local_prevotes n) (h, r) = None" for r
    using loadingD(4,5) [OF l h(1)] by auto
  have same: "row_covers L h (consensus_safety_state ?n h) = row_covers L h st" for L
    by (rule row_covers_cong, cases "cs_lock st") (simp_all add: css_lock lk empty row_backed(4) [OF node_preD(2) [OF pre']] pv)
  then show cov: "h \<notin> dk_quarantine (nd_disk n) \<Longrightarrow> row_covers (own_log n) h (consensus_safety_state ?n h)"
    using disk_okD(5) [OF disk _ _ sealed] h(2) fin by (simp add: own_log_def)
  have others: "row_covers L k (consensus_safety_state ?n k) = row_covers L k (consensus_safety_state n k)" if "k \<noteq> h" for L k
    by (rule row_covers_cong)
       (use that in \<open>auto simp: css_lock lk row_backed(4) [OF node_preD(2) [OF pre']] row_backed(4) [OF mem] pv\<close>)
  show "loading C W p (insert h D) ?n"
    unfolding loading_def
  proof (intro conjI ballI allI impI)
    show "\<not> safety_storage_failed ?n" using live by (simp add: restored_def safety_storage_failed_def)
    fix k assume "k \<in> insert h D" "nd_finalized_height ?n < k"
    then show "k \<in> dk_quarantine (nd_disk ?n) \<or> row_covers (own_log ?n) k (consensus_safety_state ?n k)"
      using cov others loadingD(3) [OF l] log by (cases "k = h") auto
  qed (use pre' loadingD(4,5) [OF l] in \<open>auto simp: lk pv\<close>)
qed

lemma persist_loaded_row:
  assumes l: "loading C W p (insert h D) n" and h: "h = nd_finalized_height n + 1" and fin: "nd_finalized_height n < - 2"
    and cov: "h \<notin> dk_quarantine (nd_disk n) \<Longrightarrow> row_covers (own_log n) h (consensus_safety_state n h)"
    and res: "persist_consensus_safety_state h (consensus_safety_state n h) n = (ok, n')"
  shows "extends (own_log n) (own_log n') \<and> tip n' = tip n
    \<and> (if ok then loading C W p (insert h D) n' else node_inv C W p n' \<and> safety_storage_failed n')"
proof -
  let ?st = "consensus_safety_state n h"
  let ?L = "insert (Safety_Row h ?st) (own_log n)"
  note pre = loadingD(1) [OF l] and live = loadingD(2) [OF l]
  note backed = row_backed [OF node_preD(2) [OF pre]]
  have laws: "vote_laws C (W(p := ?L)) p \<and> extends (own_log n) ?L"
    by (rule vote_laws_same_row [OF node_preD(3) [OF pre]]) (use backed in auto)
  have cov': "row_covers ?L h ?st" if "h \<notin> dk_quarantine (nd_disk n)"
    by (rule row_covers_same_row [OF cov [OF that]]) (use backed in auto)
  from persist_row [OF pre live h below_max(1) [OF fin] backed(3) conjunct1 [OF laws] _ res [unfolded persist_as_batch]] cov'
  obtain d b where n': "n' = n\<lparr>nd_disk := d, nd_safety_storage_failed := b\<rparr>" and q: "dk_quarantine d = dk_quarantine (nd_disk n)"
    and log: "set (dk_log d) = ?L \<or> \<not> ok \<and> set (dk_log d) = own_log n"
    and fate: "if ok then node_pre C W p n' \<and> \<not> safety_storage_failed n' else node_inv C W p n' \<and> safety_storage_failed n'"
    by blast
  have css: "consensus_safety_state n' k = consensus_safety_state n k" for k by (simp add: n' consensus_safety_state_def)
  have "loading C W p (insert h D) n'" if ok
    unfolding loading_def
  proof (intro conjI ballI allI impI)
    have L: "own_log n' = ?L" using log that by (simp add: n' own_log_def)
    fix k assume "k \<in> insert h D" "nd_finalized_height n' < k"
    then show "k \<in> dk_quarantine (nd_disk n') \<or> row_covers (own_log n') k (consensus_safety_state n' k)"
      using cov' loadingD(3) [OF l, of k] by (cases "k = h") (auto simp: L css, auto simp: n' q)
  qed (use fate that loadingD(4,5) [OF l] in \<open>auto simp: n'\<close>)
  moreover have "extends (own_log n) (own_log n')" using log laws by (auto simp: n' own_log_def)
  moreover have "tip n' = tip n" by (simp add: n')
  ultimately show ?thesis using fate by auto
qed

lemma load_safety_row_ok:
  assumes env: "env_of C p env" and l: "loading C W p D n" and h: "h \<notin> D" "nd_finalized_height n < h"
    and fin: "nd_finalized_height n < - 2" and res: "load_safety_row env h n = (ok, n')"
  shows "extends (own_log n) (own_log n') \<and> tip n' = tip n
    \<and> (if ok then loading C W p (insert h D) n' else node_inv C W p n' \<and> safety_storage_failed n')"
proof (cases "readable_copy (map_of (dk_primary (nd_disk n)) h) (map_of (dk_mirror (nd_disk n)) h)")
  case None
  then have "(if outside_committee env n h then write_or_stop (drop_row h) n else write_or_stop (quarantine_height h) n) = (ok, n')"
    using res by (simp add: load_safety_row_def)
  from unreadable_row_ok [OF env l this] show ?thesis by auto
next
  case (Some x)
  obtain st m where x: "x = (st, m)" by (cases x)
  have sealed: "sealed_row (nd_disk n) h st" by (rule readable_copy_sealed) (use Some x in simp)
  have "\<exists>vp. load_safety_row env h n = (True, restored h st vp n)
      \<or> load_safety_row env h n = persist_consensus_safety_state h (consensus_safety_state (restored h st vp n) h) (restored h st vp n)"
  proof -
    define ok where "ok = (case cs_valid_polka st of None \<Rightarrow> True
        | Some q \<Rightarrow> qc_height q = h \<and> \<not> isl (verify_polka env n q False))"
    define vp where "vp = (if ok then case cs_valid_polka st of None \<Rightarrow> nd_valid_polka_by_height n
        | Some q \<Rightarrow> omap_upd h q (nd_valid_polka_by_height n) else nd_valid_polka_by_height n)"
    have n1: "(if ok then case cs_valid_polka st of None \<Rightarrow> n2
        | Some q \<Rightarrow> n2\<lparr>nd_valid_polka_by_height := omap_upd h q (nd_valid_polka_by_height n2)\<rparr> else n2) = restored h st vp n"
      if "n2 = (case cs_lock st of None \<Rightarrow> n | Some lock \<Rightarrow> n\<lparr>nd_local_vote_locks := omap_upd h lock (nd_local_vote_locks n)\<rparr>)
        \<lparr>nd_local_prevotes := foldl (\<lambda>m (r, tid). omap_upd (h, r) tid m) (nd_local_prevotes (case cs_lock st of None \<Rightarrow> n
          | Some lock \<Rightarrow> n\<lparr>nd_local_vote_locks := omap_upd h lock (nd_local_vote_locks n)\<rparr>)) (cs_prevotes st)\<rparr>" for n2
      unfolding that restored_def vp_def
      by (cases n; cases "cs_lock st"; cases "cs_valid_polka st") simp_all
    show ?thesis
      unfolding load_safety_row_def Let_def Some x option.case prod.case ok_def [symmetric] n1 [OF refl] by (auto intro: exI [of _ vp])
  qed
  then obtain vp where fate: "(ok, n') = (True, restored h st vp n)
      \<or> persist_consensus_safety_state h (consensus_safety_state (restored h st vp n) h) (restored h st vp n) = (ok, n')"
    unfolding res by metis
  note R = restored_loading(1,2) [OF l h sealed, where vp = vp] restored_loading(3) [OF l h sealed]
  have frame: "own_log (restored h st vp n) = own_log n" "tip (restored h st vp n) = tip n" "nd_disk (restored h st vp n) = nd_disk n"
    by (simp_all add: restored_def own_log_def)
  from fate show ?thesis
  proof
    assume "(ok, n') = (True, restored h st vp n)"
    then show ?thesis using R(1) frame by simp
  next
    assume "persist_consensus_safety_state h (consensus_safety_state (restored h st vp n) h) (restored h st vp n) = (ok, n')"
    from persist_loaded_row [OF R(1) _ _ _ this] R(2,3) frame fin show ?thesis by auto
  qed
qed

lemma load_rows_ok:
  assumes env: "env_of C p env" and "loading C W p D n" and "distinct hs" and "set hs \<inter> D = {}"
    and "\<forall>h \<in> set hs. nd_finalized_height n < h" and "nd_finalized_height n < - 2"
    and "load_each (load_safety_row env) hs n = (ok, n')"
  shows "extends (own_log n) (own_log n') \<and> tip n' = tip n
    \<and> (if ok then loading C W p (D \<union> set hs) n' else node_inv C W p n' \<and> safety_storage_failed n')"
  using assms(2-)
proof (induction hs arbitrary: D n)
  case (Cons h hs)
  obtain b n1 where row: "load_safety_row env h n = (b, n1)" by (cases "load_safety_row env h n")
  have h: "h \<notin> D" "nd_finalized_height n < h" using Cons.prems(3,4) by auto
  note R = load_safety_row_ok [OF env Cons.prems(1) h Cons.prems(5) row]
  show ?case
  proof (cases b)
    case False
    then show ?thesis using R row Cons.prems(6) by auto
  next
    case True
    then have rest: "load_each (load_safety_row env) hs n1 = (ok, n')" using row Cons.prems(6) by simp
    have "loading C W p (insert h D) n1" using R True by simp
    from Cons.IH [OF this _ _ _ _ rest] Cons.prems R show ?thesis by (auto intro: extends_trans)
  qed
qed auto

text \<open>A height below the high-water mark without a row.\<close>

lemma quarantine_missing_ok:
  assumes env: "env_of C p env" and l: "loading C W p D n" and h: "h \<notin> D \<longrightarrow> h \<notin> S"
    and res: "quarantine_missing env S h n = (ok, n')"
  shows "own_log n' = own_log n \<and> tip n' = tip n \<and> dk_highwater (nd_disk n') = dk_highwater (nd_disk n)
    \<and> (if ok then loading C W p (insert h D) n' else node_inv C W p n' \<and> safety_storage_failed n')"
proof (cases "h \<in> S \<or> h \<in> dk_quarantine (nd_disk n) \<or> outside_committee env n h")
  case True
  then have n': "n' = n" "ok" using res by (auto simp: quarantine_missing_def)
  have "h \<in> dk_quarantine (nd_disk n) \<or> row_covers (own_log n) h (consensus_safety_state n h)" if "h \<notin> D"
    using True that h outside_committee_no_casts [OF env loadingD(1,2) [OF l]] covers_nothing by blast
  then have "loading C W p (insert h D) n"
    using loadingD [OF l] unfolding loading_def by auto
  then show ?thesis using n' by simp
next
  case False
  define batch :: "Disk \<Rightarrow> Disk" where "batch = (\<lambda>d. d\<lparr>dk_quarantine := insert h (dk_quarantine d)\<rparr>)"
  have res': "write_or_stop batch n = (ok, n')" using res False by (simp add: quarantine_missing_def batch_def)
  note pre = loadingD(1) [OF l] and live = loadingD(2) [OF l]
  have "disk_ok (batch ((nd_disk n)\<lparr>dk_faults := fs\<rparr>))" for fs
  proof (rule disk_ok_weaken)
    show "disk_ok (nd_disk n)" by (rule node_preD(4) [OF pre])
  qed (simp_all add: batch_def sealed_row_def)
  then have fine: "let d = (nd_disk n)\<lparr>dk_faults := fs\<rparr>; d' = batch d in disk_ok d' \<and> dk_log d' = dk_log d
      \<and> dk_finalized d' = dk_finalized d \<and> dk_quarantine d \<subseteq> dk_quarantine d' \<and> \<not> dk_fenced d'" for fs
    using live by (auto simp: batch_def Let_def safety_storage_failed_def)
  note R = write_or_stop_ok [OF pre live res' fine]
  have high: "dk_highwater (nd_disk n') = dk_highwater (nd_disk n)"
    using res' by (auto simp: write_or_stop_def write_batch_durable_def batch_def split: if_splits list.splits write_outcome.splits)
  have mem: "tip n' = tip n" "nd_local_vote_locks n' = nd_local_vote_locks n" "nd_local_prevotes n' = nd_local_prevotes n"
    "consensus_safety_state n' k = consensus_safety_state n k" for k
    using R by (auto simp: consensus_safety_state_def)
  show ?thesis
  proof (cases ok)
    case True
    then obtain fs where fs: "n' = n\<lparr>nd_disk := batch ((nd_disk n)\<lparr>dk_faults := fs\<rparr>)\<rparr>"
      and live': "node_pre C W p n'" "\<not> safety_storage_failed n'" using R by auto
    have q: "dk_quarantine (nd_disk n') = insert h (dk_quarantine (nd_disk n))" by (simp add: fs batch_def)
    have log: "own_log n' = own_log n" using R by blast
    have "loading C W p (insert h D) n'"
      unfolding loading_def q log mem
    proof (intro conjI ballI allI impI)
      show "k \<in> insert h (dk_quarantine (nd_disk n)) \<or> row_covers (own_log n) k (consensus_safety_state n k)"
        if "k \<in> insert h D" "nd_finalized_height n' < k" for k
        using that loadingD(3) [OF l, of k] mem(1) by auto
    qed (use live' loadingD(4,5) [OF l] in auto)
    then show ?thesis using True R mem(1) high by simp
  qed (use R mem(1) high in simp)
qed

lemma load_missing_ok:
  assumes env: "env_of C p env" and "loading C W p D n" and S: "S \<subseteq> D" and "load_each (quarantine_missing env S) hs n = (ok, n')"
  shows "own_log n' = own_log n \<and> tip n' = tip n \<and> dk_highwater (nd_disk n') = dk_highwater (nd_disk n)
    \<and> (if ok then loading C W p (D \<union> set hs) n' else node_inv C W p n' \<and> safety_storage_failed n')"
  using assms(2-)
proof (induction hs arbitrary: D n)
  case (Cons h hs)
  obtain b n1 where q: "quarantine_missing env S h n = (b, n1)" by (cases "quarantine_missing env S h n")
  have "h \<notin> D \<longrightarrow> h \<notin> S" using Cons.prems(2) by blast
  note R = quarantine_missing_ok [OF env Cons.prems(1) this q]
  show ?case
  proof (cases b)
    case False
    then show ?thesis using R q Cons.prems(3) by auto
  next
    case True
    then have rest: "load_each (quarantine_missing env S) hs n1 = (ok, n')" using q Cons.prems(3) by simp
    have "loading C W p (insert h D) n1" "S \<subseteq> insert h D" using R True Cons.prems(2) by auto
    from Cons.IH [OF this rest] R show ?thesis by (cases ok) simp_all
  qed
qed auto

lemma next_height_missing:
  assumes "fin < - 66" and "fin + 1 \<le> highwater"
  shows "fin + 1 \<in> set (missing_span fin highwater)"
proof -
  have "unat fin + 64 < 2 ^ 64" using assms(1) by (simp add: word_less_nat_alt)
  then have "fin + 1 \<le> fin + kMaxMissingSafetySpan"
    by (simp add: word_le_nat_alt unat_word_ariths kMaxMissingSafetySpan_def)
  moreover have "[0..<unat kMaxMissingSafetySpan] = 0 # [1..<64]" by (simp add: kMaxMissingSafetySpan_def upt_conv_Cons)
  ultimately show ?thesis using assms(2) by (simp add: missing_span_def)
qed

text \<open>The copies that a crash, a repair or a bad sector can leave behind.\<close>

definition damaged :: "Disk \<Rightarrow> Disk \<Rightarrow> bool" where
  "damaged d d' \<longleftrightarrow> dk_log d' = dk_log d \<and> dk_finalized d' = dk_finalized d \<and> dk_highwater d' = dk_highwater d
     \<and> dk_quarantine d' = dk_quarantine d
     \<and> (\<forall>h st. map_of (dk_primary d') h = Some (Sealed st) \<longrightarrow> map_of (dk_primary d) h = Some (Sealed st))
     \<and> (\<forall>h st. map_of (dk_mirror d') h = Some (Sealed st) \<longrightarrow> map_of (dk_mirror d) h = Some (Sealed st))"

lemma damaged_ok:
  assumes "disk_ok d" and "damaged d d'"
  shows "disk_ok d'"
  by (rule disk_ok_weaken [OF assms(1)]) (use assms(2) in \<open>auto simp: damaged_def sealed_row_def\<close>)

lemma map_of_filter_key: "map_of (filter (\<lambda>e. P (fst e)) m) k = (if P k then map_of m k else None)"
  by (induction m) auto

lemma sealed_row_filter:
  "sealed_row (d\<lparr>dk_primary := filter (\<lambda>e. k < fst e) (dk_primary d), dk_mirror := filter (\<lambda>e. k < fst e) (dk_mirror d)\<rparr>) h st
    \<Longrightarrow> sealed_row d h st"
  by (auto simp: sealed_row_def map_of_filter_key split: if_splits)

lemma fresh_node_loading:
  assumes laws: "vote_laws C (W(p := set (dk_log d))) p" and ok: "disk_ok d"
    and n: "n = (fresh_node limits timeout_limits d)\<lparr>nd_abstain_heights := {},
      nd_disk := d\<lparr>dk_fenced := False, dk_primary := filter (\<lambda>e. fst (dk_finalized d) < fst e) (dk_primary d),
        dk_mirror := filter (\<lambda>e. fst (dk_finalized d) < fst e) (dk_mirror d)\<rparr>\<rparr>"
  shows "loading C W p {} n"
proof -
  have "disk_ok (nd_disk n)"
  proof (rule disk_ok_weaken [OF ok])
    fix h st assume "sealed_row (nd_disk n) h st"
    then show "sealed_row d h st"
      by (intro sealed_row_filter [where d = d and k = "fst (dk_finalized d)"]) (simp add: n sealed_row_def)
  qed (simp_all add: n)
  moreover have "counts_ok C (world W p n) n"
    by (simp add: n counts_ok_def fresh_node_def genuine_def fc_contains_def fc_new_def)
  moreover have "memory_ok C p n" by (simp add: n memory_ok_def fresh_node_def)
  moreover have "vote_laws C (world W p n) p" using laws by (simp add: n world_def own_log_def)
  ultimately show ?thesis
    by (simp add: loading_def node_pre_def n synced_def fresh_node_def safety_storage_failed_def)
qed

text \<open>All heights are done: the node abstains where its record is lost, and remembers all it has cast elsewhere.\<close>

lemma loading_done:
  assumes l: "loading C W p D n" and fin: "nd_finalized_height n < - 66"
    and D: "set (missing_span (nd_finalized_height n) (dk_highwater (nd_disk n))) \<subseteq> D"
    and n': "n' = n\<lparr>nd_disk := (nd_disk n)\<lparr>dk_quarantine := {h \<in> dk_quarantine (nd_disk n). nd_finalized_height n < h}\<rparr>,
      nd_abstain_heights := {h \<in> dk_quarantine (nd_disk n). nd_finalized_height n < h}\<rparr>"
  shows "node_inv C W p n' \<and> own_log n' = own_log n"
proof -
  note pre = loadingD(1) [OF l]
  note disk = node_preD(4) [OF pre]
  have tip: "fst (dk_finalized (nd_disk n)) = nd_finalized_height n" using loadingD(6) [OF l] by simp
  have log: "own_log n' = own_log n" by (simp add: n' own_log_def)
  have "disk_ok (nd_disk n')"
    by (rule disk_ok_weaken [OF disk]) (use tip in \<open>simp_all add: n' sealed_row_def\<close>)
  then have "node_pre C W p n'"
    using pre loadingD(6) [OF l] unfolding node_pre_def
    by (simp add: n' counts_ok_def memory_ok_def synced_def safety_storage_failed_def world_def own_log_def)
  moreover have "memory_covers n'"
    unfolding memory_covers_def log
  proof (intro allI impI)
    fix h assume h: "nd_finalized_height n' < h" "h \<notin> nd_abstain_heights n'"
    then have q: "nd_finalized_height n < h" "h \<notin> dk_quarantine (nd_disk n)" by (auto simp: n')
    have same: "consensus_safety_state n' h = consensus_safety_state n h" by (simp add: n' consensus_safety_state_def)
    show "row_covers (own_log n) h (consensus_safety_state n' h)"
    proof (cases "h \<in> D")
      case True
      then show ?thesis using loadingD(3) [OF l True q(1)] q(2) same by simp
    next
      case False
      have "\<not> (cast_prevote (own_log n) h r tid \<or> cast_precommit (own_log n) h r tid)" for r tid
      proof
        assume c: "cast_prevote (own_log n) h r tid \<or> cast_precommit (own_log n) h r tid"
        then obtain st where "Safety_Row h st \<in> set (dk_log (nd_disk n))"
          by (auto simp: cast_prevote_def cast_precommit_def own_log_def)
        then have next_h: "h = nd_finalized_height n + 1" using only_next_height [OF disk] q(1) tip by simp
        have "h \<le> dk_highwater (nd_disk n)" using disk_okD(6) [OF disk _ q(2) c [unfolded own_log_def]] q(1) tip by simp
        then show False using next_height_missing [OF fin] next_h D False by auto
      qed
      then show ?thesis by (simp add: covers_nothing)
    qed
  qed
  ultimately show ?thesis using log by (simp add: node_inv_def)
qed

lemma restore_valid_proposal_ok:
  assumes "sound C W p env n"
  shows "step_ok C W p env n (foldl (\<lambda>n e. restore_valid_proposal env e n) n es)"
  using assms
proof (induction es arbitrary: n)
  case (Cons e es)
  obtain h q where e: "e = (h, q)" by (cases e)
  have sha: "en_sha256d env = nt_sha256d C" using soundD(1) [OF Cons.prems] by (simp add: env_of_def)
  let ?t = "transition_id (nt_sha256d C) (fpr_transition q)"
  have cand: "step_ok C W p env n (n\<lparr>nd_candidate_block_sizes := sizes, nd_candidates := omap_upd ?t q (nd_candidates n)\<rparr>)" for sizes
    by (rule candidate_ok [OF Cons.prems refl]) (simp add: core_def)
  have "step_ok C W p env n (restore_valid_proposal env e n)"
    unfolding e restore_valid_proposal_def prod.case Let_def sha
    by (cases "map_of (nd_valid_polka_by_height n) h") (simp_all only: option.case step_ok_refl [OF Cons.prems] cand if_split, blast)
  from step_ok_trans [OF this Cons.IH [OF step_ok_sound [OF this]]] show ?case by simp
qed (simp add: step_ok_refl)

lemma node_inv_proposals: "node_inv C W p (n\<lparr>nd_disk := (nd_disk n)\<lparr>dk_locked_proposal := ps\<rparr>\<rparr>) = node_inv C W p n"
  by (simp add: node_inv_def node_pre_def counts_ok_def memory_ok_def synced_def memory_covers_def consensus_safety_state_def
      own_log_def world_def safety_storage_failed_def)

lemma load_safety_state_ok:
  assumes s: "sound C W p env n" and ok: "disk_ok d" and log: "set (dk_log d) = own_log n"
    and fin: "fst (dk_finalized d) < - 66" and safe: "en_unsafe_discard_vote_lock_height env = None"
    and res: "load_safety_state env (fresh_node limits timeout_limits d) = (done, n')"
  shows "step_ok C W p env n n' \<and> (\<not> done \<longrightarrow> safety_storage_failed n')"
proof -
  note env = soundD(1) [OF s]
  define f where "f = fst (dk_finalized d)"
  define n0 where "n0 = (fresh_node limits timeout_limits d)\<lparr>nd_abstain_heights := {},
      nd_disk := d\<lparr>dk_fenced := False, dk_primary := filter (\<lambda>e. fst (dk_finalized d) < fst e) (dk_primary d),
        dk_mirror := filter (\<lambda>e. fst (dk_finalized d) < fst e) (dk_mirror d)\<rparr>\<rparr>"
  define S where "S = sort (remdups (map fst (dk_primary (nd_disk n0)) @ map fst (dk_mirror (nd_disk n0))))"
  have "vote_laws C (W(p := set (dk_log d))) p"
    using node_invD(4) [OF soundD(5) [OF s]] by (simp add: world_def log)
  from fresh_node_loading [OF this ok n0_def] have l0: "loading C W p {} n0" .
  have tip0: "nd_finalized_height n0 = f" "own_log n0 = own_log n"
    using log by (simp_all add: n0_def fresh_node_def f_def own_log_def)
  have above: "\<forall>h \<in> set S. f < h" by (auto simp: S_def n0_def f_def)
  have distinct: "distinct S" by (simp add: S_def)
  obtain b1 n1 where rows: "load_each (load_safety_row env) S n0 = (b1, n1)" by (cases "load_each (load_safety_row env) S n0")
  have f2: "f < - 2"
  proof -
    have "(- 66 :: u64) \<le> - 2" by simp
    then show ?thesis using fin unfolding f_def by (rule less_le_trans [rotated])
  qed
  have L1: "extends (own_log n) (own_log n1) \<and> nd_finalized_height n1 = f
      \<and> (if b1 then loading C W p (set S) n1 else node_inv C W p n1 \<and> safety_storage_failed n1)"
    using load_rows_ok [OF env l0 distinct _ _ _ rows] above f2 tip0 by (cases b1) simp_all
  obtain b2 n2 where missing: "load_each (quarantine_missing env (set S)) (missing_span f (dk_highwater (nd_disk n1))) n1 = (b2, n2)"
    by (cases "load_each (quarantine_missing env (set S)) (missing_span f (dk_highwater (nd_disk n1))) n1")
  define n3 where "n3 = n2\<lparr>nd_disk := (nd_disk n2)\<lparr>dk_quarantine := {h \<in> dk_quarantine (nd_disk n2). f < h}\<rparr>,
      nd_abstain_heights := {h \<in> dk_quarantine (nd_disk n2). f < h}\<rparr>"
  have fresh: "(fresh_node limits timeout_limits d)\<lparr>nd_abstain_heights := {},
      nd_disk := (nd_disk (fresh_node limits timeout_limits d))\<lparr>
        dk_primary := filter (\<lambda>e. f < fst e) (dk_primary (nd_disk (fresh_node limits timeout_limits d))),
        dk_mirror := filter (\<lambda>e. f < fst e) (dk_mirror (nd_disk (fresh_node limits timeout_limits d)))\<rparr>\<rparr> = n0"
    by (simp add: n0_def fresh_node_def f_def)
  have "nd_finalized_height (fresh_node limits timeout_limits d) = f" by (simp add: fresh_node_def f_def)
  note eq = res [unfolded load_safety_state_def Let_def this fresh S_def [symmetric] rows prod.case]
  show ?thesis
  proof (cases b1)
    case False
    then show ?thesis using eq L1 step_okI [OF s] by auto
  next
    case b1: True
    then have l1: "loading C W p (set S) n1" using L1 by simp
    note L2 = load_missing_ok [OF env l1 subset_refl missing]
    note eq2 = eq [unfolded eqTrueI [OF b1] bool.case missing prod.case]
    show ?thesis
    proof (cases b2)
      case False
      then show ?thesis using eq2 L1 L2 step_okI [OF s] by auto
    next
      case b2: True
      then have l2: "loading C W p (set S \<union> set (missing_span f (dk_highwater (nd_disk n1)))) n2" using L2 by simp
      have f': "nd_finalized_height n2 = f" using L1 L2 by simp
      have n3: "node_inv C W p n3 \<and> own_log n3 = own_log n2"
        by (rule loading_done [OF l2]) (use fin L2 in \<open>auto simp: f' f_def [symmetric] n3_def\<close>)
      then have step: "step_ok C W p env n n3" using step_okI [OF s, of n3] L1 L2 by simp
      define n4 where "n4 = n3\<lparr>nd_disk := (nd_disk n3)\<lparr>dk_locked_proposal := filter (\<lambda>e. f < fst e) (dk_locked_proposal (nd_disk n3))\<rparr>\<rparr>"
      have "node_inv C W p n4"
        using n3 by (simp add: n4_def node_inv_proposals)
      then have step4: "step_ok C W p env n n4"
        using step by (intro step_ok_trans [OF step] step_okI [OF step_ok_sound [OF step]]) (auto simp: n4_def own_log_def)
      have "n' = foldl (\<lambda>n e. restore_valid_proposal env e n) n4 (filter (\<lambda>e. f < fst e) (dk_locked_proposal (nd_disk n3)))" "done"
        using eq2 b2 by (simp_all add: safe discard_vote_lock_def n3_def n4_def)
      then show ?thesis
        using step_ok_trans [OF step4 restore_valid_proposal_ok [OF step_ok_sound [OF step4]]] by simp
    qed
  qed
qed

lemma start_node_ok:
  assumes s: "sound C W p env n" and damage: "damaged (nd_disk n) d"
    and fin: "fst (dk_finalized d) < - 66" and safe: "en_unsafe_discard_vote_lock_height env = None"
    and res: "start_node env limits timeout_limits d = (ok, n')"
  shows "step_ok C W p env n n' \<and> (\<not> ok \<longrightarrow> safety_storage_failed n')"
proof -
  have disk: "disk_ok d" by (rule damaged_ok [OF node_invD(5) [OF soundD(5) [OF s]] damage])
  have log: "set (dk_log d) = own_log n" using damage by (simp add: damaged_def own_log_def)
  obtain b n1 where load: "load_safety_state env (fresh_node limits timeout_limits d) = (b, n1)"
    by (cases "load_safety_state env (fresh_node limits timeout_limits d)")
  note L = load_safety_state_ok [OF s disk log fin safe load]
  show ?thesis
  proof (cases b)
    case False
    then show ?thesis using L res by (simp add: start_node_def load)
  next
    case True
    define n2 where "n2 = n1\<lparr>nd_current_round := 0, nd_round_started_ms := en_now_ms env, nd_candidate_block_sizes := [],
        nd_highest_tc_by_height := omap_del (nd_finalized_height n1 + 1) (nd_highest_tc_by_height n1)\<rparr>"
    have step: "step_ok C W p env n n2"
      by (rule step_ok_core_after [OF conjunct1 [OF L]]) (simp add: n2_def core_def)
    have "n' = reseed_local_votes env (nd_finalized_height n1 + 1) n2" "ok"
      using res True by (simp_all add: start_node_def load n2_def)
    then show ?thesis
      using step_ok_trans [OF step reseed_local_votes_ok [OF step_ok_sound [OF step]]] by simp
  qed
qed

end
