(* ===== verification/Agreement.thy ===== *)
theory Agreement
  imports Node_Restart
begin

text \<open>
  A network of nodes that run this code among others that do not. The honest nodes execute their
  critical sections in any order, on any messages, with any losses, crashes, restarts and damage to
  their disks; what the network delivers is free except that it cannot forge signatures. The main
  result is agreement: no two honest nodes ever finalize different transitions at the same height.
\<close>

subsection \<open>What the network can deliver\<close>

text \<open>
  \<open>I q\<close> is the set of messages that \<open>q\<close> has issued. A signature that verifies under the key of an honest
  validator was made over the bytes of a message it issued, and the messages in question do not
  collide under the hash.
\<close>

type_synonym issued = "pubkey32 \<Rightarrow> signed_message set"

definition unforged :: "Net \<Rightarrow> issued \<Rightarrow> signed_message \<Rightarrow> sig64 \<Rightarrow> pubkey32 \<Rightarrow> bool" where
  "unforged C I m sig q \<longleftrightarrow> (q \<in> nt_honest C \<longrightarrow> nt_verify C (message_bytes (nt_sha256d C) (nt_domain C) m) sig q \<longrightarrow>
     message_bytes (nt_sha256d C) (nt_domain C) m \<in> message_bytes (nt_sha256d C) (nt_domain C) ` I q)"

definition no_collision :: "Net \<Rightarrow> issued \<Rightarrow> signed_message \<Rightarrow> pubkey32 \<Rightarrow> bool" where
  "no_collision C I m q \<longleftrightarrow> (\<forall>m' \<in> I q. nt_sha256d C (message_preimage (nt_domain C) m) = nt_sha256d C (message_preimage (nt_domain C) m')
     \<longrightarrow> message_preimage (nt_domain C) m = message_preimage (nt_domain C) m')"

definition authentic :: "Net \<Rightarrow> issued \<Rightarrow> signed_message \<Rightarrow> sig64 \<Rightarrow> pubkey32 \<Rightarrow> bool" where
  "authentic C I m sig q \<longleftrightarrow> unforged C I m sig q \<and> no_collision C I m q"

lemma authentic_issued:
  assumes "authentic C I m sig q" and "q \<in> nt_honest C" and "nt_verify C (message_bytes (nt_sha256d C) (nt_domain C) m) sig q"
  shows "m \<in> I q"
proof -
  obtain m' where m': "m' \<in> I q" "message_bytes (nt_sha256d C) (nt_domain C) m = message_bytes (nt_sha256d C) (nt_domain C) m'"
    using assms by (auto simp: authentic_def unforged_def)
  then have "message_preimage (nt_domain C) m = message_preimage (nt_domain C) m'"
    using assms(1) by (simp add: authentic_def no_collision_def message_bytes_hash)
  then show ?thesis using message_preimage_inject [OF refl] m'(1) by metis
qed

definition vote_msg :: "Vote \<Rightarrow> signed_message" where
  "vote_msg v = Vote_Msg (vote_height v) (vote_round v) (vote_frontier_transition_id v)"

definition prevote_msg :: "Vote \<Rightarrow> signed_message" where
  "prevote_msg v = Prevote_Msg (vote_height v) (vote_round v) (vote_frontier_transition_id v)"

definition authentic_polka :: "Net \<Rightarrow> issued \<Rightarrow> QuorumCertificate \<Rightarrow> bool" where
  "authentic_polka C I qc \<longleftrightarrow> (\<forall>s \<in> set (qc_signatures qc). authentic C I
     (Prevote_Msg (qc_height qc) (qc_round qc) (qc_frontier_transition_id qc)) (fs_signature s) (fs_validator_pubkey s))"

definition authentic_certificate :: "Net \<Rightarrow> issued \<Rightarrow> FinalityCertificate \<Rightarrow> bool" where
  "authentic_certificate C I cert \<longleftrightarrow> (\<forall>s \<in> set (fc_signatures cert). authentic C I
     (Vote_Msg (fc_height cert) (fc_round cert) (fc_frontier_transition_id cert)) (fs_signature s) (fs_validator_pubkey s))"

subsection \<open>Runs\<close>

text \<open>The votes that a critical section releases: those it returns and those it queues for sending.\<close>

definition queued :: "Node \<Rightarrow> signed_message set" where
  "queued n = vote_msg ` set (nd_pending_local_precommits n)"

text \<open>The node's own votes at a height, which it signs again after a reset and when it sends them again.\<close>

definition recorded :: "u64 \<Rightarrow> Node \<Rightarrow> signed_message set" where
  "recorded h n = (\<lambda>(r, tid). Prevote_Msg h r tid) ` set (prevotes_at (nd_local_prevotes n) h)
     \<union> (case map_of (nd_local_vote_locks n) h of None \<Rightarrow> {} | Some (tid, r) \<Rightarrow> {Vote_Msg h r tid})"

text \<open>One step of a node, with the messages it issues.\<close>

inductive node_step :: "Net \<Rightarrow> issued \<Rightarrow> NodeEnv \<Rightarrow> Node \<Rightarrow> signed_message set \<Rightarrow> Node \<Rightarrow> bool" for C I env n where
  Propose: "handle_propose_section env msg from_network peer n = Some (out, v, n') \<Longrightarrow>
    (\<forall>qc. pm_pol msg = Some qc \<longrightarrow> authentic_polka C I qc) \<Longrightarrow>
    node_step C I env n (prevote_msg ` set_option v \<union> queued n') n'"
| Prevote: "handle_prevote_section env vote from_network n = (out, relay, v, n') \<Longrightarrow>
    authentic C I (prevote_msg vote) (vote_signature vote) (vote_validator_pubkey vote) \<Longrightarrow>
    node_step C I env n (vote_msg ` set_option v \<union> queued n') n'"
| Precommit: "handle_vote_section env vote from_network n = (out, relay, n') \<Longrightarrow>
    authentic C I (vote_msg vote) (vote_signature vote) (vote_validator_pubkey vote) \<Longrightarrow>
    node_step C I env n (queued n') n'"
| Timeout_Vote: "handle_timeout_vote_section env tv from_network n = (out, relay, n') \<Longrightarrow> node_step C I env n {} n'"
| Round_Timeout: "round_timeout env advance_alone n = (tv_out, n') \<Longrightarrow> node_step C I env n {} n'"
| Build: "build_proposal env h r built n = (proposal, n') \<Longrightarrow> node_step C I env n {} n'"
| Block: "handle_frontier_block env q certificate lanes_ok from_network n = Some (ok, n') \<Longrightarrow>
    (\<forall>cert. certificate = Some cert \<longrightarrow> authentic_certificate C I cert) \<Longrightarrow>
    node_step C I env n (queued n') n'"
| Flush: "flush_pending n = (votes, blocks, n') \<Longrightarrow> node_step C I env n (vote_msg ` set votes) n'"
| Retry: "retry_deferred_certified_votes tips n = (msgs, n') \<Longrightarrow> node_step C I env n {} n'"
| Rebroadcast: "node_step C I env n (recorded h n) n"
| Reset: "reset_round_state env n = n' \<Longrightarrow> node_step C I env n (recorded (nd_finalized_height n + 1) n') n'"
| Restart: "start_node env limits timeout_limits d = (ok, n') \<Longrightarrow> damaged (nd_disk n) d \<Longrightarrow>
    en_unsafe_discard_vote_lock_height env = None \<Longrightarrow>
    node_step C I env n (recorded (nd_finalized_height n' + 1) n') n'"

definition genesis_disk :: "Net \<Rightarrow> write_outcome list \<Rightarrow> Disk" where
  "genesis_disk C fs = \<lparr>dk_primary = [], dk_mirror = [], dk_quarantine = {}, dk_highwater = 0, dk_locked_proposal = [],
     dk_finalized = (0, nt_genesis C), dk_fenced = False, dk_faults = fs, dk_log = [Finalized_Tip 0 (nt_genesis C)]\<rparr>"

text \<open>
  The heights stay below the end of the 64-bit range, by more than the span that startup looks ahead.
  An honest key signs timeout votes, proposals and time messages whenever it likes.
\<close>

inductive run :: "Net \<Rightarrow> (pubkey32 \<Rightarrow> Node) \<Rightarrow> issued \<Rightarrow> bool" for C where
  Genesis: "(\<And>p. \<exists>limits timeout_limits fs. N p = fresh_node limits timeout_limits (genesis_disk C fs)) \<Longrightarrow> run C N (\<lambda>p. {})"
| Node_Step: "run C N I \<Longrightarrow> p \<in> nt_honest C \<Longrightarrow> env_of C p env \<Longrightarrow> nd_finalized_height (N p) < - 66 \<Longrightarrow>
    fst (dk_finalized (nd_disk (N p))) < - 66 \<Longrightarrow> node_step C I env (N p) M n' \<Longrightarrow> run C (N(p := n')) (I(p := I p \<union> M))"
| Other_Signature: "run C N I \<Longrightarrow> (\<And>h r tid. m \<noteq> Vote_Msg h r tid \<and> m \<noteq> Prevote_Msg h r tid) \<Longrightarrow> run C N (I(p := insert m (I p)))"

subsection \<open>The invariant of a run\<close>

definition logs :: "(pubkey32 \<Rightarrow> Node) \<Rightarrow> pubkey32 \<Rightarrow> disk_log" where
  "logs N q = own_log (N q)"

definition issued_cast :: "disk_log \<Rightarrow> signed_message set \<Rightarrow> bool" where
  "issued_cast L M \<longleftrightarrow> (\<forall>h r tid. (Prevote_Msg h r tid \<in> M \<longrightarrow> cast_prevote L h r tid) \<and> (Vote_Msg h r tid \<in> M \<longrightarrow> cast_precommit L h r tid))"

definition network_inv :: "Net \<Rightarrow> (pubkey32 \<Rightarrow> Node) \<Rightarrow> issued \<Rightarrow> bool" where
  "network_inv C N I \<longleftrightarrow> (\<forall>p \<in> nt_honest C. node_inv C (logs N) p (N p) \<and> issued_cast (logs N p) (I p))"

lemma world_logs [simp]: "world (logs N) p (N p) = logs N"
  by (simp add: world_def logs_def fun_eq_iff)

lemma logs_upd: "logs (N(p := n)) = world (logs N) p n"
  by (auto simp: world_def logs_def fun_eq_iff)

lemma issued_cast_mono: "issued_cast L M \<Longrightarrow> L \<subseteq> L' \<Longrightarrow> issued_cast L' M"
  unfolding issued_cast_def using cast_mono(1,2) by blast

lemma issued_cast_Un: "issued_cast L (A \<union> B) \<longleftrightarrow> issued_cast L A \<and> issued_cast L B"
  by (auto simp: issued_cast_def)

lemma issued_cast_empty [simp]: "issued_cast L {}"
  by (simp add: issued_cast_def)

lemma network_sound:
  assumes "network_inv C N I" and "net_ok C" and "p \<in> nt_honest C" and "env_of C p env"
  shows "sound C (logs N) p env (N p)"
  using assms node_invD(4) unfolding sound_def network_inv_def by fastforce

text \<open>The delivered votes of honest validators were cast.\<close>

lemma authentic_cast:
  assumes inv: "network_inv C N I" and auth: "authentic C I m sig q" and q: "q \<in> nt_honest C"
    and ver: "nt_verify C (message_bytes (nt_sha256d C) (nt_domain C) m) sig q"
  shows "m = Prevote_Msg h r tid \<Longrightarrow> cast_prevote (logs N q) h r tid" and "m = Vote_Msg h r tid \<Longrightarrow> cast_precommit (logs N q) h r tid"
proof -
  have "m \<in> I q" by (rule authentic_issued [OF auth q ver])
  moreover have "issued_cast (logs N q) (I q)" using inv q by (simp add: network_inv_def)
  ultimately show "m = Prevote_Msg h r tid \<Longrightarrow> cast_prevote (logs N q) h r tid" "m = Vote_Msg h r tid \<Longrightarrow> cast_precommit (logs N q) h r tid"
    by (auto simp: issued_cast_def)
qed

lemma authentic_genuine:
  assumes inv: "network_inv C N I"
  shows "authentic C I (vote_msg v) (vote_signature v) (vote_validator_pubkey v) \<Longrightarrow> vote_genuine C (logs N) v"
    and "authentic C I (prevote_msg v) (vote_signature v) (vote_validator_pubkey v) \<Longrightarrow> prevote_genuine C (logs N) v"
    and "authentic_polka C I qc \<Longrightarrow> polka_genuine C (logs N) qc"
    and "authentic_certificate C I cert \<Longrightarrow> cert_genuine C (logs N) cert"
  using authentic_cast [OF inv]
  by (auto simp: vote_genuine_def prevote_genuine_def vote_msg_def prevote_msg_def polka_genuine_def cert_genuine_def
      authentic_polka_def authentic_certificate_def)

lemma queued_cast:
  assumes "sound C W p env n"
  shows "issued_cast (own_log n) (queued n)"
  using memory_okD(4) [OF node_invD(3) [OF soundD(5) [OF assms]]]
  by (auto simp: issued_cast_def queued_def vote_msg_def)

lemma recorded_cast:
  assumes "sound C W p env n"
  shows "issued_cast (own_log n) (recorded h n)"
proof -
  note mem = node_invD(3) [OF soundD(5) [OF assms]]
  show ?thesis
    using own_prevotes_cast [OF mem, where h = h] memory_okD(3) [OF mem, of h]
    by (auto simp: issued_cast_def recorded_def split: option.splits)
qed

lemma released_cast:
  "\<forall>x. v = Some x \<longrightarrow> vote_cast p n x \<Longrightarrow> issued_cast (own_log n) (vote_msg ` set_option v)"
  "\<forall>x. v = Some x \<longrightarrow> prevote_cast p n x \<Longrightarrow> issued_cast (own_log n) (prevote_msg ` set_option v)"
  "\<forall>x \<in> set vs. vote_cast p n x \<Longrightarrow> issued_cast (own_log n) (vote_msg ` set vs)"
  by (auto simp: issued_cast_def vote_msg_def prevote_msg_def vote_cast_def prevote_cast_def)

text \<open>Every step of an honest node keeps its invariant, and issues only votes that it has cast.\<close>

lemma node_step_ok:
  assumes inv: "network_inv C N I" and net: "net_ok C" and p: "p \<in> nt_honest C" and env: "env_of C p env"
    and fin: "nd_finalized_height (N p) < - 66" and disk: "fst (dk_finalized (nd_disk (N p))) < - 66"
    and "node_step C I env (N p) M n'"
  shows "step_ok C (logs N) p env (N p) n' \<and> issued_cast (own_log n') M"
proof -
  have s: "sound C (logs N) p env (N p)" by (rule network_sound [OF inv net p env])
  have fin2: "nd_finalized_height (N p) < - 2" using fin by (rule less_trans) simp
  note genuine = authentic_genuine [OF inv]
  note release = released_cast queued_cast [OF step_ok_sound] recorded_cast [OF step_ok_sound]
  have core: ?thesis if "core n' = core (N p)" "M = {}" using step_ok_core [OF s that(1)] that(2) by simp
  from assms(7) show ?thesis
  proof cases
    case (Propose msg from_network peer out v)
    from handle_propose_section_ok [OF s fin2 _ Propose(2)] Propose(3) genuine(3)
    have "step_ok C (logs N) p env (N p) n' \<and> (\<forall>x. v = Some x \<longrightarrow> prevote_cast p n' x)" by simp
    then show ?thesis using release by (auto simp: Propose(1) issued_cast_Un)
  next
    case (Prevote vote from_network out relay v)
    from handle_prevote_section_ok [OF s fin2 _ Prevote(2)] genuine(2) [OF Prevote(3)]
    have "step_ok C (logs N) p env (N p) n' \<and> (\<forall>x. v = Some x \<longrightarrow> vote_cast p n' x)" by simp
    then show ?thesis using release by (auto simp: Prevote(1) issued_cast_Un)
  next
    case (Precommit vote from_network out relay)
    from handle_vote_section_ok [OF s fin2 _ Precommit(2)] genuine(1) [OF Precommit(3)]
    have "step_ok C (logs N) p env (N p) n'" by simp
    then show ?thesis using release by (simp add: Precommit(1))
  next
    case (Timeout_Vote tv from_network out relay)
    then show ?thesis using core handle_timeout_vote_core by blast
  next
    case (Round_Timeout advance_alone tv_out)
    then show ?thesis using core round_timeout_core by (metis snd_conv)
  next
    case (Build h r built proposal)
    then show ?thesis using build_proposal_ok [OF s] by auto
  next
    case (Block q certificate lanes_ok from_network ok)
    from handle_frontier_block_ok [OF s fin2 _ Block(2)] Block(3) genuine(4)
    have "step_ok C (logs N) p env (N p) n'" by simp
    then show ?thesis using release by (simp add: Block(1))
  next
    case (Flush votes blocks)
    then show ?thesis using flush_pending_ok [OF s Flush(2)] released_cast(3) [of votes p n'] by simp
  next
    case (Retry tips msgs)
    then show ?thesis using core retry_core by (metis snd_conv)
  next
    case (Rebroadcast h)
    then show ?thesis using step_ok_refl [OF s] recorded_cast [OF s] by simp
  next
    case Reset
    then show ?thesis using reset_round_state_ok [OF s] release by auto
  next
    case (Restart limits timeout_limits d ok)
    have "fst (dk_finalized d) < - 66" using Restart(3) disk by (simp add: damaged_def)
    from start_node_ok [OF s Restart(3) this Restart(4) Restart(2)] show ?thesis
      using release(5) by (auto simp: Restart(1))
  qed
qed

text \<open>The others keep theirs while one node moves.\<close>

lemma node_inv_world:
  assumes "node_inv C W q n" and "\<And>x. W x \<subseteq> W' x" and laws: "vote_laws C (world W' q n) q"
  shows "node_inv C W' q n"
proof -
  have "counts_ok C (world W' q n) n"
    by (rule counts_ok_mono [OF node_invD(2) [OF assms(1)]]) (use assms(2) in \<open>simp add: world_def\<close>)
  then show ?thesis using assms(1) laws by (simp add: node_inv_def node_pre_def)
qed

lemma genesis_inv:
  assumes fresh: "\<And>p. \<exists>limits timeout_limits fs. N p = fresh_node limits timeout_limits (genesis_disk C fs)"
  shows "network_inv C N (\<lambda>p. {})"
proof -
  have "node_inv C (logs N) p (N p)" for p
  proof -
    obtain limits timeout_limits fs where N: "N p = fresh_node limits timeout_limits (genesis_disk C fs)" using fresh by blast
    have logs: "logs N q = {Finalized_Tip 0 (nt_genesis C)}" for q
    proof -
      obtain limits timeout_limits fs where "N q = fresh_node limits timeout_limits (genesis_disk C fs)" using fresh by blast
      then show ?thesis by (simp add: logs_def own_log_def fresh_node_def genesis_disk_def)
    qed
    have none: "\<not> cast_prevote {} h r tid" "\<not> cast_precommit {} h r tid" for h r tid
      by (simp_all add: cast_prevote_def cast_precommit_def)
    have log: "own_log (N p) = {Finalized_Tip 0 (nt_genesis C)}" using logs [of p] by (simp add: logs_def)
    have "vote_laws C (logs N) p" unfolding vote_laws_def logs by (simp add: none)
    moreover have "counts_ok C (logs N) (N p)"
      by (simp add: N counts_ok_def fresh_node_def genuine_def fc_contains_def fc_new_def)
    moreover have "memory_ok C p (N p)" by (simp add: N memory_ok_def fresh_node_def)
    moreover have "disk_ok (nd_disk (N p))"
      by (simp add: N fresh_node_def genesis_disk_def disk_ok_def sealed_row_def none)
    moreover have "memory_covers (N p)" unfolding memory_covers_def log by (simp add: row_covers_def none)
    ultimately show ?thesis
      by (simp add: node_inv_def node_pre_def) (simp add: N fresh_node_def genesis_disk_def synced_def)
  qed
  then show ?thesis by (simp add: network_inv_def)
qed

lemma run_inv:
  assumes net: "net_ok C" and "run C N I"
  shows "network_inv C N I"
  using assms(2)
proof (induction rule: run.induct)
  case (Genesis N)
  then show ?case by (rule genesis_inv)
next
  case (Node_Step N I p env M n')
  have step: "step_ok C (logs N) p env (N p) n'" and cast: "issued_cast (own_log n') M"
    using node_step_ok [OF Node_Step.IH net Node_Step.hyps(2-6)] by auto
  have s: "sound C (logs N) p env n'" by (rule step_ok_sound [OF step])
  have grow: "logs N q \<subseteq> world (logs N) p n' q" for q using step_ok_world [OF step, of q] by simp
  show ?case
    unfolding network_inv_def logs_upd
  proof (intro ballI conjI)
    fix q assume q: "q \<in> nt_honest C"
    have old: "node_inv C (logs N) q (N q)" "issued_cast (logs N q) (I q)"
      using Node_Step.IH q by (simp_all add: network_inv_def)
    show "node_inv C (world (logs N) p n') q ((N(p := n')) q)"
    proof (cases "q = p")
      case True
      have "vote_laws C (world (world (logs N) p n') p n') p" using s q True by (simp add: sound_def world_def)
      then show ?thesis using node_inv_world [OF soundD(5) [OF s] grow] True by simp
    next
      case False
      have "vote_laws C (world (logs N) p n') q" using s q by (simp add: sound_def)
      moreover have "world (world (logs N) p n') q (N q) = world (logs N) p n'"
        using False by (auto simp: world_def logs_def fun_eq_iff)
      ultimately show ?thesis using node_inv_world [OF old(1) grow] False by simp
    qed
    show "issued_cast (world (logs N) p n' q) ((I(p := I p \<union> M)) q)"
      using issued_cast_mono [OF old(2) grow [of q]] cast by (cases "q = p") (simp_all add: issued_cast_Un)
  qed
next
  case (Other_Signature N I m p)
  then show ?case by (auto simp: network_inv_def issued_cast_def)
qed

subsection \<open>Agreement\<close>

text \<open>
  C1. Agreement. In every run in which less than a third of each committee is faulty and signatures are
  not forged, whatever transitions two honest nodes record as finalized at one height are the same. The
  tip of a node that has not stopped is one of those it has recorded. Crashes, failed writes,
  whether found again or lost, damaged copies of the vote record and every order and content of messages are part of the run.
\<close>

theorem agreement:
  assumes "net_ok C" and "run C N I" and "p \<in> nt_honest C" and "q \<in> nt_honest C"
    and "Finalized_Tip h a \<in> set (dk_log (nd_disk (N p)))" and "Finalized_Tip h b \<in> set (dk_log (nd_disk (N q)))"
  shows "a = b \<and> (\<not> safety_storage_failed (N p) \<longrightarrow>
    Finalized_Tip (nd_finalized_height (N p)) (nd_finalized_id (N p)) \<in> set (dk_log (nd_disk (N p))))"
proof
  have inv: "network_inv C N I" by (rule run_inv [OF assms(1,2)])
  have lawful: "lawful C (logs N)" using inv node_invD(4) unfolding lawful_def network_inv_def by fastforce
  show "a = b"
    by (rule tips_agree [OF _ lawful assms(3,4)]) (use assms in \<open>simp_all add: net_ok_def logs_def own_log_def\<close>)
  have node: "node_inv C (logs N) p (N p)" using inv assms(3) by (simp add: network_inv_def)
  show "\<not> safety_storage_failed (N p) \<longrightarrow>
      Finalized_Tip (nd_finalized_height (N p)) (nd_finalized_id (N p)) \<in> set (dk_log (nd_disk (N p)))"
    using node_invD(6) [OF node] disk_okD(1) [OF node_invD(5) [OF node]] by (auto simp: synced_def)
qed

text \<open>
  C2. An honest validator never contradicts itself. Over a whole run with crashes, restarts and damage to
  its disk it issues at most one prevote and at most one precommit per height and round, and each vote
  was in its durable record before it left the node.
\<close>

theorem no_equivocation:
  assumes "net_ok C" and "run C N I" and "p \<in> nt_honest C"
  shows "(Prevote_Msg h r a \<in> I p \<and> Prevote_Msg h r b \<in> I p \<longrightarrow> a = b)
    \<and> (Vote_Msg h r a \<in> I p \<and> Vote_Msg h r b \<in> I p \<longrightarrow> a = b)
    \<and> (Prevote_Msg h r a \<in> I p \<longrightarrow> (\<exists>st. Safety_Row h st \<in> set (dk_log (nd_disk (N p))) \<and> map_of (cs_prevotes st) r = Some a))
    \<and> (Vote_Msg h r a \<in> I p \<longrightarrow> (\<exists>st. Safety_Row h st \<in> set (dk_log (nd_disk (N p))) \<and> cs_lock st = Some (a, r)))"
proof -
  have inv: "network_inv C N I" by (rule run_inv [OF assms(1,2)])
  have lawful: "lawful C (logs N)" using inv node_invD(4) unfolding lawful_def network_inv_def by fastforce
  then have laws: "vote_laws C (logs N) p" using assms(3) by (simp add: lawful_def)
  have cast: "issued_cast (logs N p) (I p)" using inv assms(3) by (simp add: network_inv_def)
  then have pv: "Prevote_Msg h r x \<in> I p \<Longrightarrow> cast_prevote (logs N p) h r x"
    and pc: "Vote_Msg h r x \<in> I p \<Longrightarrow> cast_precommit (logs N p) h r x" for x by (auto simp: issued_cast_def)
  have "a = b" if votes: "Vote_Msg h r a \<in> I p" "Vote_Msg h r b \<in> I p"
  proof -
    obtain x y where "is_parent (logs N p) h x" "polka C (logs N) x h r a" "is_parent (logs N p) h y" "polka C (logs N) y h r b"
      using vote_lawsD(3) [OF laws pc [OF votes(1)]] vote_lawsD(3) [OF laws pc [OF votes(2)]] by blast
    moreover from this have "x = y" using vote_lawsD(6) [OF laws] by (auto simp: is_parent_def)
    ultimately show ?thesis using one_polka_per_round [OF _ lawful] assms(1) by (auto simp: net_ok_def)
  qed
  moreover have "a = b" if "Prevote_Msg h r a \<in> I p" "Prevote_Msg h r b \<in> I p"
    using vote_lawsD(1) [OF laws] pv that by blast
  ultimately show ?thesis using pv [of a] pc [of a] by (auto simp: cast_prevote_def cast_precommit_def logs_def own_log_def)
qed

text \<open>
  C3. A restart loses no vote. A node that starts from its disk, with any of the copies of the record
  damaged or gone, either abstains at the next height or has in memory every prevote it ever issued
  there, and a lock at least as recent as every precommit it issued there. A failed start leaves a node
  that has stopped.
\<close>

theorem restart_remembers:
  assumes "net_ok C" and "run C N I" and "p \<in> nt_honest C" and "env_of C p env"
    and "damaged (nd_disk (N p)) d" and "fst (dk_finalized d) < - 66" and "en_unsafe_discard_vote_lock_height env = None"
    and "start_node env limits timeout_limits d = (ok, n')" and "nd_finalized_height n' < h"
  shows "(\<not> ok \<longrightarrow> safety_storage_failed n') \<and> (safety_storage_failed n' \<or> h \<in> nd_abstain_heights n'
    \<or> (Prevote_Msg h r a \<in> I p \<longrightarrow> map_of (nd_local_prevotes n') (h, r) = Some a)
      \<and> (Vote_Msg h r a \<in> I p \<longrightarrow> (\<exists>b r'. map_of (nd_local_vote_locks n') h = Some (b, r') \<and> (r < r' \<or> r = r' \<and> a = b))))"
proof
  have inv: "network_inv C N I" by (rule run_inv [OF assms(1,2)])
  have step: "step_ok C (logs N) p env (N p) n'" and failed: "\<not> ok \<longrightarrow> safety_storage_failed n'"
    using start_node_ok [OF network_sound [OF inv assms(1,3,4)] assms(5-8)] by blast+
  show "\<not> ok \<longrightarrow> safety_storage_failed n'" by (rule failed)
  have node: "node_inv C (logs N) p n'" by (rule soundD(5) [OF step_ok_sound [OF step]])
  have grow: "logs N p \<subseteq> own_log n'" using step_ok_world [OF step, of p] by simp
  have cast: "issued_cast (own_log n') (I p)"
    by (rule issued_cast_mono [OF _ grow]) (use inv assms(3) in \<open>simp add: network_inv_def\<close>)
  show "safety_storage_failed n' \<or> h \<in> nd_abstain_heights n'
    \<or> (Prevote_Msg h r a \<in> I p \<longrightarrow> map_of (nd_local_prevotes n') (h, r) = Some a)
      \<and> (Vote_Msg h r a \<in> I p \<longrightarrow> (\<exists>b r'. map_of (nd_local_vote_locks n') h = Some (b, r') \<and> (r < r' \<or> r = r' \<and> a = b)))"
  proof (cases "safety_storage_failed n' \<or> h \<in> nd_abstain_heights n'")
    case False
    then have "row_covers (own_log n') h (consensus_safety_state n' h)"
      using node_invD(7) [OF node] assms(9) by (simp add: memory_covers_def)
    moreover have "map_of (cs_prevotes (consensus_safety_state n' h)) r = map_of (nd_local_prevotes n') (h, r)"
      by (rule row_backed(4) [OF node_invD(3) [OF node]])
    moreover have "Prevote_Msg h r a \<in> I p \<Longrightarrow> cast_prevote (own_log n') h r a" "Vote_Msg h r a \<in> I p \<Longrightarrow> cast_precommit (own_log n') h r a"
      using cast by (simp_all add: issued_cast_def)
    ultimately show ?thesis unfolding row_covers_def css_lock by metis
  qed blast
qed

subsection \<open>A run of two validators\<close>

text \<open>
  A concrete run: two validators, a toy hash and a toy signature. Both receive a proposal for height 1
  in round 2 with a timeout certificate, prevote, lock, precommit, and finalize from the certificate.
\<close>

definition demo_hash :: "bytes \<Rightarrow> hash32" where
  "demo_hash b = take 32 (b @ zero_hash)"

definition demo_committee :: FinalizedCommitteeCheckpoint where
  "demo_committee = demo_checkpoint\<lparr>cp_ordered_members := [[1], [2]], cp_ordered_ticket_hashes := [[5], [4]],
     cp_ordered_ticket_nonces := [0, 0]\<rparr>"

definition demo_net :: Net where
  "demo_net = \<lparr>nt_sha256d = demo_hash, nt_verify = (\<lambda>m s p. s = p @ m), nt_domain = zero_hash, nt_epoch_blocks = 32,
     nt_checkpoints = (\<lambda>_. [(1, demo_committee)]), nt_genesis = zero_hash, nt_honest = {[1], [2]}\<rparr>"

definition demo_env :: "pubkey32 \<Rightarrow> NodeEnv" where
  "demo_env p = \<lparr>en_sha256d = demo_hash, en_verify = (\<lambda>m s p. s = p @ m), en_sign = (\<lambda>m. Some (p @ m)), en_pub = p,
     en_domain = zero_hash, en_epoch_blocks = 32, en_checkpoints = (\<lambda>_. [(1, demo_committee)]), en_validators = (\<lambda>_. []),
     en_past_committee = (\<lambda>_. []), en_validate = (\<lambda>_ _. None), en_ingress_status = (\<lambda>_ _. Ready),
     en_records_stored = (\<lambda>_. True), en_executes = (\<lambda>_ _. True), en_applies = (\<lambda>_ _. True), en_now_unix = 0, en_now_ms = 0,
     en_running = True, en_rate_ok = True, en_muted = False, en_repair_or_paused = False,
     en_unsafe_discard_vote_lock_height = None\<rparr>"

definition demo_block :: FrontierProposal where
  "demo_block = \<lparr>fpr_transition = sample_transition\<lparr>ft_height := 1, ft_round := 2, ft_timestamp := 0, ft_prev_finalized_hash := zero_hash\<rparr>,
     fpr_ordered_records = []\<rparr>"

definition demo_tid :: hash32 where
  "demo_tid = transition_id demo_hash (fpr_transition demo_block)"

definition demo_timeout :: TimeoutCertificate where
  "demo_timeout = \<lparr>tc_height = 1, tc_round = 1, tc_signatures = map (\<lambda>p. \<lparr>fs_validator_pubkey = p,
     fs_signature = p @ timeout_vote_signing_message demo_hash zero_hash 1 1\<rparr>) [[1], [2]]\<rparr>"

definition demo_propose :: ProposeMsg where
  "demo_propose = \<lparr>pm_height = 1, pm_round = 2, pm_prev_finalized_hash = zero_hash,
     pm_frontier_proposal_bytes = fpr_serialize demo_block, pm_pol = None, pm_justify_tc = Some demo_timeout,
     pm_proposer_signature = [2] @ propose_signing_message demo_hash zero_hash 1 2 demo_tid None\<rparr>"

definition demo_start :: Node where
  "demo_start = fresh_node demo_limits \<lparr>tl_max_rounds_per_height = 64, tl_max_votes_global = 64\<rparr> (genesis_disk demo_net [])"

definition demo_vote_of :: "(u64 \<Rightarrow> u32 \<Rightarrow> hash32 \<Rightarrow> bytes) \<Rightarrow> pubkey32 \<Rightarrow> Vote" where
  "demo_vote_of msg p = \<lparr>vote_height = 1, vote_round = 2, vote_frontier_transition_id = demo_tid, vote_validator_pubkey = p,
     vote_signature = p @ msg 1 2 demo_tid\<rparr>"

definition demo_prevote :: "pubkey32 \<Rightarrow> Vote" where
  "demo_prevote = demo_vote_of (prevote_signing_message demo_hash zero_hash)"

definition demo_precommit :: "pubkey32 \<Rightarrow> Vote" where
  "demo_precommit = demo_vote_of (vote_signing_message demo_hash zero_hash)"

definition demo_certificate :: FinalityCertificate where
  "demo_certificate = make_finality_certificate 1 2 demo_tid 2 [[1], [2]]
     [\<lparr>fs_validator_pubkey = [1], fs_signature = vote_signature (demo_precommit [1])\<rparr>,
      \<lparr>fs_validator_pubkey = [2], fs_signature = vote_signature (demo_precommit [2])\<rparr>]"

lemma demo_size: "length (ft_serialize (fpr_transition demo_block)) < 1000" "length (fpr_serialize demo_block) < 1000"
  by code_simp+

lemma wf_demo_block: "wf_proposal demo_block"
  using demo_size(1)
  by (simp add: wf_proposal_def) (simp add: demo_block_def wf_transition_def sample_transition_def wf_vector_def INGRESS_LANE_COUNT_def
      MAX_COMMITTEE_def wf_time_signature_def kBlsSignatureBytes_def wf_settlement_def st_serialize_def wr_vec_def wr_varint_def
      encode_uleb128.simps)

lemma demo_parse: "fpr_parse (fpr_serialize demo_block) = Some demo_block"
  unfolding fpr_parse_def by (rule c_proposal.parse_exact_enc [OF wf_demo_block])

lemma demo_fields [simp]: "ft_height (fpr_transition demo_block) = 1" "ft_round (fpr_transition demo_block) = 2"
   "ft_prev_finalized_hash (fpr_transition demo_block) = zero_hash" "ft_timestamp (fpr_transition demo_block) = 0"
   "transition_id demo_hash (fpr_transition demo_block) = demo_tid"
  by (simp_all add: demo_block_def sample_transition_def demo_tid_def)

lemma demo_env_simps [simp]:
  "en_sha256d (demo_env p) = demo_hash" "en_verify (demo_env p) m s q = (s = q @ m)" "en_sign (demo_env p) m = Some (p @ m)"
  "en_pub (demo_env p) = p" "en_domain (demo_env p) = zero_hash" "en_epoch_blocks (demo_env p) = 32"
  "en_checkpoints (demo_env p) x = [(1, demo_committee)]" "en_validators (demo_env p) x = []"
  "en_validate (demo_env p) x b = None" "en_ingress_status (demo_env p) x b = Ready" "en_records_stored (demo_env p) t"
  "en_executes (demo_env p) x b" "en_applies (demo_env p) x b" "en_now_unix (demo_env p) = 0" "en_now_ms (demo_env p) = 0"
  "en_running (demo_env p)" "en_rate_ok (demo_env p)" "\<not> en_muted (demo_env p)"
  by (simp_all add: demo_env_def)

lemma demo_leader: "canonical_leader_for_height_round demo_hash [] [(1, demo_committee)] 32 1 2 = Some (Some [2])"
  by code_simp

lemma demo_members: "canonical_committee_for_height_round [(1, demo_committee)] 32 1 r = [[1], [2]]"
  by (simp add: canonical_committee_for_height_round_def committee_epoch_start_def checkpoint_committee_for_round_def demo_committee_def)

lemma demo_committees [simp]:
  "nd_finalized_height n = 0 \<Longrightarrow> committee_for_height_round (demo_env p) n 1 r = [[1], [2]]"
  "canonical_committee (demo_env p) n 1 r = [[1], [2]]"
  by (simp_all add: committee_for_height_round_def canonical_committee_def demo_members)

lemma demo_check:
  assumes "nd_finalized_height n = 0" and "nd_finalized_id n = zero_hash" and "nd_current_round n \<le> 2"
  shows "check_propose (demo_env p) demo_propose True n = Inr (demo_block, [])"
  using assms
  by (simp add: check_propose_def demo_propose_def demo_parse leader_for_next_height_def demo_leader check_justification_def
      verify_timeout_certificate_def demo_timeout_def quorum_threshold_def Let_def not_less) (simp add: word_le_nat_alt)


lemma demo_start_simps [simp]:
  "nd_finalized_height demo_start = 0" "nd_finalized_id demo_start = zero_hash" "nd_current_round demo_start = 0"
  "nd_candidates demo_start = []" "nd_candidate_block_sizes demo_start = []" "nd_votes demo_start = vt_new demo_limits"
  "nd_prevotes demo_start = vt_new demo_limits" "nd_local_prevotes demo_start = []" "nd_local_vote_locks demo_start = []"
  "nd_local_timed_out_rounds demo_start = []" "nd_abstain_heights demo_start = {}" "nd_valid_polka_by_height demo_start = []"
  "nd_seen_timeout_votes demo_start = []" "nd_proposed_in_round demo_start = {}" "nd_local_vote_reservations demo_start = {}"
  "nd_prevote_verify_cache demo_start = fc_new 20000" "nd_invalid_prevote_verify_cache demo_start = fc_new 20000"
  "nd_equivocators demo_start = {}" "\<not> nd_safety_storage_failed demo_start"
  "dk_fenced (nd_disk demo_start) = False" "dk_faults (nd_disk demo_start) = []" "nd_pending_local_precommits demo_start = []"
  by (simp_all add: demo_start_def fresh_node_def genesis_disk_def demo_net_def)

definition demo_row :: ConsensusSafetyState where
  "demo_row = \<lparr>cs_lock = None, cs_valid_polka = None, cs_prevotes = [(2, demo_tid)]\<rparr>"

definition demo_node1 :: Node where
  "demo_node1 = demo_start\<lparr>nd_current_round := 2, nd_candidate_block_sizes := [(demo_tid, length (fpr_serialize demo_block))],
     nd_candidates := [(demo_tid, demo_block)], nd_local_prevotes := [((1, 2), demo_tid)],
     nd_disk := stage_consensus_safety_state 1 demo_row (nd_disk demo_start)\<rparr>"

lemma demo_prevoting:
  assumes "p \<in> {[1], [2]}"
  shows "handle_propose_section (demo_env p) demo_propose True 0 demo_start = Some (Accepted, Some (demo_prevote p), demo_node1)"
proof -
  define n where "n = demo_start\<lparr>nd_current_round := 2, nd_candidate_block_sizes := [(demo_tid, length (fpr_serialize demo_block))],
     nd_candidates := [(demo_tid, demo_block)]\<rparr>"
  have "store_candidate (demo_env p) demo_propose demo_block [] demo_start = Inr n"
    using demo_size(2)
    by (simp add: store_candidate_def demo_propose_def n_def prune_caches_def Let_def kMaxCandidateBlocks_def kMaxCandidateBlockBytes_def)
  moreover have "on_candidate_body (demo_env p) (fpr_transition demo_block) n = Some n"
  proof -
    have none: "vt_signatures_for (nd_prevotes n) 1 2 demo_tid = []" "vt_signatures_for (nd_votes n) 1 2 demo_tid = []"
      "nd_current_round n = 2" "nd_finalized_height n = 0"
      by (simp_all add: n_def vt_signatures_for_def vt_new_def)
    have "on_prevotes_changed (demo_env p) demo_tid 1 2 n = (None, n)"
      by (simp add: on_prevotes_changed_def verify_polka_def make_quorum_certificate_def none quorum_threshold_def)
    moreover have "certain_miss (demo_env p) demo_tid 1 2 n"
      by (simp add: certain_miss_def none quorum_threshold_def)
    then have "snd (finalize_if_quorum (demo_env p) demo_tid 1 2 n) = n"
      by (simp add: finalize_if_quorum_def split: option.split)
    moreover have "rounds_between 2 2 = [2]" by code_simp
    ultimately show ?thesis by (simp add: on_candidate_body_def none)
  qed
  moreover have "vote_on_candidate (demo_env p) demo_propose demo_block 0 n = (Accepted, Some (demo_prevote p), demo_node1)"
    using assms
    by (simp add: vote_on_candidate_def n_def demo_propose_def is_committee_member_for_def local_vote_round_floor_def can_prevote_def
        abstaining_at_height_def sign_consensus_def safety_storage_failed_def record_local_prevote_def
        persist_consensus_safety_state_def persist_batch_def write_batch_durable_def own_vote_def demo_prevote_def demo_vote_of_def
        demo_node1_def consensus_safety_state_def prevotes_at_def demo_row_def)
  moreover have "pm_height demo_propose = 1" "nd_finalized_height n = 0" by (simp_all add: demo_propose_def n_def)
  ultimately show ?thesis
    by (simp add: handle_propose_section_def demo_check)
qed

definition demo_node2 :: Node where
  "demo_node2 = demo_node1\<lparr>nd_prevotes := snd (vt_add_vote (demo_prevote [1]) (vt_new demo_limits)),
     nd_prevote_verify_cache := fc_insert (verify_key_of (demo_prevote [1])) (fc_new 20000)\<rparr>"

lemma demo_node1_simps [simp]:
  "nd_finalized_height demo_node1 = 0" "nd_finalized_id demo_node1 = zero_hash" "nd_current_round demo_node1 = 2"
  "nd_prevotes demo_node1 = vt_new demo_limits" "nd_votes demo_node1 = vt_new demo_limits"
  "nd_prevote_verify_cache demo_node1 = fc_new 20000" "nd_invalid_prevote_verify_cache demo_node1 = fc_new 20000"
  "nd_candidates demo_node1 = [(demo_tid, demo_block)]" "nd_equivocators demo_node1 = {}"
  "nd_local_vote_reservations demo_node1 = {}" "nd_local_timed_out_rounds demo_node1 = []" "nd_local_vote_locks demo_node1 = []"
  "nd_local_prevotes demo_node1 = [((1, 2), demo_tid)]" "nd_abstain_heights demo_node1 = {}" "nd_valid_polka_by_height demo_node1 = []"
  "\<not> nd_safety_storage_failed demo_node1" "\<not> dk_fenced (nd_disk demo_node1)" "dk_faults (nd_disk demo_node1) = []"
  "nd_pending_local_precommits demo_node1 = []" "dk_finalized (nd_disk demo_node1) = (0, zero_hash)"
  by (simp_all add: demo_node1_def stage_consensus_safety_state_def Let_def)
     (simp add: demo_start_def fresh_node_def genesis_disk_def demo_net_def)

lemma demo_first_prevote:
  "handle_prevote_section (demo_env p) (demo_prevote [1]) True demo_node1 = (Accepted, True, None, demo_node2)"
  by (simp add: handle_prevote_section_def demo_prevote_def demo_vote_of_def is_committee_member_for_def check_vote_signature_def
      fc_contains_def fc_new_def verify_key_of_def demo_vote_defs on_prevotes_changed_def verify_polka_def make_quorum_certificate_def
      vt_signatures_for_def quorum_threshold_def sig_list_def note_equivocation_def demo_node2_def)

lemma demo_second_prevote:
  assumes "p \<in> {[1], [2]}"
  shows "\<exists>n'. handle_prevote_section (demo_env p) (demo_prevote [2]) True demo_node2 = (Accepted, True, Some (demo_precommit p), n')
    \<and> nd_finalized_height n' = 0 \<and> nd_finalized_id n' = zero_hash \<and> dk_finalized (nd_disk n') = (0, zero_hash)
    \<and> \<not> safety_storage_failed n' \<and> dk_faults (nd_disk n') = [] \<and> nd_pending_local_precommits n' = []"
  using assms
  by (simp add: handle_prevote_section_def demo_prevote_def demo_vote_of_def is_committee_member_for_def check_vote_signature_def
      fc_contains_def fc_new_def fc_insert_def verify_key_of_def demo_vote_defs on_prevotes_changed_def verify_polka_def make_quorum_certificate_def
      vt_signatures_for_def quorum_threshold_def sig_list_def note_equivocation_def demo_node2_def vote_round_covers_transition_def
      store_valid_polka_def persist_batch_def write_batch_durable_def precommit_on_polka_def local_vote_round_floor_def
      abstaining_at_height_def sign_consensus_def safety_storage_failed_def lock_on_polka_def persist_consensus_safety_state_def
      stage_consensus_safety_state_def consensus_safety_state_def demo_precommit_def Let_def)


lemma publish_disk: "nd_disk (publish_finalized env t r c s n) = nd_disk n"
   "nd_pending_local_precommits (publish_finalized env t r c s n) = nd_pending_local_precommits n"
  by (simp_all add: publish_finalized_def forget_consensus_safety_state_def Let_def)

lemma demo_finalize:
  assumes "nd_finalized_height n = 0" and "nd_finalized_id n = zero_hash" and "\<not> safety_storage_failed n" and "dk_faults (nd_disk n) = []"
  shows "\<exists>n'. handle_frontier_block (demo_env p) demo_block (Some demo_certificate) True True n = Some (True, n')
     \<and> Finalized_Tip 1 demo_tid \<in> set (dk_log (nd_disk n')) \<and> nd_pending_local_precommits n' = nd_pending_local_precommits n"
proof -
  have "verify_finality_certificate_for_frontier (demo_env p) demo_certificate (fpr_transition demo_block) = Inr (fc_signatures demo_certificate)"
    by (simp add: verify_finality_certificate_for_frontier_def demo_certificate_def make_finality_certificate_def demo_precommit_def
       demo_vote_of_def vote_round_covers_transition_def quorum_threshold_def canonicalize_finality_signatures_def Let_def)
  moreover have "record_extends_tip (demo_env p) n demo_block" using assms by (simp add: record_extends_tip_def)
  moreover have "\<exists>n'. apply_finalized_frontier_effects (demo_env p) demo_block 2 (fc_signatures demo_certificate) [[1], [2]] n = (True, n')
     \<and> Finalized_Tip 1 demo_tid \<in> set (dk_log (nd_disk n')) \<and> nd_pending_local_precommits n' = nd_pending_local_precommits n"
    using assms calculation
    by (simp add: apply_finalized_frontier_effects_def demo_certificate_def make_finality_certificate_def canonicalize_finality_signatures_def
        quorum_threshold_def persist_batch_def write_batch_durable_def safety_storage_failed_def publish_disk)
  ultimately show ?thesis
   using assms by (auto simp add: handle_frontier_block_def Let_def demo_certificate_def make_finality_certificate_def quorum_threshold_def)
qed

lemma demo_net_ok: "net_ok demo_net"
proof -
  have "comm demo_net par h \<in> {[], [[1], [2]]}" for par h
    by (auto simp: comm_def demo_net_def canonical_committee_for_height_round_def checkpoint_committee_for_round_def demo_committee_def)
  moreover have "set (comm demo_net par h) - nt_honest demo_net = {}" for par h
    using calculation [of par h] by (auto simp: demo_net_def)
  ultimately show ?thesis unfolding net_ok_def few_faults_def by (metis One_nat_def Suc_1 card.empty insertE length_0_conv
      length_Cons length_greater_0_conv list.size(3) mult_0_right n_not_Suc_n singletonD)
qed

lemma demo_env_of: "env_of demo_net p (demo_env p)"
  by (simp add: env_of_def demo_net_def demo_env_def)

lemma demo_authentic:
  assumes "I q \<subseteq> {Prevote_Msg 1 2 demo_tid, Vote_Msg 1 2 demo_tid}" and "m \<in> I q"
  shows "authentic demo_net I m s q"
proof -
  have "demo_hash (message_preimage zero_hash (Prevote_Msg 1 2 demo_tid)) \<noteq> demo_hash (message_preimage zero_hash (Vote_Msg 1 2 demo_tid))"
    by (simp add: demo_hash_def message_preimage_def ascii_def)
  then have "\<forall>x \<in> {Prevote_Msg 1 2 demo_tid, Vote_Msg 1 2 demo_tid}. \<forall>y \<in> {Prevote_Msg 1 2 demo_tid, Vote_Msg 1 2 demo_tid}.
      demo_hash (message_preimage zero_hash x) = demo_hash (message_preimage zero_hash y) \<longrightarrow>
      message_preimage zero_hash x = message_preimage zero_hash y" by auto
  then show ?thesis using assms unfolding authentic_def unforged_def no_collision_def by (simp add: demo_net_def) blast
qed

lemma demo_move:
  assumes "run demo_net N I" and "p \<in> {[1], [2]}" and "nd_finalized_height (N p) = 0" and "dk_finalized (nd_disk (N p)) = (0, zero_hash)"
    and "node_step demo_net I (demo_env p) (N p) M n'"
  shows "run demo_net (N(p := n')) (I(p := I p \<union> M))"
  by (rule Node_Step [OF assms(1) _ demo_env_of _ _ assms(5)])
     (use assms(2-4) in \<open>simp_all add: demo_net_def word_less_nat_alt\<close>)

text \<open>One validator prevotes on the proposal.\<close>

lemma demo_propose_run:
  assumes "run demo_net N I" and "p \<in> {[1], [2]}" and "N p = demo_start"
  shows "run demo_net (N(p := demo_node1)) (I(p := I p \<union> {Prevote_Msg 1 2 demo_tid}))"
proof -
  have "node_step demo_net I (demo_env p) demo_start (prevote_msg ` set_option (Some (demo_prevote p)) \<union> queued demo_node1) demo_node1"
    by (rule Propose [OF demo_prevoting [OF assms(2)]]) (simp add: demo_propose_def)
  then have "node_step demo_net I (demo_env p) (N p) {Prevote_Msg 1 2 demo_tid} demo_node1"
    by (simp add: assms(3) queued_def prevote_msg_def demo_prevote_def demo_vote_of_def)
  then show ?thesis
    by (rule demo_move [OF assms(1,2), rotated 2]) (simp_all add: assms(3), simp add: demo_start_def fresh_node_def genesis_disk_def demo_net_def)
qed

text \<open>It counts both prevotes, locks and precommits.\<close>

lemma demo_precommit_run:
  assumes r: "run demo_net N I" and p: "p \<in> {[1], [2]}" and n: "N p = demo_node1"
    and I: "\<And>q. q \<in> {[1], [2]} \<Longrightarrow> Prevote_Msg 1 2 demo_tid \<in> I q"
      "\<And>q. I q \<subseteq> {Prevote_Msg 1 2 demo_tid, Vote_Msg 1 2 demo_tid}"
  shows "\<exists>n'. run demo_net (N(p := n')) (I(p := I p \<union> {Vote_Msg 1 2 demo_tid}))
    \<and> nd_finalized_height n' = 0 \<and> nd_finalized_id n' = zero_hash \<and> dk_finalized (nd_disk n') = (0, zero_hash)
    \<and> \<not> safety_storage_failed n' \<and> dk_faults (nd_disk n') = [] \<and> nd_pending_local_precommits n' = []"
proof -
  have auth: "authentic demo_net I (prevote_msg (demo_prevote q)) (vote_signature (demo_prevote q)) (vote_validator_pubkey (demo_prevote q))"
    if "q \<in> {[1], [2]}" for q
    using demo_authentic [of I q, OF I(2) I(1) [OF that]] by (simp add: prevote_msg_def demo_prevote_def demo_vote_of_def)
  have "node_step demo_net I (demo_env p) (N p) (vote_msg ` set_option None \<union> queued demo_node2) demo_node2"
    unfolding n by (rule Prevote [OF demo_first_prevote auth]) simp
  then have "node_step demo_net I (demo_env p) (N p) {} demo_node2" by (simp add: queued_def demo_node2_def)
  from demo_move [OF r p _ _ this] have r2: "run demo_net (N(p := demo_node2)) I" by (simp add: n)
  obtain n' where n': "handle_prevote_section (demo_env p) (demo_prevote [2]) True demo_node2 = (Accepted, True, Some (demo_precommit p), n')"
    and props: "nd_finalized_height n' = 0" "nd_finalized_id n' = zero_hash" "dk_finalized (nd_disk n') = (0, zero_hash)"
      "\<not> safety_storage_failed n'" "dk_faults (nd_disk n') = []" "nd_pending_local_precommits n' = []"
    using demo_second_prevote [OF p] by blast
  have "node_step demo_net I (demo_env p) demo_node2 (vote_msg ` set_option (Some (demo_precommit p)) \<union> queued n') n'"
    by (rule Prevote [OF n' auth]) simp
  then have "node_step demo_net I (demo_env p) ((N(p := demo_node2)) p) {Vote_Msg 1 2 demo_tid} n'"
    by (simp add: queued_def props(6) vote_msg_def demo_precommit_def demo_vote_of_def)
  from demo_move [OF r2 p _ _ this] have "run demo_net (N(p := n')) (I(p := I p \<union> {Vote_Msg 1 2 demo_tid}))"
    by (simp add: demo_node2_def fun_upd_upd del: fun_upd_apply) (simp add: fun_upd_def)
  with props show ?thesis by blast
qed

text \<open>It finalizes from a certificate with both precommits.\<close>

lemma demo_finalize_run:
  assumes r: "run demo_net N I" and p: "p \<in> {[1], [2]}" and n: "nd_finalized_height (N p) = 0" "nd_finalized_id (N p) = zero_hash"
      "dk_finalized (nd_disk (N p)) = (0, zero_hash)" "\<not> safety_storage_failed (N p)" "dk_faults (nd_disk (N p)) = []"
      "nd_pending_local_precommits (N p) = []"
    and I: "\<And>q. q \<in> {[1], [2]} \<Longrightarrow> Vote_Msg 1 2 demo_tid \<in> I q"
      "\<And>q. I q \<subseteq> {Prevote_Msg 1 2 demo_tid, Vote_Msg 1 2 demo_tid}"
  shows "\<exists>n'. run demo_net (N(p := n')) I \<and> Finalized_Tip 1 demo_tid \<in> set (dk_log (nd_disk n'))"
proof -
  obtain n' where n': "handle_frontier_block (demo_env p) demo_block (Some demo_certificate) True True (N p) = Some (True, n')"
    and log: "Finalized_Tip 1 demo_tid \<in> set (dk_log (nd_disk n'))" and pending: "nd_pending_local_precommits n' = []"
    using demo_finalize [OF n(1,2,4,5)] n(6) by auto
  have "authentic_certificate demo_net I demo_certificate"
    using demo_authentic [of I, OF I(2) I(1)]
    by (auto simp: authentic_certificate_def demo_certificate_def make_finality_certificate_def)
  then have "node_step demo_net I (demo_env p) (N p) (queued n') n'" by (intro Block [OF n']) simp
  from demo_move [OF r p n(1,3) this] log show ?thesis by (auto simp: queued_def pending)
qed

lemma demo_genesis: "run demo_net (\<lambda>p. demo_start) (\<lambda>p. {})"
  by (rule Genesis) (use demo_start_def in blast)

lemma demo_run:
  obtains N I where "run demo_net N I" and "Finalized_Tip 1 demo_tid \<in> set (dk_log (nd_disk (N [1])))"
    and "Finalized_Tip 1 demo_tid \<in> set (dk_log (nd_disk (N [2])))"
    and "Prevote_Msg 1 2 demo_tid \<in> I [1]" and "Vote_Msg 1 2 demo_tid \<in> I [1]"
proof -
  let ?m = "Prevote_Msg 1 2 demo_tid" and ?v = "Vote_Msg 1 2 demo_tid"
  have r1: "run demo_net ((\<lambda>p. demo_start)([1] := demo_node1)) ((\<lambda>p. {})([1] := {?m}))"
    using demo_propose_run [OF demo_genesis, of "[1]"] by simp
  define N2 :: "pubkey32 \<Rightarrow> Node" where "N2 = (\<lambda>p. demo_start)([1] := demo_node1, [2] := demo_node1)"
  define I2 where "I2 = (\<lambda>p :: pubkey32. {} :: signed_message set)([1] := {?m}, [2] := {?m})"
  have r2: "run demo_net N2 I2" using demo_propose_run [OF r1, of "[2]"] by (simp add: N2_def I2_def)
  have "\<exists>n'. run demo_net (N2([1] := n')) (I2([1] := I2 [1] \<union> {?v}))
    \<and> nd_finalized_height n' = 0 \<and> nd_finalized_id n' = zero_hash \<and> dk_finalized (nd_disk n') = (0, zero_hash)
    \<and> \<not> safety_storage_failed n' \<and> dk_faults (nd_disk n') = [] \<and> nd_pending_local_precommits n' = []"
    by (rule demo_precommit_run [OF r2]) (auto simp: N2_def I2_def)
  then obtain a where r3: "run demo_net (N2([1] := a)) (I2([1] := I2 [1] \<union> {?v}))"
    and a: "nd_finalized_height a = 0" "nd_finalized_id a = zero_hash" "dk_finalized (nd_disk a) = (0, zero_hash)"
      "\<not> safety_storage_failed a" "dk_faults (nd_disk a) = []" "nd_pending_local_precommits a = []" by blast
  define N3 where "N3 = N2([1] := a)"
  define I3 where "I3 = I2([1] := I2 [1] \<union> {?v})"
  have "\<exists>n'. run demo_net (N3([2] := n')) (I3([2] := I3 [2] \<union> {?v}))
    \<and> nd_finalized_height n' = 0 \<and> nd_finalized_id n' = zero_hash \<and> dk_finalized (nd_disk n') = (0, zero_hash)
    \<and> \<not> safety_storage_failed n' \<and> dk_faults (nd_disk n') = [] \<and> nd_pending_local_precommits n' = []"
    by (rule demo_precommit_run [OF r3 [folded N3_def I3_def]]) (auto simp: N2_def I2_def N3_def I3_def)
  then obtain b where r4: "run demo_net (N3([2] := b)) (I3([2] := I3 [2] \<union> {?v}))"
    and b: "nd_finalized_height b = 0" "nd_finalized_id b = zero_hash" "dk_finalized (nd_disk b) = (0, zero_hash)"
      "\<not> safety_storage_failed b" "dk_faults (nd_disk b) = []" "nd_pending_local_precommits b = []" by blast
  define N4 where "N4 = N3([2] := b)"
  define I4 where "I4 = I3([2] := I3 [2] \<union> {?v})"
  have I4: "I4 [1] = {?m, ?v}" "I4 [2] = {?m, ?v}" "I4 q \<subseteq> {?m, ?v}" for q by (auto simp: I4_def I3_def I2_def)
  have "\<exists>n'. run demo_net (N4([1] := n')) I4 \<and> Finalized_Tip 1 demo_tid \<in> set (dk_log (nd_disk n'))"
    by (rule demo_finalize_run [OF r4 [folded N4_def I4_def]]) (use a I4 in \<open>auto simp: N4_def N3_def\<close>)
  then obtain c where r5: "run demo_net (N4([1] := c)) I4" and c: "Finalized_Tip 1 demo_tid \<in> set (dk_log (nd_disk c))" by blast
  have "\<exists>n'. run demo_net (N4([1] := c, [2] := n')) I4 \<and> Finalized_Tip 1 demo_tid \<in> set (dk_log (nd_disk n'))"
    by (rule demo_finalize_run [OF r5]) (use b I4 in \<open>auto simp: N4_def\<close>)
  then obtain d where r6: "run demo_net (N4([1] := c, [2] := d)) I4" and d: "Finalized_Tip 1 demo_tid \<in> set (dk_log (nd_disk d))" by blast
  show thesis by (rule that [OF r6]) (use c d I4 in simp_all)
qed

theorem agreement_witness:
  "\<exists>N I a b. run demo_net N I \<and> Finalized_Tip 1 a \<in> set (dk_log (nd_disk (N [1])))
     \<and> Finalized_Tip 1 b \<in> set (dk_log (nd_disk (N [2]))) \<and> a = b"
proof -
  obtain N I where r: "run demo_net N I" and t: "Finalized_Tip 1 demo_tid \<in> set (dk_log (nd_disk (N [1])))"
    "Finalized_Tip 1 demo_tid \<in> set (dk_log (nd_disk (N [2])))" by (rule demo_run)
  have honest: "[1] \<in> nt_honest demo_net" "[2] \<in> nt_honest demo_net" by (simp_all add: demo_net_def)
  from agreement [OF demo_net_ok r honest t] r t show ?thesis by blast
qed

theorem no_equivocation_witness:
  "\<exists>N I st. run demo_net N I \<and> Vote_Msg 1 2 demo_tid \<in> I [1]
     \<and> Safety_Row 1 st \<in> set (dk_log (nd_disk (N [1]))) \<and> cs_lock st = Some (demo_tid, 2)"
proof -
  obtain N I where r: "run demo_net N I" and v: "Vote_Msg 1 2 demo_tid \<in> I [1]" by (rule demo_run)
  have "[1] \<in> nt_honest demo_net" by (simp add: demo_net_def)
  from no_equivocation [OF demo_net_ok r this, of 1 2 demo_tid demo_tid] r v show ?thesis by blast
qed

text \<open>The first validator crashes after its prevote and finds the primary copy of its record damaged.\<close>

definition demo_damaged :: Disk where
  "demo_damaged = (stage_consensus_safety_state 1 demo_row (genesis_disk demo_net []))\<lparr>dk_primary := [(1, Damaged)]\<rparr>"

definition demo_restarted :: Node where
  "demo_restarted = snd (start_node (demo_env [1]) demo_limits \<lparr>tl_max_rounds_per_height = 64, tl_max_votes_global = 64\<rparr> demo_damaged)"

lemma demo_span: "missing_span 0 1 = [1]"
  by code_simp

lemma demo_restart:
  "nd_finalized_height demo_restarted = 0 \<and> \<not> safety_storage_failed demo_restarted \<and> nd_abstain_heights demo_restarted = {}"
proof -
  define limits where "limits = \<lparr>tl_max_rounds_per_height = 64, tl_max_votes_global = 64\<rparr>"
  define n0 where "n0 = fresh_node demo_limits limits demo_damaged"
  define n1 where "n1 = n0\<lparr>nd_local_prevotes := [((1, 2), demo_tid)],
     nd_disk := stage_consensus_safety_state 1 demo_row (demo_damaged\<lparr>dk_fenced := False\<rparr>)\<rparr>"
  have d: "dk_primary demo_damaged = [(1, Damaged)]" "dk_mirror demo_damaged = [(1, Sealed demo_row)]" "dk_faults demo_damaged = []"
    "dk_finalized demo_damaged = (0, zero_hash)" "dk_quarantine demo_damaged = {}" "dk_highwater demo_damaged = 1"
    "dk_locked_proposal demo_damaged = []" "dk_fenced demo_damaged = False"
    by (simp_all add: demo_damaged_def stage_consensus_safety_state_def genesis_disk_def demo_row_def demo_net_def)
  have row: "load_safety_row (demo_env [1]) 1 n0 = (True, n1)"
    by (simp add: load_safety_row_def n0_def n1_def fresh_node_def d readable_copy_def demo_row_def persist_consensus_safety_state_def
        persist_batch_def write_batch_durable_def consensus_safety_state_def prevotes_at_def Let_def)
  have n1: "dk_highwater (nd_disk n1) = 1" "dk_quarantine (nd_disk n1) = {}" "dk_locked_proposal (nd_disk n1) = []"
    "nd_finalized_height n1 = 0" "\<not> nd_safety_storage_failed n1" "\<not> dk_fenced (nd_disk n1)"
    by (simp_all add: n1_def n0_def fresh_node_def stage_consensus_safety_state_def demo_row_def d Let_def)
  have votes: "prevotes_at (nd_local_prevotes n1) 1 = [(2, demo_tid)]" "nd_local_vote_locks n1 = []"
    by (simp_all add: n1_def n0_def fresh_node_def prevotes_at_def)
  have same: "n0\<lparr>nd_abstain_heights := {}, nd_disk := (nd_disk n0)\<lparr>dk_primary := filter (\<lambda>e. 0 < fst e) (dk_primary (nd_disk n0)),
      dk_mirror := filter (\<lambda>e. 0 < fst e) (dk_mirror (nd_disk n0))\<rparr>\<rparr> = n0" and fin: "nd_finalized_height n0 = 0"
    and heights: "sort (remdups (map fst (dk_primary (nd_disk n0)) @ map fst (dk_mirror (nd_disk n0)))) = [1]"
    by (simp_all add: n0_def fresh_node_def d)
  define n2 where "n2 = n1\<lparr>nd_disk := (nd_disk n1)\<lparr>dk_quarantine := {}\<rparr>, nd_abstain_heights := {}\<rparr>"
  have "load_safety_state (demo_env [1]) n0 = (True, n2\<lparr>nd_disk := (nd_disk n2)\<lparr>dk_locked_proposal := []\<rparr>\<rparr>)"
    unfolding load_safety_state_def Let_def fin same heights
    by (simp add: row n1 demo_span quarantine_missing_def discard_vote_lock_def n2_def) (simp add: demo_env_def n1)
  then show ?thesis
    unfolding demo_restarted_def start_node_def limits_def [symmetric] n0_def [symmetric]
    by (simp add: reseed_local_votes_def n2_def n1 safety_storage_failed_def votes Let_def sign_prevote_def sign_consensus_def)
qed

theorem restart_remembers_witness:
  "map_of (nd_local_prevotes demo_restarted) (1, 2) = Some demo_tid"
proof -
  have r: "run demo_net ((\<lambda>p. demo_start)([1] := demo_node1)) ((\<lambda>p. {})([1] := {Prevote_Msg 1 2 demo_tid}))"
    using demo_propose_run [OF demo_genesis, of "[1]"] by simp
  have "damaged (nd_disk demo_node1) demo_damaged"
    by (simp add: damaged_def demo_node1_def demo_damaged_def demo_start_def fresh_node_def stage_consensus_safety_state_def
        genesis_disk_def demo_row_def Let_def)
  moreover have "fst (dk_finalized demo_damaged) < - 66"
    by (simp add: demo_damaged_def stage_consensus_safety_state_def genesis_disk_def demo_row_def Let_def word_less_nat_alt)
  moreover have "en_unsafe_discard_vote_lock_height (demo_env [1]) = None" by (simp add: demo_env_def)
  moreover obtain ok where "start_node (demo_env [1]) demo_limits \<lparr>tl_max_rounds_per_height = 64, tl_max_votes_global = 64\<rparr> demo_damaged
      = (ok, demo_restarted)" by (simp add: demo_restarted_def prod_eq_iff)
  moreover have "nd_finalized_height demo_restarted < 1" using demo_restart by simp
  moreover have "[1] \<in> nt_honest demo_net" by (simp add: demo_net_def)
  ultimately show ?thesis
    using restart_remembers [OF demo_net_ok r _ demo_env_of, of "[1]" demo_damaged demo_limits
        "\<lparr>tl_max_rounds_per_height = 64, tl_max_votes_global = 64\<rparr>" ok demo_restarted 1 2 demo_tid] demo_restart
    by simp
qed

end
