(* ===== verification/Vote_Caches.thy ===== *)
theory Vote_Caches
  imports Agreement
begin

text \<open>
  The caches of vote signatures. Both are keyed by height, round, transition and validator, not by the
  signature, so one entry speaks for every signature under that key. The two theorems show what a peer
  can do with that, for precommits and for prevotes.
\<close>

text \<open>A vote of a peer that passes every check of the handlers before the signature.\<close>

definition reaches_signature_check :: "NodeEnv \<Rightarrow> Vote \<Rightarrow> Node \<Rightarrow> bool" where
  "reaches_signature_check env vote n \<longleftrightarrow> en_running env \<and> en_rate_ok env \<and> vote_height vote = nd_finalized_height n + 1
     \<and> vote_round vote \<le> nd_current_round n \<and> is_committee_member_for env n (vote_validator_pubkey vote) (vote_height vote) (vote_round vote)"

definition precommit_bytes :: "NodeEnv \<Rightarrow> Vote \<Rightarrow> bytes" where
  "precommit_bytes env vote = vote_signing_message (en_sha256d env) (en_domain env) (vote_height vote) (vote_round vote)
     (vote_frontier_transition_id vote)"

definition prevote_bytes :: "NodeEnv \<Rightarrow> Vote \<Rightarrow> bytes" where
  "prevote_bytes env vote = prevote_signing_message (en_sha256d env) (en_domain env) (vote_height vote) (vote_round vote)
     (vote_frontier_transition_id vote)"

lemma committee_tip_cong:
  "tip n' = tip n \<Longrightarrow> committee_for_height_round env n' h r = committee_for_height_round env n h r"
  by (simp add: committee_for_height_round_def canonical_committee_def epoch_committee_for_next_height_def Let_def)

text \<open>The handlers, from the signature check on.\<close>

lemma rejected_by_check:
  assumes "reaches_signature_check env vote n"
  shows "check_vote_signature env (precommit_bytes env vote) vote (nd_vote_verify_cache n) (nd_invalid_vote_verify_cache n)
      = (Some reason, valid, invalid) \<Longrightarrow> handle_vote_section env vote True n
      = (HardReject reason, False, n\<lparr>nd_vote_verify_cache := valid, nd_invalid_vote_verify_cache := invalid\<rparr>)"
    and "check_vote_signature env (prevote_bytes env vote) vote (nd_prevote_verify_cache n) (nd_invalid_prevote_verify_cache n)
      = (Some reason, valid, invalid) \<Longrightarrow> handle_prevote_section env vote True n
      = (HardReject reason, False, None, n\<lparr>nd_prevote_verify_cache := valid, nd_invalid_prevote_verify_cache := invalid\<rparr>)"
  using assms leD [of "vote_round vote" "nd_current_round n"]
  by (auto simp: reaches_signature_check_def handle_vote_section_def handle_prevote_section_def precommit_bytes_def prevote_bytes_def)

text \<open>
  C4. A forged vote silences the genuine one. If a peer sends a vote of a committee member with a
  signature that does not verify, and neither cache knows the key, then the node rejects it, and from
  then on rejects the member's own vote for the same height, round and transition as well, before
  looking at its signature and with the penalty of a hard reject for the peer that relays it.
\<close>

theorem forged_vote_blocks_genuine:
  assumes "reaches_signature_check env forged n" and "honest_vote = forged\<lparr>vote_signature := sig\<rparr>"
    and "fc_ok (nd_invalid_vote_verify_cache n)" and "fc_ok (nd_invalid_prevote_verify_cache n)"
    and "\<not> fc_contains (nd_vote_verify_cache n) (verify_key_of forged)" and "\<not> fc_contains (nd_invalid_vote_verify_cache n) (verify_key_of forged)"
    and "\<not> fc_contains (nd_prevote_verify_cache n) (verify_key_of forged)"
    and "\<not> fc_contains (nd_invalid_prevote_verify_cache n) (verify_key_of forged)"
    and "\<not> en_verify env (precommit_bytes env forged) (vote_signature forged) (vote_validator_pubkey forged)"
    and "\<not> en_verify env (prevote_bytes env forged) (vote_signature forged) (vote_validator_pubkey forged)"
  shows "(\<exists>n'. handle_vote_section env forged True n = (HardReject ''invalid-signature'', False, n')
           \<and> handle_vote_section env honest_vote True n' = (HardReject ''cached-invalid-signature'', False, n'))
    \<and> (\<exists>n'. handle_prevote_section env forged True n = (HardReject ''invalid-signature'', False, None, n')
           \<and> handle_prevote_section env honest_vote True n' = (HardReject ''cached-invalid-signature'', False, None, n'))"
proof
  have key: "verify_key_of honest_vote = verify_key_of forged" by (simp add: assms(2) verify_key_of_def)
  have reach: "reaches_signature_check env honest_vote (n\<lparr>nd_vote_verify_cache := a, nd_invalid_vote_verify_cache := b\<rparr>)"
    "reaches_signature_check env honest_vote (n\<lparr>nd_prevote_verify_cache := a, nd_invalid_prevote_verify_cache := b\<rparr>)" for a b
    using assms(1) committee_tip_cong [of "n\<lparr>nd_vote_verify_cache := a, nd_invalid_vote_verify_cache := b\<rparr>" n]
      committee_tip_cong [of "n\<lparr>nd_prevote_verify_cache := a, nd_invalid_prevote_verify_cache := b\<rparr>" n]
    by (auto simp: assms(2) reaches_signature_check_def is_committee_member_for_def)
  note cached = fc_insert_contains [OF assms(3)] fc_insert_contains [OF assms(4)]
  let ?m = "n\<lparr>nd_vote_verify_cache := nd_vote_verify_cache n,
      nd_invalid_vote_verify_cache := fc_insert (verify_key_of forged) (nd_invalid_vote_verify_cache n)\<rparr>"
  have "handle_vote_section env forged True n = (HardReject ''invalid-signature'', False, ?m)"
    by (rule rejected_by_check(1) [OF assms(1)]) (simp add: check_vote_signature_def assms(5,6,9))
  moreover have "handle_vote_section env honest_vote True ?m = (HardReject ''cached-invalid-signature'', False,
      ?m\<lparr>nd_vote_verify_cache := nd_vote_verify_cache ?m, nd_invalid_vote_verify_cache := nd_invalid_vote_verify_cache ?m\<rparr>)"
    by (rule rejected_by_check(1) [OF reach(1)]) (simp add: check_vote_signature_def key cached)
  ultimately show "\<exists>n'. handle_vote_section env forged True n = (HardReject ''invalid-signature'', False, n')
      \<and> handle_vote_section env honest_vote True n' = (HardReject ''cached-invalid-signature'', False, n')" by simp
  let ?k = "n\<lparr>nd_prevote_verify_cache := nd_prevote_verify_cache n,
      nd_invalid_prevote_verify_cache := fc_insert (verify_key_of forged) (nd_invalid_prevote_verify_cache n)\<rparr>"
  have "handle_prevote_section env forged True n = (HardReject ''invalid-signature'', False, None, ?k)"
    by (rule rejected_by_check(2) [OF assms(1)]) (simp add: check_vote_signature_def assms(7,8,10))
  moreover have "handle_prevote_section env honest_vote True ?k = (HardReject ''cached-invalid-signature'', False, None,
      ?k\<lparr>nd_prevote_verify_cache := nd_prevote_verify_cache ?k, nd_invalid_prevote_verify_cache := nd_invalid_prevote_verify_cache ?k\<rparr>)"
    by (rule rejected_by_check(2) [OF reach(2)]) (simp add: check_vote_signature_def key cached)
  ultimately show "\<exists>n'. handle_prevote_section env forged True n = (HardReject ''invalid-signature'', False, None, n')
      \<and> handle_prevote_section env honest_vote True n' = (HardReject ''cached-invalid-signature'', False, None, n')" by simp
qed

theorem forged_vote_blocks_genuine_witness:
  "\<exists>n'. handle_prevote_section (demo_env [1]) ((demo_prevote [2])\<lparr>vote_signature := []\<rparr>) True demo_node1
       = (HardReject ''invalid-signature'', False, None, n')
     \<and> handle_prevote_section (demo_env [1]) (demo_prevote [2]) True n' = (HardReject ''cached-invalid-signature'', False, None, n')"
proof -
  let ?f = "(demo_prevote [2])\<lparr>vote_signature := []\<rparr>"
  have fresh: "nd_vote_verify_cache demo_node1 = fc_new 20000" "nd_invalid_vote_verify_cache demo_node1 = fc_new 20000"
    by (simp_all add: demo_node1_def demo_start_def fresh_node_def)
  have none: "\<not> fc_contains (fc_new 20000) k" for k :: verify_key by (simp add: fc_contains_def fc_new_def)
  have reach: "reaches_signature_check (demo_env [1]) ?f demo_node1"
    by (simp add: reaches_signature_check_def demo_prevote_def demo_vote_of_def is_committee_member_for_def)
  have "demo_prevote [2] = ?f\<lparr>vote_signature := vote_signature (demo_prevote [2])\<rparr>" by simp
  from forged_vote_blocks_genuine [OF reach this] show ?thesis
    by (simp add: fresh none fc_new_ok demo_prevote_def demo_vote_of_def)
qed

text \<open>
  Conversely a key known to be valid admits every signature: once a vote has been verified, and the
  tracker has been cleared by a reset (which keeps the caches), the tracker accepts that vote with any
  bytes in place of its signature.
\<close>

lemma cached_key_skips_verification:
  assumes "reaches_signature_check env vote n" and "fc_contains (nd_vote_verify_cache n) (verify_key_of vote)"
    and "\<not> fc_contains (nd_invalid_vote_verify_cache n) (verify_key_of vote)" and "vr_accepted (fst (vt_add_vote vote (nd_votes n)))"
  shows "fst (handle_vote_section env vote True n) = Accepted"
  using assms leD [of "vote_round vote" "nd_current_round n"]
  by (auto simp: reaches_signature_check_def handle_vote_section_def check_vote_signature_def split: prod.splits)

end
