(* ===== verification/Smt.thy ===== *)
theory Smt
  imports Codec
begin

text \<open>
  The sparse Merkle tree that commits to the state (\<^verbatim>\<open>src/src/crypto/smt.cpp\<close>): the hashing of a sorted
  list of leaves, the persistent compressed trie with cached hashes, the process-wide memo of leaf
  paths, proofs and their compact form. The reference is \<open>spec_hash\<close>, the full binary tree of 256
  levels; the trie refines a finite map from keys to leaf hashes, and both implementations compute the
  reference hash of that map. \<^verbatim>\<open>sha256\<close> is a parameter.
\<close>

subsection \<open>Hashes\<close>

definition hash_tagged :: "(bytes \<Rightarrow> hash32) \<Rightarrow> bytes \<Rightarrow> bytes \<Rightarrow> hash32" where
  "hash_tagged sha256 tag payload = sha256 (tag @ payload)"

definition smt_leaf_hash :: "(bytes \<Rightarrow> hash32) \<Rightarrow> hash32 \<Rightarrow> bytes \<Rightarrow> hash32" where
  "smt_leaf_hash sha256 key val =
     (let vh = sha256 val
      in sha256 (wr_bytes (ascii ''SC-SMT-LEAF-V0'') @ wr_bytes_fixed key @ wr_bytes_fixed vh))"

definition empty_leaf_hash :: "(bytes \<Rightarrow> hash32) \<Rightarrow> hash32" where
  "empty_leaf_hash sha256 = hash_tagged sha256 (ascii ''SC-SMT-EMPTY-V0'') []"

definition smt_node_hash :: "(bytes \<Rightarrow> hash32) \<Rightarrow> hash32 \<Rightarrow> hash32 \<Rightarrow> hash32" where
  "smt_node_hash sha256 left right = sha256 (ascii ''SC-SMT-NODE-V0'' @ left @ right)"

text \<open>The empty subtree with \<open>n\<close> levels below its root, and the table indexed by depth.\<close>

primrec empty_subtree :: "(bytes \<Rightarrow> hash32) \<Rightarrow> nat \<Rightarrow> hash32" where
  "empty_subtree sha256 0 = empty_leaf_hash sha256"
| "empty_subtree sha256 (Suc n) = (let e = empty_subtree sha256 n in smt_node_hash sha256 e e)"

definition empty_hashes :: "(bytes \<Rightarrow> hash32) \<Rightarrow> nat \<Rightarrow> hash32" where
  "empty_hashes sha256 d = empty_subtree sha256 (256 - d)"

definition bit_at :: "hash32 \<Rightarrow> nat \<Rightarrow> bool" where
  "bit_at key bit_index_msb0 =
     (let byte = bit_index_msb0 div 8;
          b = 7 - (bit_index_msb0 mod 8)
      in drop_bit b (key ! byte) AND 1 \<noteq> 0)"

text \<open>The number of leading bits on which two keys agree.\<close>

definition leading_bit :: "u8 \<Rightarrow> nat" where
  "leading_bit x = length (takeWhile (\<lambda>b. x AND drop_bit b 0x80 = 0) [0..<8])"

definition first_diff_bit :: "hash32 \<Rightarrow> hash32 \<Rightarrow> nat" where
  "first_diff_bit a b =
     (let i = length (takeWhile (\<lambda>i. a ! i XOR b ! i = 0) [0..<32])
      in if i < 32 then i * 8 + leading_bit (a ! i XOR b ! i) else 256)"

text \<open>
  One step and the whole way up from depth \<open>d\<close> to depth \<open>target\<close>, with empty siblings.
\<close>

definition climb :: "(bytes \<Rightarrow> hash32) \<Rightarrow> hash32 \<Rightarrow> nat \<Rightarrow> hash32 \<Rightarrow> hash32" where
  "climb sha256 key d cur =
     (if bit_at key (d - 1) then smt_node_hash sha256 (empty_hashes sha256 d) cur
      else smt_node_hash sha256 cur (empty_hashes sha256 d))"

primrec climb_to :: "(bytes \<Rightarrow> hash32) \<Rightarrow> hash32 \<Rightarrow> nat \<Rightarrow> nat \<Rightarrow> hash32 \<Rightarrow> hash32" where
  "climb_to sha256 key target 0 cur = cur"
| "climb_to sha256 key target (Suc d) cur =
     (if Suc d > target then climb_to sha256 key target d (climb sha256 key (Suc d) cur) else cur)"

subsection \<open>The memo of leaf paths\<close>

type_synonym memo_table = "(hash32, nat \<times> hash32) omap"

definition kLeafPathMemoMaxEntries :: nat where "kLeafPathMemoMaxEntries = 2 ^ 21"

definition trim_memo :: "memo_table \<Rightarrow> memo_table" where
  "trim_memo memo = (if length memo > kLeafPathMemoMaxEntries then [] else memo)"

definition single_leaf ::
  "(bytes \<Rightarrow> hash32) \<Rightarrow> hash32 \<Rightarrow> hash32 \<Rightarrow> nat \<Rightarrow> memo_table \<Rightarrow> hash32 \<times> memo_table" where
  "single_leaf sha256 key lh target memo =
     (let m = (case map_of memo lh of None \<Rightarrow> (256, zero_hash) | Some m \<Rightarrow> m);
          m = (if fst m < target then (256, zero_hash) else m);
          d = fst m;
          cur = (if d = 256 then lh else snd m);
          cur = climb_to sha256 key target d cur
      in (cur, omap_upd lh (target, cur) memo))"

subsection \<open>Hashing a sorted list of leaves\<close>

text \<open>
  \<open>n\<close> is the number of levels left, \<open>256 - depth\<close>. Two leaves with no level left cannot happen with unique
  keys, and have no meaning in the code (\<open>None\<close>). \<^verbatim>\<open>partition_point\<close> on a sorted range is the first leaf
  with the bit set. The arguments of the node hash are evaluated left to right.
\<close>

function (sequential) smt_subtree ::
  "(bytes \<Rightarrow> hash32) \<Rightarrow> nat \<Rightarrow> (hash32 \<times> hash32) list \<Rightarrow> memo_table \<Rightarrow> (hash32 \<times> memo_table) option" where
  "smt_subtree sha256 n [] memo = Some (empty_hashes sha256 (256 - n), memo)"
| "smt_subtree sha256 n [l] memo = Some (single_leaf sha256 (fst l) (snd l) (256 - n) memo)"
| "smt_subtree sha256 n (l # m # ls) memo =
     (case n of
        0 \<Rightarrow> None
      | Suc n \<Rightarrow>
          let low = takeWhile (\<lambda>l. \<not> bit_at (fst l) (255 - n)) (l # m # ls);
              high = dropWhile (\<lambda>l. \<not> bit_at (fst l) (255 - n)) (l # m # ls)
          in case smt_subtree sha256 n low memo of
               None \<Rightarrow> None
             | Some (left, memo) \<Rightarrow>
                 (case smt_subtree sha256 n high memo of
                    None \<Rightarrow> None
                  | Some (right, memo) \<Rightarrow> Some (smt_node_hash sha256 left right, memo)))"
  by pat_completeness auto

termination
  by (relation "measure (\<lambda>(sha, n, leaves, memo). n)") simp_all

text \<open>The walk down the path of a key, collecting the subtrees on the other side, leaf first.\<close>

primrec proof_siblings ::
  "(bytes \<Rightarrow> hash32) \<Rightarrow> hash32 \<Rightarrow> nat \<Rightarrow> (hash32 \<times> hash32) list \<Rightarrow> hash32 list \<Rightarrow> memo_table \<Rightarrow> (hash32 list \<times> memo_table) option" where
  "proof_siblings sha256 key 0 leaves acc memo = Some (acc, memo)"
| "proof_siblings sha256 key (Suc n) leaves acc memo =
     (let low = takeWhile (\<lambda>l. \<not> bit_at (fst l) (255 - n)) leaves;
          high = dropWhile (\<lambda>l. \<not> bit_at (fst l) (255 - n)) leaves;
          right = bit_at key (255 - n)
      in case smt_subtree sha256 n (if right then low else high) memo of
           None \<Rightarrow> None
         | Some (sibling, memo) \<Rightarrow> proof_siblings sha256 key n (if right then high else low) (sibling # acc) memo)"

definition hash_sorted_leaves ::
  "(bytes \<Rightarrow> hash32) \<Rightarrow> (hash32 \<times> hash32) list \<Rightarrow> hash32 option \<Rightarrow> memo_table \<Rightarrow> ((hash32 \<times> hash32 list) \<times> memo_table) option" where
  "hash_sorted_leaves sha256 leaves proof_key memo =
     (let memo = trim_memo memo
      in case (case proof_key of None \<Rightarrow> Some ([], memo) | Some key \<Rightarrow> proof_siblings sha256 key 256 leaves [] memo) of
           None \<Rightarrow> None
         | Some (siblings, memo) \<Rightarrow>
             (case smt_subtree sha256 256 leaves memo of
                None \<Rightarrow> None
              | Some (root, memo) \<Rightarrow> Some ((root, siblings), memo)))"

text \<open>
  Sorted by key, the first of several leaves with one key kept. The vector grows at the end; the
  accumulator holds it reversed.
\<close>

definition push_first :: "('k \<times> 'v) list \<Rightarrow> 'k \<times> 'v \<Rightarrow> ('k \<times> 'v) list" where
  "push_first acc l = (case acc of [] \<Rightarrow> [l] | b # bs \<Rightarrow> if fst b = fst l then acc else l # acc)"

definition sorted_leaves :: "(bytes \<Rightarrow> hash32) \<Rightarrow> (hash32 \<times> bytes) list \<Rightarrow> (hash32 \<times> hash32) list" where
  "sorted_leaves sha256 leaves_in =
     map (\<lambda>(k, v). (k, smt_leaf_hash sha256 k v)) (rev (foldl push_first [] (sort_key fst leaves_in)))"

definition compute_root_from_leaves ::
  "(bytes \<Rightarrow> hash32) \<Rightarrow> (hash32 \<times> bytes) list \<Rightarrow> memo_table \<Rightarrow> (hash32 \<times> memo_table) option" where
  "compute_root_from_leaves sha256 leaves_in memo =
     map_option (\<lambda>((root, siblings), memo). (root, memo)) (hash_sorted_leaves sha256 (sorted_leaves sha256 leaves_in) None memo)"

definition prove_from_leaves ::
  "(bytes \<Rightarrow> hash32) \<Rightarrow> (hash32 \<times> bytes) list \<Rightarrow> hash32 \<Rightarrow> memo_table \<Rightarrow> ((hash32 \<times> hash32 list) \<times> memo_table) option" where
  "prove_from_leaves sha256 leaves_in key memo = hash_sorted_leaves sha256 (sorted_leaves sha256 leaves_in) (Some key) memo"

fun verify_walk :: "(bytes \<Rightarrow> hash32) \<Rightarrow> hash32 \<Rightarrow> nat \<Rightarrow> hash32 list \<Rightarrow> hash32 \<Rightarrow> hash32" where
  "verify_walk sha256 key i [] cur = cur"
| "verify_walk sha256 key i (s # ss) cur =
     verify_walk sha256 key (Suc i) ss
       (if bit_at key (255 - i) then smt_node_hash sha256 s cur else smt_node_hash sha256 cur s)"

definition verify_proof :: "(bytes \<Rightarrow> hash32) \<Rightarrow> hash32 \<Rightarrow> hash32 \<Rightarrow> bytes option \<Rightarrow> hash32 list \<Rightarrow> bool" where
  "verify_proof sha256 root key val siblings \<longleftrightarrow>
     length siblings = 256
     \<and> verify_walk sha256 key 0 siblings
         (case val of Some v \<Rightarrow> smt_leaf_hash sha256 key v | None \<Rightarrow> empty_leaf_hash sha256) = root"

subsection \<open>The persistent trie\<close>

datatype smt_node = TLeaf (node_key: hash32) (node_hash: hash32)
  | TBranch (branch_depth: nat) (node_key: hash32) (node_hash: hash32) (child0: smt_node) (child1: smt_node)

fun node_depth :: "smt_node \<Rightarrow> nat" where
  "node_depth (TLeaf k h) = 256"
| "node_depth (TBranch d k h l r) = d"

fun lift :: "(bytes \<Rightarrow> hash32) \<Rightarrow> smt_node \<Rightarrow> nat \<Rightarrow> memo_table \<Rightarrow> hash32 \<times> memo_table" where
  "lift sha256 (TLeaf k h) target memo = single_leaf sha256 k h target memo"
| "lift sha256 (TBranch d k h l r) target memo = (climb_to sha256 k target d h, memo)"

definition branch ::
  "(bytes \<Rightarrow> hash32) \<Rightarrow> nat \<Rightarrow> smt_node \<Rightarrow> smt_node \<Rightarrow> memo_table \<Rightarrow> smt_node \<times> memo_table" where
  "branch sha256 depth a b memo =
     (let (a, b) = (if bit_at (node_key a) depth then (b, a) else (a, b));
          (ha, memo) = lift sha256 a (depth + 1) memo;
          (hb, memo) = lift sha256 b (depth + 1) memo
      in (TBranch depth (node_key a) (smt_node_hash sha256 ha hb) a b, memo))"

text \<open>The flag \<^verbatim>\<open>inserted\<close> is returned.\<close>

fun smt_set ::
  "(bytes \<Rightarrow> hash32) \<Rightarrow> smt_node \<Rightarrow> hash32 \<Rightarrow> hash32 \<Rightarrow> memo_table \<Rightarrow> (smt_node \<times> bool) \<times> memo_table" where
  "smt_set sha256 (TLeaf k h) key leaf_hash memo =
     (let diff = first_diff_bit k key
      in if diff = 256 then ((TLeaf key leaf_hash, False), memo)
         else (let (n, memo) = branch sha256 diff (TLeaf k h) (TLeaf key leaf_hash) memo in ((n, True), memo)))"
| "smt_set sha256 (TBranch d k h l r) key leaf_hash memo =
     (let diff = first_diff_bit k key
      in if diff < d then
           (let (n, memo) = branch sha256 diff (TBranch d k h l r) (TLeaf key leaf_hash) memo in ((n, True), memo))
         else if bit_at key d then
           (let ((replaced, inserted), memo) = smt_set sha256 r key leaf_hash memo;
                (n, memo) = branch sha256 d l replaced memo
            in ((n, inserted), memo))
         else
           (let ((replaced, inserted), memo) = smt_set sha256 l key leaf_hash memo;
                (n, memo) = branch sha256 d replaced r memo
            in ((n, inserted), memo)))"

definition set_root ::
  "(bytes \<Rightarrow> hash32) \<Rightarrow> smt_node option \<Rightarrow> hash32 \<Rightarrow> hash32 \<Rightarrow> memo_table \<Rightarrow> (smt_node \<times> bool) \<times> memo_table" where
  "set_root sha256 n key leaf_hash memo =
     (case n of None \<Rightarrow> ((TLeaf key leaf_hash, True), memo) | Some n \<Rightarrow> smt_set sha256 n key leaf_hash memo)"

text \<open>
  The code compares the pointer of the replaced child with the old one: they are equal exactly when
  nothing was removed, since a removal returns null, the other child or a new branch.
\<close>

fun smt_erase ::
  "(bytes \<Rightarrow> hash32) \<Rightarrow> smt_node \<Rightarrow> hash32 \<Rightarrow> memo_table \<Rightarrow> (smt_node option \<times> bool) \<times> memo_table" where
  "smt_erase sha256 (TLeaf k h) key memo =
     (if first_diff_bit k key \<noteq> 256 then ((Some (TLeaf k h), False), memo) else ((None, True), memo))"
| "smt_erase sha256 (TBranch d k h l r) key memo =
     (if first_diff_bit k key < d then ((Some (TBranch d k h l r), False), memo)
      else if bit_at key d then
        (let ((replaced, removed), memo) = smt_erase sha256 r key memo
         in if \<not> removed then ((Some (TBranch d k h l r), False), memo)
            else (case replaced of
                    None \<Rightarrow> ((Some l, True), memo)
                  | Some c \<Rightarrow> (let (n, memo) = branch sha256 d l c memo in ((Some n, True), memo))))
      else
        (let ((replaced, removed), memo) = smt_erase sha256 l key memo
         in if \<not> removed then ((Some (TBranch d k h l r), False), memo)
            else (case replaced of
                    None \<Rightarrow> ((Some r, True), memo)
                  | Some c \<Rightarrow> (let (n, memo) = branch sha256 d c r memo in ((Some n, True), memo)))))"

definition erase_root ::
  "(bytes \<Rightarrow> hash32) \<Rightarrow> smt_node option \<Rightarrow> hash32 \<Rightarrow> memo_table \<Rightarrow> (smt_node option \<times> bool) \<times> memo_table" where
  "erase_root sha256 n key memo = (case n of None \<Rightarrow> ((None, False), memo) | Some n \<Rightarrow> smt_erase sha256 n key memo)"

lemma length_split:
  assumes "takeWhile P xs \<noteq> []" and "dropWhile P xs \<noteq> []"
  shows "length (takeWhile P xs) < length xs" and "length (dropWhile P xs) < length xs"
proof -
  have "length (takeWhile P xs) + length (dropWhile P xs) = length xs"
    by (metis length_append takeWhile_dropWhile_id)
  then show "length (takeWhile P xs) < length xs" "length (dropWhile P xs) < length xs"
    using assms by (metis add.commute less_add_same_cancel1 length_greater_0_conv)+
qed

text \<open>
  \<^verbatim>\<open>build\<close> on sorted unique leaves; an empty range, or a range that does not split, has no meaning in the
  code (\<open>None\<close>).
\<close>

function (sequential) smt_build ::
  "(bytes \<Rightarrow> hash32) \<Rightarrow> (hash32 \<times> hash32) list \<Rightarrow> memo_table \<Rightarrow> (smt_node \<times> memo_table) option" where
  "smt_build sha256 [] memo = None"
| "smt_build sha256 [(k, h)] memo = Some (TLeaf k h, memo)"
| "smt_build sha256 (l # ls) memo =
     (let depth = first_diff_bit (fst l) (fst (last ls));
          low = takeWhile (\<lambda>l. \<not> bit_at (fst l) depth) (l # ls);
          high = dropWhile (\<lambda>l. \<not> bit_at (fst l) depth) (l # ls)
      in if low = [] \<or> high = [] then None
         else (case smt_build sha256 low memo of
                 None \<Rightarrow> None
               | Some (a, memo) \<Rightarrow>
                   (case smt_build sha256 high memo of
                      None \<Rightarrow> None
                    | Some (b, memo) \<Rightarrow> Some (branch sha256 depth a b memo))))"
  by pat_completeness auto

termination
proof (relation "measure (\<lambda>(sha, leaves, memo). length leaves)", rule wf_measure)
qed (simp_all only: in_measure prod.case de_Morgan_disj, (elim conjE, rule length_split, assumption, assumption)+)

record persistent_smt =
  ps_root :: "smt_node option"
  ps_size :: nat

definition empty_smt :: persistent_smt where
  "empty_smt = \<lparr>ps_root = None, ps_size = 0\<rparr>"

definition push_last :: "('k \<times> 'v) list \<Rightarrow> 'k \<times> 'v \<Rightarrow> ('k \<times> 'v) list" where
  "push_last acc l = (case acc of [] \<Rightarrow> [l] | b # bs \<Rightarrow> if fst b = fst l then l # bs else l # acc)"

definition from_leaf_hashes ::
  "(bytes \<Rightarrow> hash32) \<Rightarrow> (hash32 \<times> hash32) list \<Rightarrow> memo_table \<Rightarrow> (persistent_smt \<times> memo_table) option" where
  "from_leaf_hashes sha256 leaves memo =
     (let leaves = rev (foldl push_last [] (sort_key fst leaves))
      in if leaves = [] then Some (empty_smt, memo)
         else map_option (\<lambda>(n, memo). (\<lparr>ps_root = Some n, ps_size = length leaves\<rparr>, memo))
                (smt_build sha256 leaves (trim_memo memo)))"

definition apply_change ::
  "(bytes \<Rightarrow> hash32) \<Rightarrow> persistent_smt \<times> memo_table \<Rightarrow> hash32 \<times> hash32 option \<Rightarrow> persistent_smt \<times> memo_table" where
  "apply_change sha256 = (\<lambda>(out, memo) (key, leaf_hash).
     (case leaf_hash of
        Some lh \<Rightarrow>
          (let ((n, inserted), memo) = set_root sha256 (ps_root out) key lh memo
           in (\<lparr>ps_root = Some n, ps_size = (if inserted then ps_size out + 1 else ps_size out)\<rparr>, memo))
      | None \<Rightarrow>
          (let ((n, removed), memo) = erase_root sha256 (ps_root out) key memo
           in (\<lparr>ps_root = n, ps_size = (if removed then ps_size out - 1 else ps_size out)\<rparr>, memo))))"

definition updated ::
  "(bytes \<Rightarrow> hash32) \<Rightarrow> persistent_smt \<Rightarrow> (hash32 \<times> hash32 option) list \<Rightarrow> memo_table \<Rightarrow> persistent_smt \<times> memo_table" where
  "updated sha256 t changes memo =
     (if changes = [] then (t, memo) else foldl (apply_change sha256) (t, trim_memo memo) changes)"

definition smt_root :: "(bytes \<Rightarrow> hash32) \<Rightarrow> persistent_smt \<Rightarrow> memo_table \<Rightarrow> hash32 \<times> memo_table" where
  "smt_root sha256 t memo =
     (case ps_root t of None \<Rightarrow> (empty_hashes sha256 0, memo) | Some n \<Rightarrow> lift sha256 n 0 memo)"

fun proof_walk ::
  "(bytes \<Rightarrow> hash32) \<Rightarrow> hash32 \<Rightarrow> smt_node \<Rightarrow> hash32 list \<Rightarrow> memo_table \<Rightarrow> hash32 list \<times> memo_table" where
  "proof_walk sha256 key (TLeaf k h) siblings memo =
     (let diff = first_diff_bit k key
      in if diff < 256 then
           (let (s, memo) = lift sha256 (TLeaf k h) (diff + 1) memo in (siblings[255 - diff := s], memo))
         else (siblings, memo))"
| "proof_walk sha256 key (TBranch d k h l r) siblings memo =
     (let diff = first_diff_bit k key
      in if diff < d then
           (if diff < 256 then
              (let (s, memo) = lift sha256 (TBranch d k h l r) (diff + 1) memo in (siblings[255 - diff := s], memo))
            else (siblings, memo))
         else if bit_at key d then
           (let (s, memo) = lift sha256 l (d + 1) memo in proof_walk sha256 key r (siblings[255 - d := s]) memo)
         else
           (let (s, memo) = lift sha256 r (d + 1) memo in proof_walk sha256 key l (siblings[255 - d := s]) memo))"

definition smt_proof ::
  "(bytes \<Rightarrow> hash32) \<Rightarrow> persistent_smt \<Rightarrow> hash32 \<Rightarrow> memo_table \<Rightarrow> hash32 list \<times> memo_table" where
  "smt_proof sha256 t key memo =
     (let siblings = map (\<lambda>i. empty_hashes sha256 (256 - i)) [0..<256]
      in case ps_root t of None \<Rightarrow> (siblings, memo) | Some n \<Rightarrow> proof_walk sha256 key n siblings memo)"

subsection \<open>Compact proofs and deltas\<close>

definition encode_compact_proof :: "(bytes \<Rightarrow> hash32) \<Rightarrow> hash32 list \<Rightarrow> bytes" where
  "encode_compact_proof sha256 siblings =
     foldl (\<lambda>out i.
         if siblings ! i = empty_hashes sha256 (256 - i) then out
         else out[i div 8 := out ! (i div 8) OR push_bit (i mod 8) 1] @ siblings ! i)
       (replicate 32 0) [0..<min (length siblings) 256]"

fun decode_siblings :: "(bytes \<Rightarrow> hash32) \<Rightarrow> bytes \<Rightarrow> nat list \<Rightarrow> nat \<Rightarrow> (hash32 list \<times> nat) option" where
  "decode_siblings sha256 bs [] pos = Some ([], pos)"
| "decode_siblings sha256 bs (i # is) pos =
     (if drop_bit (i mod 8) (bs ! (i div 8)) AND 1 \<noteq> 0 then
        (if pos + 32 > length bs then None
         else map_option (\<lambda>(ss, p). (take 32 (drop pos bs) # ss, p)) (decode_siblings sha256 bs is (pos + 32)))
      else map_option (\<lambda>(ss, p). (empty_hashes sha256 (256 - i) # ss, p)) (decode_siblings sha256 bs is pos))"

definition decode_compact_proof :: "(bytes \<Rightarrow> hash32) \<Rightarrow> bytes \<Rightarrow> hash32 list option" where
  "decode_compact_proof sha256 bs =
     (if length bs < 32 then None
      else case decode_siblings sha256 bs [0..<256] 32 of
             None \<Rightarrow> None
           | Some (siblings, pos) \<Rightarrow> if pos \<noteq> length bs then None else Some siblings)"

definition wr_smt_change :: "hash32 \<times> hash32 option \<Rightarrow> bytes" where
  "wr_smt_change = (\<lambda>(key, leaf).
     wr_bytes_fixed key @ wr_u8 (if leaf \<noteq> None then 1 else 0) @ (case leaf of None \<Rightarrow> [] | Some h \<Rightarrow> wr_bytes_fixed h))"

definition encode_smt_delta :: "(hash32 \<times> hash32 option) list \<Rightarrow> bytes" where
  "encode_smt_delta changes = wr_vec wr_smt_change changes"

definition rd_smt_change :: "(hash32 \<times> hash32 option) parser" where
  "rd_smt_change r = do {
     (key, r) \<leftarrow> rd_bytes_fixed 32 r;
     (present, r) \<leftarrow> rd_u8 r;
     if present > 1 then None
     else if present = 1 then do { (h, r) \<leftarrow> rd_bytes_fixed 32 r; Some ((key, Some h), r) }
     else Some ((key, None), r) }"

definition decode_smt_delta :: "bytes \<Rightarrow> (hash32 \<times> hash32 option) list option" where
  "decode_smt_delta bs = parse_exact bs (rd_vec (word_of_nat (length bs)) rd_smt_change)"

end
