(* ===== verification/Smt_Refine.thy ===== *)
theory Smt_Refine
  imports Smt
begin

text \<open>
  The sparse Merkle tree against its reference: \<open>spec_hash\<close> is the hash of the full binary tree of 256
  levels over a map from keys to leaf hashes. The trie refines such a map, every operation with its
  memo, and its root, the root computed from a sorted list of leaves, and the proofs of both are those of
  the reference tree.
\<close>

subsection \<open>Keys as bit strings\<close>

definition key_bits :: "hash32 \<Rightarrow> bool list" where
  "key_bits key = map (bit_at key) [0..<256]"

definition pack_bits :: "bool list \<Rightarrow> hash32" where
  "pack_bits p = map (\<lambda>i. horner_sum of_bool 2 (rev (take 8 (drop (8 * i) p)))) [0..<32]"

lemma bit_at_bit: "bit_at key i \<longleftrightarrow> bit (key ! (i div 8)) (7 - i mod 8)"
  by (simp only: bit_at_def Let_def and_one_eq bit_iff_odd_drop_bit even_iff_mod_2_eq_zero)

lemma bit_at_byte: "t < 8 \<Longrightarrow> bit_at key (8 * j + t) \<longleftrightarrow> bit (key ! j) (7 - t)"
  by (simp add: bit_at_bit)

lemma length_key_bits [simp]: "length (key_bits k) = 256"
  by (simp add: key_bits_def)

lemma nth_key_bits [simp]: "i < 256 \<Longrightarrow> key_bits k ! i = bit_at k i"
  by (simp add: key_bits_def)

lemma bit_at_pack:
  assumes "length p = 256" and "i < 256"
  shows "bit_at (pack_bits p) i = p ! i"
proof -
  have i: "i div 8 < 32" "8 * (i div 8) + i mod 8 = i" "i mod 8 < 8" using assms(2) by auto
  then have "8 * (i div 8) + 8 \<le> 256" "7 - i mod 8 < 8" by linarith+
  with i assms show ?thesis
    by (simp add: bit_at_bit pack_bits_def bit_horner_sum_bit_iff rev_nth)
qed

lemma key_bits_pack: "length p = 256 \<Longrightarrow> key_bits (pack_bits p) = p"
  by (rule nth_equalityI) (simp_all add: bit_at_pack)

lemma length_pack [simp]: "length (pack_bits p) = 32"
  by (simp add: pack_bits_def)

text \<open>Two keys share a prefix of \<open>d\<close> bits.\<close>

definition shares :: "nat \<Rightarrow> hash32 \<Rightarrow> hash32 \<Rightarrow> bool" where
  "shares d a b \<longleftrightarrow> (\<forall>i < d. bit_at a i = bit_at b i)"

lemma shares_refl [simp]: "shares d a a"
  by (simp add: shares_def)

lemma shares_sym: "shares d a b \<Longrightarrow> shares d b a"
  by (simp add: shares_def)

lemma shares_trans: "shares d a b \<Longrightarrow> shares d b c \<Longrightarrow> shares d a c"
  by (simp add: shares_def)

lemma shares_le: "shares d a b \<Longrightarrow> e \<le> d \<Longrightarrow> shares e a b"
  by (simp add: shares_def)

lemma shares_Suc: "shares (Suc d) a b \<longleftrightarrow> shares d a b \<and> bit_at a d = bit_at b d"
  by (auto simp: shares_def less_Suc_eq)

lemma shares_0 [simp]: "shares 0 a b"
  by (simp add: shares_def)

lemma shares_take: "d \<le> 256 \<Longrightarrow> shares d a b \<longleftrightarrow> take d (key_bits a) = take d (key_bits b)"
  by (auto simp: shares_def list_eq_iff_nth_eq)

lemma bytes_of_bits:
  assumes "length a = 32" and "length b = 32" and "shares 256 a b"
  shows "a = b"
proof (rule nth_equalityI)
  fix j assume "j < length a"
  then have j: "j < 32" using assms(1) by simp
  show "a ! j = b ! j"
  proof (rule bit_word_eqI)
    fix n assume n: "n < LENGTH(8)"
    have "bit_at a (8 * j + (7 - n)) = bit_at b (8 * j + (7 - n))"
      using assms(3) j by (simp add: shares_def)
    then show "bit (a ! j) n = bit (b ! j) n" using n by (simp add: bit_at_byte del: add_diff_assoc)
  qed
qed (simp add: assms)

lemma shares_all: "length a = 32 \<Longrightarrow> length b = 32 \<Longrightarrow> shares 256 a b \<longleftrightarrow> a = b"
  using bytes_of_bits by auto

text \<open>A counting loop stops at the first index that fails its test.\<close>

lemma first_failing:
  assumes "m = length (takeWhile P [0..<n])"
  shows "m \<le> n" and "i < m \<Longrightarrow> P i" and "m < n \<Longrightarrow> \<not> P m"
proof -
  show m: "m \<le> n" using length_takeWhile_le [of P "[0..<n]"] by (simp add: assms)
  show "P i" if "i < m"
  proof -
    have "takeWhile P [0..<n] ! i = i" using that m by (simp add: assms takeWhile_nth)
    moreover have "P (takeWhile P [0..<n] ! i)" using that by (metis assms nth_mem set_takeWhileD)
    ultimately show ?thesis by simp
  qed
  show "\<not> P m" if "m < n" using nth_length_takeWhile [of P "[0..<n]"] that by (simp add: assms)
qed

lemma leading_bit:
  assumes "x \<noteq> (0 :: u8)"
  shows "leading_bit x < 8" and "bit x (7 - leading_bit x)" and "\<forall>i < leading_bit x. \<not> bit x (7 - i)"
proof -
  have clear: "x AND drop_bit b 0x80 = 0 \<longleftrightarrow> \<not> bit x (7 - b)" if "b < 8" for b
  proof -
    have "bit (drop_bit b (0x80 :: u8)) n \<longleftrightarrow> n = 7 - b" if "n < 8" for n
      using \<open>b < 8\<close> that by (simp add: bit_drop_bit_eq bit_0x80 del: bit_numeral_word_iff) linarith
    moreover have "7 - b < 8" by simp
    ultimately show ?thesis by (auto simp: bit_eq_iff [where ?'a = "8 word"] bit_and_iff)
  qed
  note stop = first_failing [OF leading_bit_def [of x]]
  show *: "leading_bit x < 8"
  proof (rule ccontr)
    assume "\<not> leading_bit x < 8"
    then have none: "\<not> bit x (7 - b)" if "b < 8" for b using stop(2) [of b] clear that by simp
    have "\<not> bit x n" if "n < 8" for n using none [of "7 - n"] that by simp
    then show False using assms by (auto simp: bit_eq_iff [where ?'a = "8 word"])
  qed
  show "bit x (7 - leading_bit x)" using stop(3) [OF *] clear [OF *] by blast
  show "\<forall>i < leading_bit x. \<not> bit x (7 - i)" using stop(2) clear * by auto
qed

lemma xor_eq_0: "x XOR y = (0 :: u8) \<longleftrightarrow> x = y"
  by (auto simp: bit_eq_iff [where ?'a = "8 word"] bit_xor_iff)

lemma first_diff_bit_props:
  assumes "length a = 32" and "length b = 32"
  shows "first_diff_bit a b \<le> 256" and "shares (first_diff_bit a b) a b"
    and "first_diff_bit a b < 256 \<Longrightarrow> bit_at a (first_diff_bit a b) \<noteq> bit_at b (first_diff_bit a b)"
proof -
  let ?P = "\<lambda>i. a ! i XOR b ! i = 0"
  define j where "j = length (takeWhile ?P [0..<32])"
  note stop = first_failing [OF j_def]
  have j: "j \<le> 32" by (rule stop(1))
  have same: "a ! i = b ! i" if "i < j" for i 
    using stop(2) [OF that] by (simp add: xor_eq_0)
  have below: "shares (8 * j) a b"
    unfolding shares_def bit_at_bit
  proof (intro allI impI)
    fix i assume "i < 8 * j"
    then have "i div 8 < j" by (simp add: less_mult_imp_div_less mult.commute)
    then show "bit (a ! (i div 8)) (7 - i mod 8) = bit (b ! (i div 8)) (7 - i mod 8)" by (simp add: same)
  qed
  show "first_diff_bit a b \<le> 256" "shares (first_diff_bit a b) a b"
    "first_diff_bit a b < 256 \<Longrightarrow> bit_at a (first_diff_bit a b) \<noteq> bit_at b (first_diff_bit a b)"
  proof (atomize (full), cases "j < 32")
    case False
    then have "first_diff_bit a b = 256" "j = 32" using j by (simp_all add: first_diff_bit_def flip: j_def)
    with below show "first_diff_bit a b \<le> 256 \<and> shares (first_diff_bit a b) a b \<and>
      (first_diff_bit a b < 256 \<longrightarrow> bit_at a (first_diff_bit a b) \<noteq> bit_at b (first_diff_bit a b))" by simp
  next
    case True
    let ?x = "a ! j XOR b ! j"
    note lead = leading_bit [OF stop(3) [OF True]]
    have fd: "first_diff_bit a b = 8 * j + leading_bit ?x" using True by (simp add: first_diff_bit_def flip: j_def)
    have "bit_at a i = bit_at b i" if i: "i < 8 * j + leading_bit ?x" for i
    proof (cases "i < 8 * j")
      case False
      then obtain t where "i = 8 * j + t" by (metis le_add_diff_inverse not_less)
      with i lead show ?thesis by (simp add: bit_at_byte bit_xor_iff)
    qed (use below in \<open>simp add: shares_def\<close>)
    with lead True show "first_diff_bit a b \<le> 256 \<and> shares (first_diff_bit a b) a b \<and>
      (first_diff_bit a b < 256 \<longrightarrow> bit_at a (first_diff_bit a b) \<noteq> bit_at b (first_diff_bit a b))"
      by (auto simp: fd shares_def bit_at_byte bit_xor_iff)
  qed
qed

lemma shares_iff_diff:
  assumes "length a = 32" and "length b = 32" and "d \<le> 256"
  shows "shares d a b \<longleftrightarrow> d \<le> first_diff_bit a b"
  using first_diff_bit_props [OF assms(1,2)] assms(3)
  by (metis (no_types, lifting) leI le_trans less_le_trans not_le shares_def shares_le)

lemma first_diff_256 [simp]:
  assumes "length a = 32" and "length b = 32"
  shows "first_diff_bit a b = 256 \<longleftrightarrow> a = b"
  using first_diff_bit_props(1) [OF assms] shares_iff_diff [OF assms, of 256] shares_all [OF assms] by auto

subsection \<open>The reference tree\<close>

text \<open>The subtree with \<open>n\<close> levels below the node with path \<open>p\<close>, over all keys with that prefix.\<close>

fun spec_hash :: "(bytes \<Rightarrow> hash32) \<Rightarrow> (hash32 \<rightharpoonup> hash32) \<Rightarrow> nat \<Rightarrow> bool list \<Rightarrow> hash32" where
  "spec_hash sha m 0 p = (case m (pack_bits p) of None \<Rightarrow> empty_leaf_hash sha | Some h \<Rightarrow> h)"
| "spec_hash sha m (Suc n) p = smt_node_hash sha (spec_hash sha m n (p @ [False])) (spec_hash sha m n (p @ [True]))"

definition spec_root :: "(bytes \<Rightarrow> hash32) \<Rightarrow> (hash32 \<rightharpoonup> hash32) \<Rightarrow> hash32" where
  "spec_root sha m = spec_hash sha m 256 []"

text \<open>The node at depth \<open>d\<close> on the path of a key, and the sibling of its child on that path.\<close>

definition at_depth :: "(bytes \<Rightarrow> hash32) \<Rightarrow> (hash32 \<rightharpoonup> hash32) \<Rightarrow> hash32 \<Rightarrow> nat \<Rightarrow> hash32" where
  "at_depth sha m key d = spec_hash sha m (256 - d) (take d (key_bits key))"

definition off_path :: "(bytes \<Rightarrow> hash32) \<Rightarrow> (hash32 \<rightharpoonup> hash32) \<Rightarrow> hash32 \<Rightarrow> nat \<Rightarrow> hash32" where
  "off_path sha m key d = spec_hash sha m (255 - d) (take d (key_bits key) @ [\<not> bit_at key d])"

lemma spec_hash_cong:
  "length p + n = 256 \<Longrightarrow> (\<And>k. length k = 32 \<Longrightarrow> take (length p) (key_bits k) = p \<Longrightarrow> m k = m' k)
   \<Longrightarrow> spec_hash sha m n p = spec_hash sha m' n p"
proof (induction n arbitrary: p)
  case 0
  then show ?case using key_bits_pack [of p] by simp
next
  case (Suc n)
  have "m k = m' k" if "length k = 32" "take (length (p @ [b])) (key_bits k) = p @ [b]" for b k
    using that Suc.prems(2) [of k] by (metis butlast_snoc butlast_take diff_Suc_1 length_append_singleton length_key_bits take_all_iff nle_le)
  then have "spec_hash sha m n (p @ [b]) = spec_hash sha m' n (p @ [b])" for b
    using Suc.prems(1) by (intro Suc.IH) simp_all
  then show ?case by simp
qed

lemma spec_hash_empty: "spec_hash sha Map.empty n p = empty_subtree sha n"
  by (induction n arbitrary: p) (simp_all add: Let_def)

lemma take_Suc_bits: "d < 256 \<Longrightarrow> take (Suc d) (key_bits k) = take d (key_bits k) @ [bit_at k d]"
  by (simp add: take_Suc_conv_app_nth)

lemma at_depth_cong:
  assumes "d \<le> 256" and "\<And>k. length k = 32 \<Longrightarrow> shares d key k \<Longrightarrow> m k = m' k"
  shows "at_depth sha m key d = at_depth sha m' key d"
  unfolding at_depth_def
  by (rule spec_hash_cong) (use assms shares_take in auto)

lemma at_depth_shares: "d \<le> 256 \<Longrightarrow> shares d a b \<Longrightarrow> at_depth sha m a d = at_depth sha m b d"
  by (simp add: at_depth_def shares_take)

lemma at_depth_leaf:
  assumes "length key = 32"
  shows "at_depth sha m key 256 = (case m key of None \<Rightarrow> empty_leaf_hash sha | Some h \<Rightarrow> h)"
proof -
  have "pack_bits (key_bits key) = key"
    using bytes_of_bits [of "pack_bits (key_bits key)" key] assms by (simp add: shares_def bit_at_pack)
  then show ?thesis by (simp add: at_depth_def)
qed

lemma at_depth_step:
  assumes "d < 256"
  shows "at_depth sha m key d =
    (if bit_at key d then smt_node_hash sha (off_path sha m key d) (at_depth sha m key (Suc d))
     else smt_node_hash sha (at_depth sha m key (Suc d)) (off_path sha m key d))"
proof -
  have "256 - d = Suc (255 - d)" "256 - Suc d = 255 - d" using assms by simp_all
  then show ?thesis using assms by (simp add: at_depth_def off_path_def take_Suc_bits)
qed

lemma off_path_at:
  assumes "d < 256" and "shares d key k" and "bit_at k d \<noteq> bit_at key d"
  shows "off_path sha m key d = at_depth sha m k (Suc d)"
proof -
  have "256 - Suc d = 255 - d" using assms by simp
  then show ?thesis using assms by (simp add: at_depth_def off_path_def take_Suc_bits shares_take)
qed

lemma off_path_empty:
  assumes "d < 256" and "\<And>k. length k = 32 \<Longrightarrow> shares d key k \<Longrightarrow> bit_at k d \<noteq> bit_at key d \<Longrightarrow> m k = None"
  shows "off_path sha m key d = empty_hashes sha (Suc d)"
proof -
  have "spec_hash sha m (255 - d) (take d (key_bits key) @ [\<not> bit_at key d])
      = spec_hash sha Map.empty (255 - d) (take d (key_bits key) @ [\<not> bit_at key d])"
  proof (rule spec_hash_cong)
    fix k :: hash32 assume k: "length k = 32"
      "take (length (take d (key_bits key) @ [\<not> bit_at key d])) (key_bits k) = take d (key_bits key) @ [\<not> bit_at key d]"
    then have "take d (key_bits k) @ [bit_at k d] = take d (key_bits key) @ [\<not> bit_at key d]"
      using assms(1) take_Suc_bits [of d k] by simp
    then show "m k = Map.empty k" using assms k(1) by (simp add: shares_take)
  qed (use assms in simp)
  then show ?thesis using assms(1) by (simp add: off_path_def spec_hash_empty empty_hashes_def)
qed

text \<open>Going up past depths where only one side holds keys.\<close>

lemma at_depth_climb_to:
  assumes "target \<le> d" and "d \<le> 256"
    and "\<And>k. length k = 32 \<Longrightarrow> m k \<noteq> None \<Longrightarrow> shares target key k \<Longrightarrow> shares d key k"
  shows "climb_to sha key target d (at_depth sha m key d) = at_depth sha m key target"
  using assms
proof (induction d)
  case (Suc d)
  show ?case
  proof (cases "target = Suc d")
    case False
    then have le: "target \<le> d" "d < 256" using Suc.prems by auto
    have "off_path sha m key d = empty_hashes sha (Suc d)"
    proof (rule off_path_empty [OF le(2)])
      fix k :: hash32 assume "length k = 32" "shares d key k" "bit_at k d \<noteq> bit_at key d"
      then show "m k = None"
        using Suc.prems(3) [of k] shares_le [OF _ le(1)] by (cases "m k") (auto simp: shares_Suc)
    qed
    then have "climb sha key (Suc d) (at_depth sha m key (Suc d)) = at_depth sha m key d"
      using at_depth_step [OF le(2), of sha m key] by (simp add: climb_def)
    then show ?thesis using Suc le by (simp add: shares_Suc)
  qed simp
qed simp

subsection \<open>The memo\<close>

text \<open>
  The memo is keyed by leaf hashes, and relies on a leaf hash determining its key: \<open>key_of\<close> is that function.
\<close>

definition memo_ok :: "(bytes \<Rightarrow> hash32) \<Rightarrow> (hash32 \<Rightarrow> hash32) \<Rightarrow> memo_table \<Rightarrow> bool" where
  "memo_ok sha key_of memo \<longleftrightarrow>
     (\<forall>h d c. map_of memo h = Some (d, c) \<longrightarrow> d \<le> 256 \<and> c = climb_to sha (key_of h) d 256 h)"

lemma memo_ok_Nil [simp]: "memo_ok sha key_of []"
  by (simp add: memo_ok_def)

lemma memo_ok_trim [simp]: "memo_ok sha key_of memo \<Longrightarrow> memo_ok sha key_of (trim_memo memo)"
  by (simp add: trim_memo_def)

lemma climb_to_self [simp]: "climb_to sha key d d cur = cur"
  by (cases d) simp_all

lemma climb_to_trans:
  "target \<le> d \<Longrightarrow> d \<le> e \<Longrightarrow> climb_to sha key target d (climb_to sha key d e cur) = climb_to sha key target e cur"
proof (induction e arbitrary: cur)
  case (Suc e)
  then show ?case by (cases "d = Suc e") simp_all
qed simp

lemma single_leaf_ok:
  assumes memo: "memo_ok sha key_of memo" and key: "key_of lh = key" and le: "target \<le> 256"
    and run: "single_leaf sha key lh target memo = (c, memo')"
  shows "c = climb_to sha key target 256 lh" and "memo_ok sha key_of memo'"
proof -
  define start where "start = (case map_of memo lh of None \<Rightarrow> (256, zero_hash)
    | Some m \<Rightarrow> if fst m < target then (256, zero_hash) else m)"
  have c: "c = climb_to sha key target (fst start) (if fst start = 256 then lh else snd start)"
    and memo': "memo' = omap_upd lh (target, c) memo"
    using run le by (auto simp: single_leaf_def start_def Let_def split: option.splits if_splits)
  have "target \<le> fst start \<and> fst start \<le> 256
      \<and> (if fst start = 256 then lh else snd start) = climb_to sha key (fst start) 256 lh"
    using memo le key unfolding memo_ok_def start_def by (cases "map_of memo lh") auto
  with c climb_to_trans show *: "c = climb_to sha key target 256 lh" by simp
  show "memo_ok sha key_of memo'" using memo le key * by (auto simp: memo_ok_def memo')
qed

subsection \<open>The trie as a map\<close>

fun node_map :: "smt_node \<Rightarrow> hash32 \<rightharpoonup> hash32" where
  "node_map (TLeaf k h) = [k \<mapsto> h]"
| "node_map (TBranch d k h l r) = (\<lambda>x. if bit_at x d then node_map r x else node_map l x)"

text \<open>
  A branch sits at the first bit on which its keys differ, and caches the hash of its subtree.
\<close>

fun node_ok :: "(bytes \<Rightarrow> hash32) \<Rightarrow> (hash32 \<Rightarrow> hash32) \<Rightarrow> smt_node \<Rightarrow> bool" where
  "node_ok sha key_of (TLeaf k h) \<longleftrightarrow> length k = 32 \<and> key_of h = k"
| "node_ok sha key_of (TBranch d k h l r) \<longleftrightarrow>
     node_ok sha key_of l \<and> node_ok sha key_of r \<and> d < node_depth l \<and> d < node_depth r
     \<and> shares d (node_key l) (node_key r) \<and> \<not> bit_at (node_key l) d \<and> bit_at (node_key r) d
     \<and> k = node_key l
     \<and> h = smt_node_hash sha (at_depth sha (node_map l) (node_key l) (Suc d)) (at_depth sha (node_map r) (node_key r) (Suc d))"

lemma node_depth_le: "node_ok sha key_of t \<Longrightarrow> node_depth t \<le> 256"
  by (induction t) auto

lemma node_keys:
  "node_ok sha key_of t \<Longrightarrow> node_map t x = Some h
   \<Longrightarrow> length x = 32 \<and> shares (node_depth t) (node_key t) x \<and> key_of h = x"
proof (induction t arbitrary: x)
  case (TBranch d k c l r)
  show ?case
  proof (cases "bit_at x d")
    case True
    then have "length x = 32 \<and> shares (node_depth r) (node_key r) x \<and> key_of h = x" using TBranch by auto
    then show ?thesis using TBranch.prems(1) shares_le shares_trans by (metis less_imp_le node_depth.simps(2) node_ok.simps(2) smt_node.sel(2))
  next
    case False
    then have "length x = 32 \<and> shares (node_depth l) (node_key l) x \<and> key_of h = x" using TBranch by auto
    then show ?thesis using TBranch.prems(1) shares_le by (metis less_imp_le node_depth.simps(2) node_ok.simps(2) smt_node.sel(2))
  qed
qed (auto split: if_splits)

lemma node_key_in: "node_ok sha key_of t \<Longrightarrow> \<exists>h. node_map t (node_key t) = Some h"
  by (induction t) auto

lemma node_key_length: "node_ok sha key_of t \<Longrightarrow> length (node_key t) = 32"
  using node_key_in node_keys by blast

text \<open>The depth of a node is the longest prefix its keys share.\<close>

lemma node_depth_ge:
  assumes "node_ok sha key_of t" and "d \<le> 256" and "\<And>x h. node_map t x = Some h \<Longrightarrow> shares d y x"
  shows "d \<le> node_depth t"
proof (cases t)
  case (TBranch e k c l r)
  then have l: "node_ok sha key_of l" and r: "node_ok sha key_of r" and bits: "\<not> bit_at (node_key l) e" "bit_at (node_key r) e"
    using assms(1) by auto
  obtain h h' where "node_map l (node_key l) = Some h" "node_map r (node_key r) = Some h'"
    using node_key_in [OF l] node_key_in [OF r] by blast
  then have "shares d y (node_key l)" "shares d y (node_key r)"
    using bits TBranch by (auto intro: assms(3))
  then show ?thesis using bits TBranch by (metis shares_def node_depth.simps(2) not_le)
qed (use assms in simp)

lemma side_map:
  assumes "node_ok sha key_of t" and "d < node_depth t" and "bit_at x d \<noteq> bit_at (node_key t) d"
  shows "node_map t x = None"
  using node_keys [OF assms(1), of x] assms(2,3) by (cases "node_map t x") (auto simp: shares_def)

lemma branch_hash:
  assumes "node_ok sha key_of l" and "node_ok sha key_of r" and "d < 256"
    and "shares d (node_key l) (node_key r)" and "\<not> bit_at (node_key l) d" and "bit_at (node_key r) d"
    and m: "m = (\<lambda>x. if bit_at x d then node_map r x else node_map l x)"
  shows "at_depth sha m (node_key l) d
    = smt_node_hash sha (at_depth sha (node_map l) (node_key l) (Suc d)) (at_depth sha (node_map r) (node_key r) (Suc d))"
proof -
  have "at_depth sha m (node_key l) (Suc d) = at_depth sha (node_map l) (node_key l) (Suc d)"
    by (rule at_depth_cong) (use assms in \<open>auto simp: shares_Suc\<close>)
  moreover have "at_depth sha m (node_key r) (Suc d) = at_depth sha (node_map r) (node_key r) (Suc d)"
    by (rule at_depth_cong) (use assms in \<open>auto simp: shares_Suc\<close>)
  ultimately show ?thesis
    using assms at_depth_step [of d sha m "node_key l"] off_path_at [of d "node_key l" "node_key r" sha m] by simp
qed

lemma node_hash_ok: "node_ok sha key_of t \<Longrightarrow> node_hash t = at_depth sha (node_map t) (node_key t) (node_depth t)"
proof (cases t)
  case (TBranch d k h l r)
  moreover assume ok: "node_ok sha key_of t"
  ultimately have "d < 256" using node_depth_le [of sha key_of l] by auto
  with TBranch ok show ?thesis using branch_hash [of sha key_of l r d "node_map t"] by simp
qed (simp add: at_depth_leaf)

lemma lift_ok:
  assumes ok: "node_ok sha key_of t" and memo: "memo_ok sha key_of memo" and le: "target \<le> node_depth t"
    and run: "lift sha t target memo = (c, memo')"
  shows "c = at_depth sha (node_map t) (node_key t) target" and "memo_ok sha key_of memo'"
proof -
  have up: "climb_to sha (node_key t) target (node_depth t) (node_hash t) = at_depth sha (node_map t) (node_key t) target"
    unfolding node_hash_ok [OF ok]
    by (rule at_depth_climb_to) (use le ok node_depth_le node_keys in blast)+
  show "c = at_depth sha (node_map t) (node_key t) target" "memo_ok sha key_of memo'"
  proof (atomize (full), cases t)
    case (TLeaf k h)
    then show "c = at_depth sha (node_map t) (node_key t) target \<and> memo_ok sha key_of memo'"
      using single_leaf_ok [OF memo, of h k target c memo'] ok run le up by simp
  next
    case (TBranch d k h l r)
    then show "c = at_depth sha (node_map t) (node_key t) target \<and> memo_ok sha key_of memo'"
      using run up memo by simp
  qed
qed

lemma branch_ok:
  assumes a: "node_ok sha key_of a" and b: "node_ok sha key_of b" and d: "d < node_depth a" "d < node_depth b"
    and shares: "shares d (node_key a) (node_key b)" and bits: "bit_at (node_key a) d \<noteq> bit_at (node_key b) d"
    and memo: "memo_ok sha key_of memo" and run: "branch sha d a b memo = (n, memo')"
  shows "node_ok sha key_of n" and "memo_ok sha key_of memo'"
    and "node_map n = (\<lambda>x. if bit_at x d = bit_at (node_key a) d then node_map a x else node_map b x)"
proof -
  obtain l r where lr: "(l, r) = (if bit_at (node_key a) d then (b, a) else (a, b))" by metis
  obtain hl memo1 where hl: "lift sha l (Suc d) memo = (hl, memo1)" by fastforce
  obtain hr memo2 where hr: "lift sha r (Suc d) memo1 = (hr, memo2)" by fastforce
  have n: "n = TBranch d (node_key l) (smt_node_hash sha hl hr) l r" "memo' = memo2"
    using run hl hr by (auto simp: branch_def simp flip: lr)
  have ok: "node_ok sha key_of l" "node_ok sha key_of r" "Suc d \<le> node_depth l" "Suc d \<le> node_depth r"
    and side: "shares d (node_key l) (node_key r)" "\<not> bit_at (node_key l) d" "bit_at (node_key r) d"
    using lr a b d shares bits by (auto split: if_splits intro: shares_sym)
  note left = lift_ok [OF ok(1) memo ok(3) hl]
  note right = lift_ok [OF ok(2) left(2) ok(4) hr]
  show "node_ok sha key_of n" using ok side left right by (simp add: n)
  show "memo_ok sha key_of memo'" using right by (simp add: n)
  show "node_map n = (\<lambda>x. if bit_at x d = bit_at (node_key a) d then node_map a x else node_map b x)"
    using lr bits by (auto simp: n fun_eq_iff split: if_splits)
qed

subsection \<open>Setting and erasing\<close>

text \<open>A key that leaves a subtree above its depth is new, and branches off.\<close>

lemma branch_off:
  assumes ok: "node_ok sha key_of t" and memo: "memo_ok sha key_of memo"
    and key: "length key = 32" "key_of lh = key" and diff: "first_diff_bit (node_key t) key < node_depth t"
    and run: "branch sha (first_diff_bit (node_key t) key) t (TLeaf key lh) memo = (n, memo')"
  shows "node_ok sha key_of n" and "memo_ok sha key_of memo'"
    and "node_map n = (node_map t)(key \<mapsto> lh)" and "node_map t key = None"
proof -
  let ?d = "first_diff_bit (node_key t) key"
  note props = first_diff_bit_props [OF node_key_length [OF ok] key(1)]
  have d: "?d < 256" using diff node_depth_le [OF ok] by simp
  note new = branch_ok [OF ok _ diff _ _ _ memo run]
  show "node_ok sha key_of n" "memo_ok sha key_of memo'" by (rule new; use key d props in simp)+
  have map: "node_map n = (\<lambda>x. if bit_at x ?d = bit_at (node_key t) ?d then node_map t x else node_map (TLeaf key lh) x)"
    by (rule new; use key d props in simp)
  show none: "node_map t key = None" using side_map [OF ok diff] props(3) [OF d] by metis
  show "node_map n = (node_map t)(key \<mapsto> lh)"
    using side_map [OF ok diff] props(3) [OF d] by (auto simp: map fun_eq_iff)
qed

text \<open>One child of a branch replaced by a subtree whose keys stay on its side.\<close>

lemma replaced_side:
  assumes "node_ok sha key_of c" and "node_ok sha key_of t" and "d < node_depth t"
    and "\<And>x h. node_map c x = Some h \<Longrightarrow> shares (Suc d) (node_key t) x"
  shows "d < node_depth c" and "shares (Suc d) (node_key t) (node_key c)"
proof -
  show "shares (Suc d) (node_key t) (node_key c)" using assms(4) node_key_in [OF assms(1)] by blast
  show "d < node_depth c"
    using node_depth_ge [OF assms(1), of "Suc d" "node_key t"] assms(3,4) node_depth_le [OF assms(2)] by auto
qed

lemma replace_right:
  assumes ok: "node_ok sha key_of (TBranch d k h l r)" and memo: "memo_ok sha key_of memo"
    and c: "node_ok sha key_of c" and keys: "\<And>x h. node_map c x = Some h \<Longrightarrow> shares (Suc d) (node_key r) x"
    and run: "branch sha d l c memo = (n, memo')"
  shows "node_ok sha key_of n \<and> memo_ok sha key_of memo' \<and> node_map n = (\<lambda>x. if bit_at x d then node_map c x else node_map l x)"
proof -
  have s: "d < node_depth c" "shares (Suc d) (node_key r) (node_key c)"
    using replaced_side [OF c _ _ keys] ok by auto
  then have "shares d (node_key l) (node_key c)" "bit_at (node_key l) d \<noteq> bit_at (node_key c) d"
    using ok shares_trans [of d "node_key l" "node_key r"] by (auto simp: shares_Suc)
  with branch_ok [OF _ c _ s(1) _ _ memo run] ok show ?thesis by auto
qed

lemma replace_left:
  assumes ok: "node_ok sha key_of (TBranch d k h l r)" and memo: "memo_ok sha key_of memo"
    and c: "node_ok sha key_of c" and keys: "\<And>x h. node_map c x = Some h \<Longrightarrow> shares (Suc d) (node_key l) x"
    and run: "branch sha d c r memo = (n, memo')"
  shows "node_ok sha key_of n \<and> memo_ok sha key_of memo' \<and> node_map n = (\<lambda>x. if bit_at x d then node_map r x else node_map c x)"
proof -
  have s: "d < node_depth c" "shares (Suc d) (node_key l) (node_key c)"
    using replaced_side [OF c _ _ keys] ok by auto
  have "shares d (node_key c) (node_key l)" by (rule shares_sym) (use s in \<open>simp add: shares_Suc\<close>)
  then have "shares d (node_key c) (node_key r)" "\<not> bit_at (node_key c) d" "bit_at (node_key r) d"
    using ok s shares_trans [of d "node_key c" "node_key l"] by (auto simp: shares_Suc)
  with branch_ok [OF c _ s(1) _ _ _ memo run] ok show ?thesis by (auto simp: fun_eq_iff)
qed

text \<open>The keys below a branch share one more bit on either side.\<close>

lemma child_keys:
  assumes "node_ok sha key_of t" and "d < node_depth t" and "node_map t x = Some h"
  shows "shares (Suc d) (node_key t) x"
  using node_keys [OF assms(1,3)] assms(2) shares_le by (metis Suc_leI)

lemma path_side:
  assumes ok: "node_ok sha key_of (TBranch d k h l r)" and key: "length key = 32" and diff: "\<not> first_diff_bit k key < d"
  shows "shares (Suc d) (node_key (if bit_at key d then r else l)) key"
proof -
  have k: "length k = 32" using ok node_key_length [of sha key_of l] by auto
  have "d \<le> 256" using node_depth_le [OF ok] by simp
  then have on_path: "shares d k key" using diff shares_iff_diff [OF k key] by simp
  have "shares d (node_key r) k" by (rule shares_sym) (use ok in simp)
  then have "shares d (node_key r) key" by (rule shares_trans) (rule on_path)
  then show ?thesis using ok on_path by (cases "bit_at key d") (simp_all add: shares_Suc)
qed

lemma smt_set_ok:
  "node_ok sha key_of t \<Longrightarrow> memo_ok sha key_of memo \<Longrightarrow> length key = 32 \<Longrightarrow> key_of lh = key
   \<Longrightarrow> smt_set sha t key lh memo = ((n, inserted), memo')
   \<Longrightarrow> node_ok sha key_of n \<and> memo_ok sha key_of memo' \<and> node_map n = (node_map t)(key \<mapsto> lh)
     \<and> (inserted \<longleftrightarrow> node_map t key = None)"
proof (induction t arbitrary: memo n inserted memo')
  case (TLeaf k h)
  show ?case
  proof (cases "k = key")
    case False
    have len: "length k = 32" using TLeaf.prems(1) by simp
    have "first_diff_bit k key < 256"
      using first_diff_bit_props(1) [OF len TLeaf.prems(3)] first_diff_256 [OF len TLeaf.prems(3)] False by linarith
    then show ?thesis
      using branch_off [of sha key_of "TLeaf k h" memo key lh n memo'] TLeaf.prems
      by (auto simp: Let_def split: prod.splits if_splits)
  qed (use TLeaf.prems in \<open>auto simp: Let_def\<close>)
next
  case (TBranch d k h l r)
  let ?t = "TBranch d k h l r"
  consider (off) "first_diff_bit k key < d" | (right) "\<not> first_diff_bit k key < d" "bit_at key d"
    | (left) "\<not> first_diff_bit k key < d" "\<not> bit_at key d" by blast
  then show ?case
  proof cases
    case off
    then show ?thesis
      using branch_off [of sha key_of ?t memo key lh n memo'] TBranch.prems
      by (simp del: node_ok.simps node_map.simps add: Let_def split: prod.splits)
  next
    case right
    obtain c memo1 where c: "smt_set sha r key lh memo = ((c, inserted), memo1)" and n: "branch sha d l c memo1 = (n, memo')"
      using TBranch.prems(5) right by (auto simp: Let_def split: prod.splits)
    have new: "node_ok sha key_of c" "memo_ok sha key_of memo1" "node_map c = (node_map r)(key \<mapsto> lh)"
      "inserted \<longleftrightarrow> node_map r key = None"
      using TBranch.IH(2) [OF _ TBranch.prems(2-4) c] TBranch.prems(1) by auto
    have "shares (Suc d) (node_key r) x" if "node_map c x = Some h'" for x h'
      using that child_keys [of sha key_of r d x h'] path_side [OF TBranch.prems(1,3) right(1)] TBranch.prems(1) right(2)
      by (auto simp: new split: if_splits)
    from replace_right [OF TBranch.prems(1) new(2,1) this n] show ?thesis using new right by (auto simp: fun_eq_iff)
  next
    case left
    obtain c memo1 where c: "smt_set sha l key lh memo = ((c, inserted), memo1)" and n: "branch sha d c r memo1 = (n, memo')"
      using TBranch.prems(5) left by (auto simp: Let_def split: prod.splits)
    have new: "node_ok sha key_of c" "memo_ok sha key_of memo1" "node_map c = (node_map l)(key \<mapsto> lh)"
      "inserted \<longleftrightarrow> node_map l key = None"
      using TBranch.IH(1) [OF _ TBranch.prems(2-4) c] TBranch.prems(1) by auto
    have "shares (Suc d) (node_key l) x" if "node_map c x = Some h'" for x h'
      using that child_keys [of sha key_of l d x h'] path_side [OF TBranch.prems(1,3) left(1)] TBranch.prems(1) left(2)
      by (auto simp: new split: if_splits)
    from replace_left [OF TBranch.prems(1) new(2,1) this n] show ?thesis using new left by (auto simp: fun_eq_iff)
  qed
qed

definition root_map :: "smt_node option \<Rightarrow> hash32 \<rightharpoonup> hash32" where
  "root_map n = (case n of None \<Rightarrow> Map.empty | Some t \<Rightarrow> node_map t)"

definition root_ok :: "(bytes \<Rightarrow> hash32) \<Rightarrow> (hash32 \<Rightarrow> hash32) \<Rightarrow> smt_node option \<Rightarrow> bool" where
  "root_ok sha key_of n \<longleftrightarrow> (case n of None \<Rightarrow> True | Some t \<Rightarrow> node_ok sha key_of t)"

lemma root_simps [simp]:
  "root_map None = Map.empty" "root_map (Some t) = node_map t"
  "root_ok sha key_of None" "root_ok sha key_of (Some t) \<longleftrightarrow> node_ok sha key_of t"
  by (simp_all add: root_map_def root_ok_def)

lemma off_path_absent:
  assumes ok: "node_ok sha key_of t" and key: "length key = 32" and diff: "first_diff_bit (node_key t) key < node_depth t"
  shows "node_map t key = None"
proof -
  have "first_diff_bit (node_key t) key < 256" using diff node_depth_le [OF ok] by simp
  then show ?thesis
    using side_map [OF ok diff] first_diff_bit_props(3) [OF node_key_length [OF ok] key] by metis
qed

text \<open>After a removal below one side: the branch keeps its other child, or is rebuilt.\<close>

lemma erased_right:
  assumes ok: "node_ok sha key_of (TBranch d k h l r)" and memo: "memo_ok sha key_of memo" and key: "bit_at key d"
    and c: "root_ok sha key_of c" "root_map c = (node_map r)(key := None)"
    and run: "(case c of None \<Rightarrow> ((Some l, True), memo)
               | Some c \<Rightarrow> (let (n, memo) = branch sha d l c memo in ((Some n, True), memo))) = ((n, removed), memo')"
  shows "root_ok sha key_of n \<and> memo_ok sha key_of memo' \<and> root_map n = (node_map (TBranch d k h l r))(key := None)"
proof (cases c)
  case None
  have "node_map l x = None" if "bit_at x d" for x
    using side_map [of sha key_of l d x] ok that by auto
  moreover have "node_map r x = None" if "x \<noteq> key" for x using c(2) None that by (metis fun_upd_other root_simps(1))
  ultimately show ?thesis using None ok memo run key by (auto simp: fun_eq_iff)
next
  case (Some t)
  obtain t' where t': "branch sha d l t memo = (t', memo')" "n = Some t'" using run Some by (auto split: prod.splits)
  have t: "node_ok sha key_of t" "node_map t = (node_map r)(key := None)" using c Some by auto
  have "shares (Suc d) (node_key r) x" if "node_map t x = Some h'" for x h'
    using that child_keys [of sha key_of r d x h'] ok by (auto simp: t split: if_splits)
  from replace_right [OF ok memo t(1) this t'(1)] show ?thesis using t t' key by (auto simp: fun_eq_iff)
qed

lemma erased_left:
  assumes ok: "node_ok sha key_of (TBranch d k h l r)" and memo: "memo_ok sha key_of memo" and key: "\<not> bit_at key d"
    and c: "root_ok sha key_of c" "root_map c = (node_map l)(key := None)"
    and run: "(case c of None \<Rightarrow> ((Some r, True), memo)
               | Some c \<Rightarrow> (let (n, memo) = branch sha d c r memo in ((Some n, True), memo))) = ((n, removed), memo')"
  shows "root_ok sha key_of n \<and> memo_ok sha key_of memo' \<and> root_map n = (node_map (TBranch d k h l r))(key := None)"
proof (cases c)
  case None
  have "node_map r x = None" if "\<not> bit_at x d" for x
    using side_map [of sha key_of r d x] ok that by auto
  moreover have "node_map l x = None" if "x \<noteq> key" for x using c(2) None that by (metis fun_upd_other root_simps(1))
  ultimately show ?thesis using None ok memo run key by (auto simp: fun_eq_iff)
next
  case (Some t)
  obtain t' where t': "branch sha d t r memo = (t', memo')" "n = Some t'" using run Some by (auto split: prod.splits)
  have t: "node_ok sha key_of t" "node_map t = (node_map l)(key := None)" using c Some by auto
  have "shares (Suc d) (node_key l) x" if "node_map t x = Some h'" for x h'
    using that child_keys [of sha key_of l d x h'] ok by (auto simp: t split: if_splits)
  from replace_left [OF ok memo t(1) this t'(1)] show ?thesis using t t' key by (auto simp: fun_eq_iff)
qed

lemma smt_erase_ok:
  "node_ok sha key_of t \<Longrightarrow> memo_ok sha key_of memo \<Longrightarrow> length key = 32
   \<Longrightarrow> smt_erase sha t key memo = ((n, removed), memo')
   \<Longrightarrow> root_ok sha key_of n \<and> memo_ok sha key_of memo' \<and> root_map n = (node_map t)(key := None)
     \<and> (removed \<longleftrightarrow> node_map t key \<noteq> None)"
proof (induction t arbitrary: memo n removed memo')
  case (TLeaf k h)
  then show ?case using first_diff_256 [of k key] by (auto split: if_splits)
next
  case (TBranch d k h l r)
  let ?t = "TBranch d k h l r"
  have keep: "root_map (Some ?t) = (node_map ?t)(key := None)" if "node_map ?t key = None"
    using that by (simp only: root_simps fun_upd_triv flip: that)
  consider (off) "first_diff_bit k key < d" | (right) "\<not> first_diff_bit k key < d" "bit_at key d"
    | (left) "\<not> first_diff_bit k key < d" "\<not> bit_at key d" by blast
  then show ?case
  proof cases
    case off
    then have "node_map ?t key = None" using off_path_absent [OF TBranch.prems(1,3)] by simp
    then show ?thesis using keep TBranch.prems off by auto
  next
    case right
    obtain c rem memo1 where c: "smt_erase sha r key memo = ((c, rem), memo1)" by (metis surj_pair)
    have new: "root_ok sha key_of c" "memo_ok sha key_of memo1" "root_map c = (node_map r)(key := None)"
      "rem \<longleftrightarrow> node_map r key \<noteq> None"
      using TBranch.IH(2) [OF _ TBranch.prems(2,3) c] TBranch.prems(1) by auto
    show ?thesis
    proof (cases rem)
      case True
      with erased_right [OF TBranch.prems(1) new(2) right(2) new(1,3), of n removed memo'] TBranch.prems(4) right c new(4)
      show ?thesis by (auto split: option.splits prod.splits)
    next
      case False
      then show ?thesis using keep TBranch.prems right c new by auto
    qed
  next
    case left
    obtain c rem memo1 where c: "smt_erase sha l key memo = ((c, rem), memo1)" by (metis surj_pair)
    have new: "root_ok sha key_of c" "memo_ok sha key_of memo1" "root_map c = (node_map l)(key := None)"
      "rem \<longleftrightarrow> node_map l key \<noteq> None"
      using TBranch.IH(1) [OF _ TBranch.prems(2,3) c] TBranch.prems(1) by auto
    show ?thesis
    proof (cases rem)
      case True
      with erased_left [OF TBranch.prems(1) new(2) left(2) new(1,3), of n removed memo'] TBranch.prems(4) left c new(4)
      show ?thesis by (auto split: option.splits prod.splits)
    next
      case False
      then show ?thesis using keep TBranch.prems left c new by auto
    qed
  qed
qed

subsection \<open>The persistent tree refines a map\<close>

lemma finite_node_map: "finite (dom (node_map t))"
proof (induction t)
  case (TBranch d k h l r)
  have "dom (node_map (TBranch d k h l r)) \<subseteq> dom (node_map l) \<union> dom (node_map r)" by (auto split: if_splits)
  with TBranch.IH show ?case by (meson finite_UnI finite_subset)
next
  case (TLeaf k h)
  show ?case by (simp only: node_map.simps dom_fun_upd) simp
qed

definition smt_map :: "persistent_smt \<Rightarrow> hash32 \<rightharpoonup> hash32" where
  "smt_map t = root_map (ps_root t)"

definition smt_ok :: "(bytes \<Rightarrow> hash32) \<Rightarrow> (hash32 \<Rightarrow> hash32) \<Rightarrow> persistent_smt \<Rightarrow> bool" where
  "smt_ok sha key_of t \<longleftrightarrow> root_ok sha key_of (ps_root t) \<and> ps_size t = card (dom (smt_map t))"

lemma finite_smt_map [simp]: "finite (dom (smt_map t))"
  using finite_node_map by (cases "ps_root t") (simp_all add: smt_map_def)

definition change_ok :: "(hash32 \<Rightarrow> hash32) \<Rightarrow> hash32 \<times> hash32 option \<Rightarrow> bool" where
  "change_ok key_of = (\<lambda>(key, leaf). length key = 32 \<and> (case leaf of None \<Rightarrow> True | Some h \<Rightarrow> key_of h = key))"

definition change_map :: "(hash32 \<rightharpoonup> hash32) \<Rightarrow> hash32 \<times> hash32 option \<Rightarrow> hash32 \<rightharpoonup> hash32" where
  "change_map m = (\<lambda>(key, leaf). m(key := leaf))"

lemma set_root_ok:
  assumes "root_ok sha key_of n" and "memo_ok sha key_of memo" and "length key = 32" and "key_of lh = key"
    and "set_root sha n key lh memo = ((n', inserted), memo')"
  shows "node_ok sha key_of n' \<and> memo_ok sha key_of memo' \<and> node_map n' = (root_map n)(key \<mapsto> lh)
    \<and> (inserted \<longleftrightarrow> root_map n key = None)"
  using assms smt_set_ok [of sha key_of _ memo key lh n' inserted memo'] by (cases n) (auto simp: set_root_def)

lemma erase_root_ok:
  assumes "root_ok sha key_of n" and "memo_ok sha key_of memo" and "length key = 32"
    and "erase_root sha n key memo = ((n', removed), memo')"
  shows "root_ok sha key_of n' \<and> memo_ok sha key_of memo' \<and> root_map n' = (root_map n)(key := None)
    \<and> (removed \<longleftrightarrow> root_map n key \<noteq> None)"
  using assms smt_erase_ok [of sha key_of _ memo key n' removed memo'] by (cases n) (auto simp: erase_root_def)

lemma apply_change_ok:
  assumes ok: "smt_ok sha key_of t" and memo: "memo_ok sha key_of memo" and c: "change_ok key_of c"
    and run: "apply_change sha (t, memo) c = (t', memo')"
  shows "smt_ok sha key_of t' \<and> memo_ok sha key_of memo' \<and> smt_map t' = change_map (smt_map t) c"
proof -
  obtain key leaf where [simp]: "c = (key, leaf)" by fastforce
  have root: "root_ok sha key_of (ps_root t)" and size: "ps_size t = card (dom (root_map (ps_root t)))"
    and fin: "finite (dom (root_map (ps_root t)))"
    using ok finite_smt_map [of t] by (simp_all add: smt_ok_def smt_map_def)
  have key: "length key = 32" using c by (simp add: change_ok_def)
  show ?thesis
  proof (cases leaf)
    case None
    obtain n rem memo1 where e: "erase_root sha (ps_root t) key memo = ((n, rem), memo1)" by (metis surj_pair)
    from erase_root_ok [OF root memo key e] show ?thesis
      using run e None size fin
      by (auto simp: apply_change_def smt_ok_def smt_map_def change_map_def card_Diff_singleton_if)
  next
    case (Some lh)
    obtain n ins memo1 where e: "set_root sha (ps_root t) key lh memo = ((n, ins), memo1)" by (metis surj_pair)
    have "key_of lh = key" using c Some by (simp add: change_ok_def)
    from set_root_ok [OF root memo key this e] show ?thesis
      using run e Some size fin
      by (auto simp: apply_change_def smt_ok_def smt_map_def change_map_def card_insert_if domIff)
  qed
qed

lemma at_depth_0: "at_depth sha m key 0 = spec_root sha m"
  by (simp add: at_depth_def spec_root_def)

lemma smt_root_ok:
  assumes "smt_ok sha key_of t" and "memo_ok sha key_of memo" and "smt_root sha t memo = (c, memo')"
  shows "c = spec_root sha (smt_map t)" and "memo_ok sha key_of memo'"
  using assms lift_ok [of sha key_of _ memo 0 c memo']
  by (auto simp: smt_root_def smt_ok_def smt_map_def at_depth_0 spec_root_def spec_hash_empty empty_hashes_def
      split: option.splits)

text \<open>
  The contract of a map that can be committed to: steps that change one key, and a root that is a
  function of the map alone. Two histories with one outcome have one root.
\<close>

locale committed_map =
  fixes start :: 's
    and step :: "'s \<Rightarrow> 'k \<times> 'v option \<Rightarrow> 's"
    and root :: "'s \<Rightarrow> 'h"
    and abs :: "'s \<Rightarrow> 'k \<rightharpoonup> 'v"
    and ok :: "'s \<Rightarrow> bool"
    and good :: "'k \<times> 'v option \<Rightarrow> bool"
    and hash :: "('k \<rightharpoonup> 'v) \<Rightarrow> 'h"
  assumes ok_start: "ok start"
    and abs_start: "abs start = Map.empty"
    and ok_step: "ok s \<Longrightarrow> good c \<Longrightarrow> ok (step s c)"
    and abs_step: "ok s \<Longrightarrow> good c \<Longrightarrow> abs (step s c) = (abs s)(fst c := snd c)"
    and root_hash: "ok s \<Longrightarrow> root s = hash (abs s)"
begin

lemma run_refines:
  "ok s \<Longrightarrow> \<forall>c \<in> set cs. good c
   \<Longrightarrow> ok (foldl step s cs) \<and> abs (foldl step s cs) = foldl (\<lambda>m c. m(fst c := snd c)) (abs s) cs"
  by (induction cs arbitrary: s) (auto simp: ok_step abs_step)

lemma root_history_free:
  assumes "ok s" and "\<forall>c \<in> set cs. good c" and "\<forall>c \<in> set ds. good c"
    and "foldl (\<lambda>m c. m(fst c := snd c)) (abs s) cs = foldl (\<lambda>m c. m(fst c := snd c)) (abs s) ds"
  shows "root (foldl step s cs) = root (foldl step s ds)"
  using run_refines [of s cs] run_refines [of s ds] assms by (simp add: root_hash)

end

interpretation smt_commit: committed_map "(empty_smt, [])" "apply_change sha" "\<lambda>(t, memo). fst (smt_root sha t memo)"
  "\<lambda>(t, memo). smt_map t" "\<lambda>(t, memo). smt_ok sha key_of t \<and> memo_ok sha key_of memo" "change_ok key_of" "spec_root sha"
  for sha key_of
proof (unfold_locales, goal_cases)
  case 1 show ?case by (simp add: empty_smt_def smt_ok_def smt_map_def)
next
  case 2 show ?case by (simp add: empty_smt_def smt_map_def)
next
  case (3 s c) then show ?case
    using apply_change_ok [of sha key_of "fst s" "snd s" c] by (auto split: prod.splits)
next
  case (4 s c) then show ?case
    using apply_change_ok [of sha key_of "fst s" "snd s" c] by (auto simp: change_map_def split: prod.splits)
next
  case (5 s) then show ?case
    using smt_root_ok [of sha key_of "fst s" "snd s"] by (auto split: prod.splits) (metis fst_conv surj_pair)
qed

end
