(* ===== verification/Smt_Proofs.thy ===== *)
theory Smt_Proofs
  imports Smt_Refine
begin

text \<open>
  The two ways to compute the state root agree: a trie built from leaves and the hash of a sorted list of
  leaves both give the reference tree, and so do the proofs taken from either. A proof is accepted for
  the value the tree holds.
\<close>

subsection \<open>The order of keys and their bits\<close>

lemma word_less_bit:
  assumes "x < (y :: u8)" and "bit x m" and "m < 8" and above: "\<And>n. m < n \<Longrightarrow> bit x n = bit y n"
  shows "bit y m"
proof (rule ccontr)
  assume y: "\<not> bit y m"
  have "drop_bit (Suc m) x = drop_bit (Suc m) y"
    by (rule bit_word_eqI) (use above in \<open>simp add: bit_drop_bit_eq\<close>)
  then have same: "unat x div 2 ^ Suc m = unat y div 2 ^ Suc m"
    by (metis unat_drop_bit_eq drop_bit_eq_div)
  have half: "unat z div 2 ^ m = 2 * (unat z div 2 ^ Suc m) + of_bool (bit z m)" for z :: u8
  proof -
    have "bit z m \<longleftrightarrow> odd (unat z div 2 ^ m)" 
      by (simp add: bit_unsigned_iff flip: bit_iff_odd)
    then show ?thesis by (simp add: div_mult2_eq mult.commute [of 2] flip: mod_2_eq_odd)
  qed
  have "unat x div 2 ^ m \<le> unat y div 2 ^ m" using assms(1) by (simp add: div_le_mono word_less_nat_alt)
  then show False using assms(2) y same half [of x] half [of y] by simp
qed

lemma key_less_bits:
  assumes "a < b" and "length a = 32" and "length b = (32 :: nat)"
  shows "\<exists>d < 256. shares d a b \<and> \<not> bit_at a d \<and> bit_at b d"
proof -
  have "(a, b) \<in> lexord {(u, v). u < v}" using assms(1) by (simp add: list_less_def)
  then obtain us x y vs ws where ab: "a = us @ x # vs" "b = us @ y # ws" and xy: "x < y"
    using assms(2,3) by (auto simp: lexord_def)
  define j where "j = length us"
  have j: "j < 32" "a ! j = x" "b ! j = y" "\<And>i. i < j \<Longrightarrow> a ! i = b ! i"
    using ab assms(2) by (auto simp: j_def nth_append)
  have "x XOR y \<noteq> 0" using xy by (auto simp: xor_eq_0)
  note lead = leading_bit [OF this]
  define t where "t = leading_bit (x XOR y)"
  have t: "t < 8" "bit x (7 - t) \<noteq> bit y (7 - t)" "\<And>i. i < t \<Longrightarrow> bit x (7 - i) = bit y (7 - i)"
    using lead by (auto simp: t_def bit_xor_iff)
  have above: "bit x n = bit y n" if "7 - t < n" for n
  proof (cases "n < 8")
    case True
    then show ?thesis using t(3) [of "7 - n"] that by simp
  qed (use bit_imp_le_length in force)
  have "\<not> bit x (7 - t)" using word_less_bit [OF xy _ _ above] t by auto
  moreover have "shares (8 * j + t) a b"
    unfolding shares_def
  proof (intro allI impI)
    fix i assume i: "i < 8 * j + t"
    show "bit_at a i = bit_at b i"
    proof (cases "i < 8 * j")
      case True
      then have "i div 8 < j" by (simp add: less_mult_imp_div_less mult.commute)
      then show ?thesis by (simp add: bit_at_bit j)
    next
      case False
      then obtain e where "i = 8 * j + e" by (metis le_add_diff_inverse not_less)
      with i t j show ?thesis by (simp add: bit_at_byte)
    qed
  qed
  ultimately show ?thesis using t j by (intro exI [of _ "8 * j + t"]) (auto simp: bit_at_byte)
qed

lemma key_bit_mono:
  assumes "a < b" and "length a = 32" and "length b = (32 :: nat)" and "shares d a b" and "bit_at a d"
  shows "bit_at b d"
proof -
  obtain e where e: "shares e a b" "\<not> bit_at a e" "bit_at b e" using key_less_bits [OF assms(1-3)] by blast
  then have "\<not> e < d" "d \<noteq> e" using assms(4,5) by (auto simp: shares_def)
  then show ?thesis using e(1) assms(5) by (auto simp: shares_def)
qed

lemma key_between:
  assumes "a < x" and "x < b" and "length a = 32" and "length x = 32" and "length b = (32 :: nat)"
  shows "shares d a b \<Longrightarrow> shares d a x"
proof (induction d)
  case (Suc d)
  then have s: "shares d a x" "shares d a b" "bit_at a d = bit_at b d" by (auto simp: shares_Suc)
  have "shares d x b" by (rule shares_trans [OF shares_sym [OF s(1)] s(2)])
  then show ?case
    using s key_bit_mono [OF assms(1,3,4), of d] key_bit_mono [OF assms(2,4,5), of d] by (auto simp: shares_Suc)
qed simp

subsection \<open>Sorted leaves\<close>

definition leaves_ok :: "(hash32 \<Rightarrow> hash32) \<Rightarrow> (hash32 \<times> hash32) list \<Rightarrow> bool" where
  "leaves_ok key_of ls \<longleftrightarrow> sorted_wrt (<) (map fst ls) \<and> (\<forall>l \<in> set ls. length (fst l) = 32 \<and> key_of (snd l) = fst l)"

lemma leaves_ok_filter: "leaves_ok key_of ls \<Longrightarrow> leaves_ok key_of (filter P ls)"
  by (auto simp: leaves_ok_def sorted_wrt_map sorted_wrt_filter)

lemma takeWhile_filter: "sorted_wrt (\<lambda>x y. P y \<longrightarrow> P x) xs \<Longrightarrow> takeWhile P xs = filter P xs"
  by (induction xs) (auto simp: filter_empty_conv)

lemma dropWhile_filter: "sorted_wrt (\<lambda>x y. P y \<longrightarrow> P x) xs \<Longrightarrow> dropWhile P xs = filter (\<lambda>x. \<not> P x) xs"
  by (induction xs) (auto simp: filter_id_conv)

text \<open>Leaves that share \<open>d\<close> bits come with bit \<open>d\<close> clear first.\<close>

lemma split_leaves:
  assumes "leaves_ok key_of ls" and "\<And>l. l \<in> set ls \<Longrightarrow> shares d y (fst l)"
  shows "takeWhile (\<lambda>l. \<not> bit_at (fst l) d) ls = filter (\<lambda>l. \<not> bit_at (fst l) d) ls"
    and "dropWhile (\<lambda>l. \<not> bit_at (fst l) d) ls = filter (\<lambda>l. bit_at (fst l) d) ls"
proof -
  have "sorted_wrt (\<lambda>l m. fst l < fst m) ls" using assms(1) by (simp add: leaves_ok_def sorted_wrt_map)
  then have "sorted_wrt (\<lambda>l m. \<not> bit_at (fst m) d \<longrightarrow> \<not> bit_at (fst l) d) ls"
  proof (rule sorted_wrt_mono_rel [rotated])
    fix l m assume "l \<in> set ls" "m \<in> set ls" "fst l < fst m"
    moreover from this have "shares d (fst l) (fst m)" 
      by (intro shares_trans [OF shares_sym [OF assms(2)] assms(2)])
    ultimately show "\<not> bit_at (fst m) d \<longrightarrow> \<not> bit_at (fst l) d"
      using key_bit_mono assms(1) by (auto simp: leaves_ok_def)
  qed
  from takeWhile_filter [OF this] dropWhile_filter [OF this]
  show "takeWhile (\<lambda>l. \<not> bit_at (fst l) d) ls = filter (\<lambda>l. \<not> bit_at (fst l) d) ls"
    "dropWhile (\<lambda>l. \<not> bit_at (fst l) d) ls = filter (\<lambda>l. bit_at (fst l) d) ls" by simp_all
qed

lemma map_of_side:
  "map_of (filter (\<lambda>l. bit_at (fst l) d) ls) k = (if bit_at k d then map_of ls k else None)"
  "map_of (filter (\<lambda>l. \<not> bit_at (fst l) d) ls) k = (if bit_at k d then None else map_of ls k)"
  using map_of_omap_filter_keys [of "\<lambda>k. bit_at k d" ls k] map_of_omap_filter_keys [of "\<lambda>k. \<not> bit_at k d" ls k]
  by simp_all

subsection \<open>Building a trie\<close>

lemma build_split:
  assumes ok: "leaves_ok key_of (l # ls)" and "ls \<noteq> []" and d: "d = first_diff_bit (fst l) (fst (last ls))"
  shows "d < 256" and "\<And>m. m \<in> set (l # ls) \<Longrightarrow> shares d (fst l) (fst m)"
    and "\<not> bit_at (fst l) d" and "bit_at (fst (last ls)) d"
proof -
  have ls: "ls = butlast ls @ [last ls]" using assms(2) by simp
  have sorted: "\<And>m. m \<in> set ls \<Longrightarrow> fst l < fst m" "\<And>m. m \<in> set (butlast ls) \<Longrightarrow> fst m < fst (last ls)"
    using ok arg_cong [OF ls, of "\<lambda>xs. sorted_wrt (<) (map fst xs)"] by (simp_all add: leaves_ok_def sorted_wrt_append)
  have len: "\<And>m. m \<in> set (l # ls) \<Longrightarrow> length (fst m) = 32" using ok by (auto simp: leaves_ok_def)
  have ends: "length (fst l) = 32" "length (fst (last ls)) = 32" "fst l < fst (last ls)"
    using len sorted assms(2) by auto
  note props = first_diff_bit_props [OF ends(1,2), folded d]
  obtain e where e: "e < 256" "shares e (fst l) (fst (last ls))" "\<not> bit_at (fst l) e" "bit_at (fst (last ls)) e"
    using key_less_bits [OF ends(3,1,2)] by blast
  have "e = d"
  proof (rule antisym)
    show "e \<le> d" using e(1,2) shares_iff_diff [OF ends(1,2), of e] d by simp
    show "d \<le> e" by (rule ccontr) (use props(2) e(3,4) in \<open>simp add: shares_def\<close>)
  qed
  with e show "d < 256" "\<not> bit_at (fst l) d" "bit_at (fst (last ls)) d" by simp_all
  show "shares d (fst l) (fst m)" if m: "m \<in> set (l # ls)" for m
  proof -
    consider "m = l" | "m = last ls" | "m \<in> set (butlast ls)" using m ls by (metis UnE set_ConsD set_append singletonD list.set(1,2) empty_iff insert_iff)
    then show ?thesis
    proof cases
      case 3
      then have "m \<in> set ls" by (rule in_set_butlastD)
      then show ?thesis
        by (intro key_between [OF sorted(1) sorted(2) ends(1) len ends(2) props(2)]) (use 3 in simp_all)
    qed (simp_all add: props)
  qed
qed

lemma smt_build_step:
  assumes "ls \<noteq> []"
  shows "smt_build sha (l # ls) memo =
     (let depth = first_diff_bit (fst l) (fst (last ls));
          low = takeWhile (\<lambda>l. \<not> bit_at (fst l) depth) (l # ls);
          high = dropWhile (\<lambda>l. \<not> bit_at (fst l) depth) (l # ls)
      in if low = [] \<or> high = [] then None
         else (case smt_build sha low memo of
                 None \<Rightarrow> None
               | Some (a, memo) \<Rightarrow>
                   (case smt_build sha high memo of
                      None \<Rightarrow> None
                    | Some (b, memo) \<Rightarrow> Some (branch sha depth a b memo))))"
proof -
  obtain m ms where "ls = m # ms" using assms by (cases ls) auto
  then show ?thesis by (simp only: smt_build.simps)
qed

lemma smt_build_ok:
  "leaves_ok key_of ls \<Longrightarrow> ls \<noteq> [] \<Longrightarrow> memo_ok sha key_of memo
   \<Longrightarrow> \<exists>t memo'. smt_build sha ls memo = Some (t, memo') \<and> node_ok sha key_of t \<and> memo_ok sha key_of memo' \<and> node_map t = map_of ls"
proof (induction "length ls" arbitrary: ls memo rule: less_induct)
  case less
  show ?case
  proof (cases ls)
    case (Cons l rest)
    show ?thesis
    proof (cases "rest = []")
      case True
      then show ?thesis using Cons less.prems by (cases l) (auto simp: leaves_ok_def)
    next
      case False
      define d where "d = first_diff_bit (fst l) (fst (last rest))"
      note split = build_split [OF less.prems(1) [unfolded Cons] False d_def]
      let ?low = "filter (\<lambda>l. \<not> bit_at (fst l) d) ls" and ?high = "filter (\<lambda>l. bit_at (fst l) d) ls"
      have parts: "takeWhile (\<lambda>l. \<not> bit_at (fst l) d) ls = ?low" "dropWhile (\<lambda>l. \<not> bit_at (fst l) d) ls = ?high"
        using split_leaves [OF less.prems(1)] split(2) Cons by blast+
      have "l \<in> set ?low" "last rest \<in> set ?high" using split(3,4) Cons False by auto
      then have ne: "?low \<noteq> []" "?high \<noteq> []" by fastforce+
      then have shorter: "length ?low < length ls" "length ?high < length ls"
        using length_split [of "\<lambda>l. \<not> bit_at (fst l) d" ls, unfolded parts] by blast+
      obtain a memo1 where a: "smt_build sha ?low memo = Some (a, memo1)" "node_ok sha key_of a" "memo_ok sha key_of memo1"
        "node_map a = map_of ?low"
        using less.hyps [OF shorter(1) leaves_ok_filter [OF less.prems(1)] ne(1) less.prems(3)] by blast
      obtain b memo2 where b: "smt_build sha ?high memo1 = Some (b, memo2)" "node_ok sha key_of b" "memo_ok sha key_of memo2"
        "node_map b = map_of ?high"
        using less.hyps [OF shorter(2) leaves_ok_filter [OF less.prems(1)] ne(2) a(3)] by blast
      obtain t memo3 where t: "branch sha d a b memo2 = (t, memo3)" by fastforce
      have keys: "x \<in> fst ` set ls \<and> \<not> bit_at x d" if "node_map a x = Some h" for x h
        using that map_of_SomeD [of ?low x h] by (force simp: a(4))
      have keys': "x \<in> fst ` set ls \<and> bit_at x d" if "node_map b x = Some h" for x h
        using that map_of_SomeD [of ?high x h] by (force simp: b(4))
      have below: "shares d (fst l) x" if "x \<in> fst ` set ls" for x using split(2) Cons that by blast
      have last: "shares d (fst (last rest)) x" if "x \<in> fst ` set ls" for x
        by (rule shares_trans [OF shares_sym [OF below] below [OF that]]) (use Cons False in auto)
      have deep: "d < node_depth a" "d < node_depth b"
        using node_depth_ge [OF a(2), of "Suc d" "fst l"] node_depth_ge [OF b(2), of "Suc d" "fst (last rest)"]
          split(1,3,4) keys keys' below last
        by (auto simp: shares_Suc Suc_le_eq)
      obtain ha hb where "node_map a (node_key a) = Some ha" "node_map b (node_key b) = Some hb"
        using node_key_in a(2) b(2) by blast
      note ends = keys [OF this(1)] keys' [OF this(2)]
      have near: "shares d (node_key a) (node_key b)"
        by (rule shares_trans [OF shares_sym [OF below] below]) (use ends in simp_all)
      have bits: "bit_at (node_key a) d \<noteq> bit_at (node_key b) d" using ends by simp
      note new = branch_ok [OF a(2) b(2) deep near bits b(3) t]
      have "smt_build sha ls memo = Some (t, memo3)"
        using a(1) b(1) ne parts t unfolding Cons
        by (simp only: smt_build_step [OF False] Let_def d_def [symmetric] simp_thms if_False option.case prod.case)
      moreover have "node_map t = map_of ls" using ends by (auto simp: new(3) a(4) b(4) map_of_side fun_eq_iff)
      ultimately show ?thesis using new by blast
    qed
  qed (use less.prems in simp)
qed

subsection \<open>Hashing sorted leaves\<close>

text \<open>The leaves whose keys start with a prefix.\<close>

definition under :: "bool list \<Rightarrow> (hash32 \<times> hash32) list \<Rightarrow> bool" where
  "under p ls \<longleftrightarrow> (\<forall>l \<in> set ls. take (length p) (key_bits (fst l)) = p)"

lemma under_split:
  assumes "under p ls" and "length p < 256"
  shows "under (p @ [False]) (filter (\<lambda>l. \<not> bit_at (fst l) (length p)) ls)"
    and "under (p @ [True]) (filter (\<lambda>l. bit_at (fst l) (length p)) ls)"
  using assms by (auto simp: under_def take_Suc_bits)

lemma under_parts:
  assumes ok: "leaves_ok key_of ls" and under: "under p ls" and p: "length p < 256"
  shows "takeWhile (\<lambda>l. \<not> bit_at (fst l) (length p)) ls = filter (\<lambda>l. \<not> bit_at (fst l) (length p)) ls"
    and "dropWhile (\<lambda>l. \<not> bit_at (fst l) (length p)) ls = filter (\<lambda>l. bit_at (fst l) (length p)) ls"
proof -
  have "shares (length p) (fst (hd ls)) (fst l)" if "l \<in> set ls" for l
  proof -
    have "hd ls \<in> set ls" using that by (cases ls) auto
    then have "take (length p) (key_bits (fst (hd ls))) = take (length p) (key_bits (fst l))"
      using under that by (simp add: under_def)
    then show ?thesis using p by (simp add: shares_take)
  qed
  from split_leaves [OF ok this]
  show "takeWhile (\<lambda>l. \<not> bit_at (fst l) (length p)) ls = filter (\<lambda>l. \<not> bit_at (fst l) (length p)) ls"
    "dropWhile (\<lambda>l. \<not> bit_at (fst l) (length p)) ls = filter (\<lambda>l. bit_at (fst l) (length p)) ls" by simp_all
qed

lemma side_hash:
  assumes "length p + Suc n = 256"
  shows "spec_hash sha (map_of (filter (\<lambda>l. \<not> bit_at (fst l) (length p)) ls)) n (p @ [False]) = spec_hash sha (map_of ls) n (p @ [False])"
    and "spec_hash sha (map_of (filter (\<lambda>l. bit_at (fst l) (length p)) ls)) n (p @ [True]) = spec_hash sha (map_of ls) n (p @ [True])"
proof -
  have p: "length p < 256" using assms by simp
  have bit: "bit_at k (length p) = b" if "take (length (p @ [b])) (key_bits k) = p @ [b]" for k b
    using that take_Suc_bits [OF p, of k] by simp
  show "spec_hash sha (map_of (filter (\<lambda>l. \<not> bit_at (fst l) (length p)) ls)) n (p @ [False]) = spec_hash sha (map_of ls) n (p @ [False])"
    by (rule spec_hash_cong) (use assms bit [where b = False] in \<open>auto simp: map_of_side\<close>)
  show "spec_hash sha (map_of (filter (\<lambda>l. bit_at (fst l) (length p)) ls)) n (p @ [True]) = spec_hash sha (map_of ls) n (p @ [True])"
    by (rule spec_hash_cong) (use assms bit [where b = True] in \<open>auto simp: map_of_side\<close>)
qed

text \<open>At most one leaf: nothing to split.\<close>

lemma few_leaves_ok:
  assumes ok: "leaves_ok key_of ls" and under: "under p ls" and n: "length p + n = 256" and memo: "memo_ok sha key_of memo"
    and few: "ls = [] \<or> ls = [l]"
  shows "\<exists>memo'. smt_subtree sha n ls memo = Some (spec_hash sha (map_of ls) n p, memo') \<and> memo_ok sha key_of memo'"
proof (cases "ls = []")
  case True
  then show ?thesis using memo n by (auto simp: spec_hash_empty empty_hashes_def)
next
  case False
  then have ls: "ls = [(fst l, snd l)]" using few by auto
  have "256 - n = length p" using n by simp
  then have l: "length (fst l) = 32" "key_of (snd l) = fst l" and p: "take (256 - n) (key_bits (fst l)) = p" "256 - n \<le> 256"
    using ok under by (auto simp: ls leaves_ok_def under_def)
  obtain c memo' where run: "single_leaf sha (fst l) (snd l) (256 - n) memo = (c, memo')" by fastforce
  have leaf: "at_depth sha (map_of ls) (fst l) 256 = snd l" using l by (simp add: at_depth_leaf ls)
  have "climb_to sha (fst l) (256 - n) 256 (at_depth sha (map_of ls) (fst l) 256) = at_depth sha (map_of ls) (fst l) (256 - n)"
    by (rule at_depth_climb_to) (auto simp: ls split: if_splits)
  moreover have "at_depth sha (map_of ls) (fst l) (256 - n) = spec_hash sha (map_of ls) n p"
    using p(1) n by (simp add: at_depth_def)
  ultimately have "c = spec_hash sha (map_of ls) n p" using single_leaf_ok(1) [OF memo l(2) p(2) run] leaf by simp
  then show ?thesis using single_leaf_ok(2) [OF memo l(2) p(2) run] run few False by auto
qed

lemma smt_subtree_ok:
  "leaves_ok key_of ls \<Longrightarrow> under p ls \<Longrightarrow> length p + n = 256 \<Longrightarrow> memo_ok sha key_of memo
   \<Longrightarrow> \<exists>memo'. smt_subtree sha n ls memo = Some (spec_hash sha (map_of ls) n p, memo') \<and> memo_ok sha key_of memo'"
proof (induction n arbitrary: ls p memo)
  case (0 ls p memo)
  have "x = y" if "x \<in> set ls" "y \<in> set ls" for x y
  proof -
    have "shares 256 (fst x) (fst y)" using 0(2,3) that by (simp add: shares_take under_def)
    then have "fst x = fst y" using 0(1) that bytes_of_bits by (simp add: leaves_ok_def)
    then show ?thesis using 0(1) that by (metis leaves_ok_def eq_key_imp_eq_value prod.collapse strict_sorted_iff)
  qed
  moreover have "distinct ls" using 0(1) by (auto simp: leaves_ok_def strict_sorted_iff distinct_map)
  ultimately obtain l where "ls = [] \<or> ls = [l]"
    by (metis distinct_length_2_or_more list.exhaust list.set_intros(1,2))
  then show ?case using few_leaves_ok [OF 0] by blast
next
  case (Suc n ls p memo)
  show ?case
  proof (cases "\<exists>l. ls = [] \<or> ls = [l]")
    case True
    then show ?thesis using few_leaves_ok [OF Suc.prems] by blast
  next
    case False
    then obtain l m ms where ls: "ls = l # m # ms" by (metis list.exhaust)
    have d: "255 - n = length p" "length p < 256" using Suc.prems(3) by simp_all
    note parts = under_parts [OF Suc.prems(1,2) d(2)] and side = under_split [OF Suc.prems(2) d(2)]
    let ?low = "filter (\<lambda>l. \<not> bit_at (fst l) (length p)) ls" and ?high = "filter (\<lambda>l. bit_at (fst l) (length p)) ls"
    obtain memo1 where low: "smt_subtree sha n ?low memo = Some (spec_hash sha (map_of ?low) n (p @ [False]), memo1)"
      "memo_ok sha key_of memo1"
      using Suc.IH [OF leaves_ok_filter [OF Suc.prems(1)] side(1) _ Suc.prems(4)] Suc.prems(3) by auto
    obtain memo2 where high: "smt_subtree sha n ?high memo1 = Some (spec_hash sha (map_of ?high) n (p @ [True]), memo2)"
      "memo_ok sha key_of memo2"
      using Suc.IH [OF leaves_ok_filter [OF Suc.prems(1)] side(2) _ low(2)] Suc.prems(3) by auto
    have "smt_subtree sha (Suc n) ls memo = Some (spec_hash sha (map_of ls) (Suc n) p, memo2)"
      using low(1) high(1) parts
      by (simp only: ls smt_subtree.simps nat.case d Let_def option.case prod.case spec_hash.simps
          side_hash [OF Suc.prems(3), unfolded ls])
    then show ?thesis using high(2) by blast
  qed
qed

subsection \<open>Proofs\<close>

text \<open>The siblings of the path of a key in the reference tree, from the leaf to the root.\<close>

definition spec_proof :: "(bytes \<Rightarrow> hash32) \<Rightarrow> (hash32 \<rightharpoonup> hash32) \<Rightarrow> hash32 \<Rightarrow> hash32 list" where
  "spec_proof sha m key = rev (map (off_path sha m key) [0..<256])"

lemma off_path_leaves:
  assumes "d < 256" and "\<And>k. length k = 32 \<Longrightarrow> shares d key k \<Longrightarrow> m k = map_of ls k"
  shows "spec_hash sha (map_of ls) (255 - d) (take d (key_bits key) @ [\<not> bit_at key d]) = off_path sha m key d"
  unfolding off_path_def
proof (rule spec_hash_cong)
  fix k :: hash32 assume k: "length k = 32"
    "take (length (take d (key_bits key) @ [\<not> bit_at key d])) (key_bits k) = take d (key_bits key) @ [\<not> bit_at key d]"
  then have "take d (key_bits k) = take d (key_bits key)" using assms(1) take_Suc_bits [of d k] by simp
  then show "map_of ls k = m k" using assms k(1) by (simp add: shares_take)
qed (use assms(1) in simp)

lemma proof_siblings_ok:
  "leaves_ok key_of ls \<Longrightarrow> under (take (256 - n) (key_bits key)) ls \<Longrightarrow> n \<le> 256 \<Longrightarrow> memo_ok sha key_of memo
   \<Longrightarrow> (\<And>k. length k = 32 \<Longrightarrow> shares (256 - n) key k \<Longrightarrow> m k = map_of ls k)
   \<Longrightarrow> \<exists>memo'. proof_siblings sha key n ls acc memo = Some (rev (map (off_path sha m key) [256 - n..<256]) @ acc, memo')
     \<and> memo_ok sha key_of memo'"
proof (induction n arbitrary: ls memo acc)
  case (Suc n)
  define d where "d = 255 - n"
  have d: "256 - Suc n = d" "d < 256" "256 - n = Suc d" "255 - d = n" using Suc.prems(3) by (auto simp: d_def)
  let ?p = "take d (key_bits key)"
  have p: "length ?p = d" using d by simp
  note parts = under_parts [OF Suc.prems(1,2), unfolded d p, OF d(2)]
    and side = under_split [OF Suc.prems(2), unfolded d p, OF d(2)]
  let ?low = "filter (\<lambda>l. \<not> bit_at (fst l) d) ls" and ?high = "filter (\<lambda>l. bit_at (fst l) d) ls"
  let ?on = "if bit_at key d then ?high else ?low" and ?off = "if bit_at key d then ?low else ?high"
  have ok: "leaves_ok key_of ?on" "leaves_ok key_of ?off" using leaves_ok_filter [OF Suc.prems(1)] by simp_all
  have on: "under (take (256 - n) (key_bits key)) ?on" and off: "under (?p @ [\<not> bit_at key d]) ?off"
    using side d(2) by (simp_all add: d(3) take_Suc_bits)
  have len: "length (?p @ [\<not> bit_at key d]) + n = 256" using d by simp
  obtain memo1 where sib: "smt_subtree sha n ?off memo = Some (spec_hash sha (map_of ?off) n (?p @ [\<not> bit_at key d]), memo1)"
    "memo_ok sha key_of memo1"
    using smt_subtree_ok [OF ok(2) off len Suc.prems(4)] by blast
  have "spec_hash sha (map_of ?off) n (?p @ [\<not> bit_at key d]) = spec_hash sha (map_of ls) n (?p @ [\<not> bit_at key d])"
    using side_hash [of ?p n sha ls] d p by simp
  also have "\<dots> = off_path sha m key d"
    using off_path_leaves [OF d(2) Suc.prems(5) [unfolded d(1)], where sha = sha] by (simp add: d(4))
  finally have hash: "spec_hash sha (map_of ?off) n (?p @ [\<not> bit_at key d]) = off_path sha m key d" .
  have agree: "m k = map_of ?on k" if "length k = 32" "shares (256 - n) key k" for k
    using that Suc.prems(5) [unfolded d(1), of k] by (auto simp: d(3) shares_Suc map_of_side)
  obtain memo2 where rest: "proof_siblings sha key n ?on (off_path sha m key d # acc) memo1 =
      Some (rev (map (off_path sha m key) [256 - n..<256]) @ off_path sha m key d # acc, memo2)" "memo_ok sha key_of memo2"
    using Suc.IH [OF ok(1) on _ sib(2) agree] Suc.prems(3) by auto
  have "proof_siblings sha key (Suc n) ls acc memo =
      Some (rev (map (off_path sha m key) [256 - n..<256]) @ off_path sha m key d # acc, memo2)"
    using sib(1) rest(1) parts hash by (simp add: d_def [symmetric] cong: if_cong)
  moreover have "[d..<256] = d # [Suc d..<256]" using d(2) by (rule upt_conv_Cons)
  ultimately show ?case using rest(2) d by simp
qed simp

lemma verify_walk_spec:
  "e \<le> 256 \<Longrightarrow> verify_walk sha key (256 - e) (rev (map (off_path sha m key) [0..<e])) (at_depth sha m key e) = spec_root sha m"
proof (induction e)
  case 0
  show ?case by (simp add: at_depth_0)
next
  case (Suc e)
  have "255 - (256 - Suc e) = e" "Suc (256 - Suc e) = 256 - e" using Suc.prems by simp_all
  then show ?case using Suc at_depth_step [of e sha m key] by simp
qed

lemma spec_proof_verifies:
  assumes "length key = 32" and "m key = map_option (smt_leaf_hash sha key) val"
  shows "verify_proof sha (spec_root sha m) key val (spec_proof sha m key)"
  using verify_walk_spec [of 256 sha key m] assms
  by (cases val) (simp_all add: verify_proof_def spec_proof_def at_depth_leaf del: upt.simps)

subsection \<open>Sorting and removing repeated keys\<close>

lemma map_of_key_filter: "map_of xs k = map_of (filter (\<lambda>x. fst x = k) xs) k"
  using map_of_omap_filter_keys [of "\<lambda>a. a = k" xs k] by simp

lemma map_of_sort_key: "map_of (sort_key fst xs) = map_of xs"
proof
  fix k
  have "map_of (sort_key fst xs) k = map_of (filter (\<lambda>x. fst x = k) (sort_key fst xs)) k" by (rule map_of_key_filter)
  also have "\<dots> = map_of xs k" by (simp add: sort_key_stable flip: map_of_key_filter)
  finally show "map_of (sort_key fst xs) k = map_of xs k" .
qed

lemma map_of_rev_sort_key: "map_of (rev (sort_key fst xs)) = map_of (rev xs)"
proof
  fix k
  have "map_of (rev (sort_key fst xs)) k = map_of (rev (filter (\<lambda>x. fst x = k) (sort_key fst xs))) k"
    by (subst map_of_key_filter) (simp add: rev_filter)
  also have "\<dots> = map_of (rev xs) k" by (simp add: sort_key_stable rev_filter flip: map_of_key_filter)
  finally show "map_of (rev (sort_key fst xs)) k = map_of (rev xs) k" .
qed

definition descending :: "('k::linorder \<times> 'v) list \<Rightarrow> bool" where
  "descending acc \<longleftrightarrow> sorted_wrt (\<lambda>x y. fst y < fst x) acc"

lemma descending_rev: "descending acc \<Longrightarrow> sorted_wrt (<) (map fst (rev acc)) \<and> map_of (rev acc) = map_of acc"
proof -
  assume d: "descending acc"
  then have s: "sorted_wrt (<) (map fst (rev acc))"
    by (simp add: descending_def rev_map [symmetric] sorted_wrt_rev sorted_wrt_map)
  then have "distinct (map fst (rev acc))" by (simp only: strict_sorted_iff)
  then have "map_of (rev acc) = map_of acc" by (subst map_of_inject_set) (simp_all add: rev_map [symmetric])
  with s show ?thesis by blast
qed

lemma push_simps:
  "push_first [] l = [l]" "push_first (b # bs) l = (if fst b = fst l then b # bs else l # b # bs)"
  "push_last [] l = [l]" "push_last (b # bs) l = (if fst b = fst l then l # bs else l # b # bs)"
  by (simp_all add: push_first_def push_last_def)

lemma push_first_fold:
  "sorted (map fst xs) \<Longrightarrow>
   descending (foldl push_first [] xs) \<and> map_of (foldl push_first [] xs) = map_of xs
   \<and> (\<forall>x \<in> set xs. foldl push_first [] xs \<noteq> [] \<and> fst x \<le> fst (hd (foldl push_first [] xs)))
   \<and> set (foldl push_first [] xs) \<subseteq> set xs"
proof (induction xs rule: rev_induct)
  case (snoc x xs)
  let ?acc = "foldl push_first [] xs"
  have IH: "descending ?acc" "map_of ?acc = map_of xs" "\<And>y. y \<in> set xs \<Longrightarrow> ?acc \<noteq> [] \<and> fst y \<le> fst (hd ?acc)"
    "set ?acc \<subseteq> set xs" and le: "\<And>y. y \<in> set xs \<Longrightarrow> fst y \<le> fst x"
    using snoc by (auto simp: sorted_append)
  show ?case
  proof (cases ?acc)
    case Nil
    then have "xs = []" using IH(3) by (cases xs) auto
    then show ?thesis by (simp add: push_simps descending_def)
  next
    case (Cons b bs)
    have b: "b \<in> set xs" using IH(4) Cons by auto
    show ?thesis
    proof (cases "fst b = fst x")
      case True
      then have "map_of xs (fst x) \<noteq> None" using b by (metis imageI map_of_eq_None_iff)
      then have "map_of (xs @ [x]) = map_of xs" by (cases x) (auto simp: fun_eq_iff map_add_def split: option.splits)
      then show ?thesis using IH Cons True le by (auto simp: push_simps)
    next
      case False
      then have "fst b < fst x" using le [OF b] by simp
      then have less: "\<And>y. y \<in> set xs \<Longrightarrow> fst y < fst x" using IH(3) Cons by fastforce
      then have "map_of xs (fst x) = None" by (force simp: map_of_eq_None_iff)
      then have "map_of (xs @ [x]) = map_of (x # xs)" by (cases x) (auto simp: fun_eq_iff map_add_def split: option.splits)
      then show ?thesis using IH Cons False less le by (auto simp: push_simps descending_def fun_eq_iff less_imp_le)
    qed
  qed
qed (simp add: descending_def)

lemma push_last_fold:
  "sorted (map fst xs) \<Longrightarrow>
   descending (foldl push_last [] xs) \<and> map_of (foldl push_last [] xs) = map_of (rev xs)
   \<and> (\<forall>x \<in> set xs. foldl push_last [] xs \<noteq> [] \<and> fst x \<le> fst (hd (foldl push_last [] xs)))
   \<and> set (foldl push_last [] xs) \<subseteq> set xs"
proof (induction xs rule: rev_induct)
  case (snoc x xs)
  let ?acc = "foldl push_last [] xs"
  have IH: "descending ?acc" "map_of ?acc = map_of (rev xs)" "\<And>y. y \<in> set xs \<Longrightarrow> ?acc \<noteq> [] \<and> fst y \<le> fst (hd ?acc)"
    "set ?acc \<subseteq> set xs" and le: "\<And>y. y \<in> set xs \<Longrightarrow> fst y \<le> fst x"
    using snoc by (auto simp: sorted_append)
  show ?case
  proof (cases ?acc)
    case Nil
    then have "xs = []" using IH(3) by (cases xs) auto
    then show ?thesis by (simp add: push_simps descending_def)
  next
    case (Cons b bs)
    have b: "b \<in> set xs" using IH(4) Cons by auto
    show ?thesis
    proof (cases "fst b = fst x")
      case True
      have "map_of bs k = map_of (rev xs) k" if "k \<noteq> fst x" for k
        using fun_cong [OF IH(2), of k] that True Cons by simp
      then have "map_of (x # bs) = map_of (x # rev xs)" by (auto simp: fun_eq_iff)
      then show ?thesis using IH(1,3,4) Cons True le by (auto simp: push_simps descending_def)
    next
      case False
      then have "fst b < fst x" using le [OF b] by simp
      then have less: "\<And>y. y \<in> set xs \<Longrightarrow> fst y < fst x" using IH(3) Cons by fastforce
      then show ?thesis using IH Cons False less by (auto simp: push_simps descending_def fun_eq_iff less_imp_le)
    qed
  qed
qed (simp add: descending_def)

subsection \<open>Roots and proofs from leaves\<close>

text \<open>Leaf hashes of a map from keys to values, and the hypothesis that they determine their keys.\<close>

definition leaf_map :: "(bytes \<Rightarrow> hash32) \<Rightarrow> (hash32 \<rightharpoonup> bytes) \<Rightarrow> hash32 \<rightharpoonup> hash32" where
  "leaf_map sha vals = (\<lambda>k. map_option (smt_leaf_hash sha k) (vals k))"

definition bound_leaves :: "(bytes \<Rightarrow> hash32) \<Rightarrow> (hash32 \<Rightarrow> hash32) \<Rightarrow> (hash32 \<times> bytes) list \<Rightarrow> bool" where
  "bound_leaves sha key_of ls \<longleftrightarrow> (\<forall>(k, v) \<in> set ls. length k = 32 \<and> key_of (smt_leaf_hash sha k v) = k)"

lemma map_of_leaf_hashes: "map_of (map (\<lambda>(k, v). (k, smt_leaf_hash sha k v)) ls) = leaf_map sha (map_of ls)"
  by (induction ls) (auto simp: leaf_map_def fun_eq_iff)

lemma sorted_leaves_ok:
  assumes "bound_leaves sha key_of ls"
  shows "leaves_ok key_of (sorted_leaves sha ls)" and "map_of (sorted_leaves sha ls) = leaf_map sha (map_of ls)"
proof -
  let ?kept = "foldl push_first [] (sort_key fst ls)"
  note fold = push_first_fold [of "sort_key fst ls"]
  have d: "descending ?kept" "map_of ?kept = map_of ls" "set ?kept \<subseteq> set ls"
    using fold by (simp_all add: map_of_sort_key)
  have keys: "map fst (sorted_leaves sha ls) = map fst (rev ?kept)"
    by (simp add: sorted_leaves_def case_prod_beta comp_def)
  have "length (fst l) = 32 \<and> key_of (snd l) = fst l" if l: "l \<in> set (sorted_leaves sha ls)" for l
  proof -
    obtain k v where kv: "(k, v) \<in> set ?kept" "l = (k, smt_leaf_hash sha k v)" using l by (auto simp: sorted_leaves_def)
    then have "(k, v) \<in> set ls" using d(3) by blast
    then show ?thesis using assms kv(2) by (auto simp: bound_leaves_def)
  qed
  then show "leaves_ok key_of (sorted_leaves sha ls)" using descending_rev [OF d(1)] by (simp only: leaves_ok_def keys) blast
  show "map_of (sorted_leaves sha ls) = leaf_map sha (map_of ls)"
    unfolding sorted_leaves_def map_of_leaf_hashes using descending_rev [OF d(1)] d(2) by simp
qed

lemma hash_sorted_leaves_ok:
  assumes "leaves_ok key_of ls" and "memo_ok sha key_of memo"
  shows "\<exists>memo'. hash_sorted_leaves sha ls proof_key memo =
      Some ((spec_root sha (map_of ls), case proof_key of None \<Rightarrow> [] | Some key \<Rightarrow> spec_proof sha (map_of ls) key), memo')
    \<and> memo_ok sha key_of memo'"
proof -
  have under: "under [] ls" by (simp add: under_def)
  obtain sib memo1 where sib: "(case proof_key of None \<Rightarrow> Some ([], trim_memo memo)
      | Some key \<Rightarrow> proof_siblings sha key 256 ls [] (trim_memo memo)) = Some (sib, memo1)"
    "memo_ok sha key_of memo1" "sib = (case proof_key of None \<Rightarrow> [] | Some key \<Rightarrow> spec_proof sha (map_of ls) key)"
  proof (cases proof_key)
    case (Some key)
    have "\<exists>memo'. proof_siblings sha key 256 ls [] (trim_memo memo) = Some (rev (map (off_path sha (map_of ls) key) [256 - 256..<256]) @ [], memo')
        \<and> memo_ok sha key_of memo'"
      by (rule proof_siblings_ok) (use assms under in simp_all)
    then obtain memo' where "proof_siblings sha key 256 ls [] (trim_memo memo) = Some (spec_proof sha (map_of ls) key, memo')"
      "memo_ok sha key_of memo'" by (auto simp: spec_proof_def)
    then show ?thesis using Some by (intro that) simp_all
  next
    case None
    then show ?thesis using assms by (intro that [of "[]" "trim_memo memo"]) simp_all
  qed
  have "\<exists>memo'. smt_subtree sha 256 ls memo1 = Some (spec_hash sha (map_of ls) 256 [], memo') \<and> memo_ok sha key_of memo'"
    by (rule smt_subtree_ok) (use assms(1) under sib(2) in simp_all)
  then show ?thesis using sib by (auto simp: hash_sorted_leaves_def spec_root_def Let_def)
qed

lemma from_leaf_hashes_ok:
  assumes leaves: "\<forall>l \<in> set ls. length (fst l) = 32 \<and> key_of (snd l) = fst l" and memo: "memo_ok sha key_of memo"
  shows "\<exists>t memo'. from_leaf_hashes sha ls memo = Some (t, memo') \<and> smt_ok sha key_of t \<and> memo_ok sha key_of memo'
    \<and> smt_map t = map_of (rev ls)"
proof -
  define kept where "kept = rev (foldl push_last [] (sort_key fst ls))"
  note fold = push_last_fold [of "sort_key fst ls"]
  have d: "descending (rev kept)" "map_of (rev kept) = map_of (rev ls)" "set kept \<subseteq> set ls"
    using fold by (simp_all add: map_of_rev_sort_key kept_def)
  then have m: "map_of kept = map_of (rev ls)" "sorted_wrt (<) (map fst kept)" using descending_rev [OF d(1)] by simp_all
  then have ok: "leaves_ok key_of kept" using leaves d(3) by (auto simp: leaves_ok_def)
  show ?thesis
  proof (cases "kept = []")
    case True
    then show ?thesis using memo m(1)
      by (auto simp: from_leaf_hashes_def empty_smt_def smt_ok_def smt_map_def simp flip: kept_def)
  next
    case False
    obtain t memo' where t: "smt_build sha kept (trim_memo memo) = Some (t, memo')" "node_ok sha key_of t"
      "memo_ok sha key_of memo'" "node_map t = map_of kept"
      using smt_build_ok [OF ok False memo_ok_trim [OF memo]] by blast
    have "distinct (map fst kept)" using m(2) by (simp add: strict_sorted_iff)
    then have "card (dom (map_of kept)) = length kept"
      by (metis distinct_card dom_map_of_conv_image_fst length_map set_map)
    then show ?thesis using False t m
      by (auto simp: from_leaf_hashes_def smt_ok_def smt_map_def simp flip: kept_def)
  qed
qed

subsection \<open>Proofs from the trie\<close>

text \<open>
  On the way down, \<open>e\<close> bits of the key are behind: the subtree holds the keys that share them, the
  siblings above are in place, and those below still have their empty defaults.
\<close>

definition on_path :: "(bytes \<Rightarrow> hash32) \<Rightarrow> (hash32 \<Rightarrow> hash32) \<Rightarrow> (hash32 \<rightharpoonup> hash32) \<Rightarrow> hash32 \<Rightarrow> nat \<Rightarrow> smt_node \<Rightarrow> bool" where
  "on_path sha key_of m key e t \<longleftrightarrow> node_ok sha key_of t \<and> e \<le> node_depth t \<and> shares e key (node_key t)
     \<and> (\<forall>x. length x = 32 \<longrightarrow> shares e key x \<longrightarrow> m x = node_map t x)"

definition filled :: "(bytes \<Rightarrow> hash32) \<Rightarrow> (hash32 \<rightharpoonup> hash32) \<Rightarrow> hash32 \<Rightarrow> nat \<Rightarrow> hash32 list \<Rightarrow> bool" where
  "filled sha m key e sibs \<longleftrightarrow> length sibs = 256
     \<and> (\<forall>d < 256. sibs ! (255 - d) = (if d < e then off_path sha m key d else empty_hashes sha (Suc d)))"

lemma filled_done: "filled sha m key 256 sibs \<Longrightarrow> sibs = spec_proof sha m key"
proof (rule nth_equalityI)
  fix i assume f: "filled sha m key 256 sibs" and "i < length sibs"
  then have all: "\<forall>d < 256. sibs ! (255 - d) = off_path sha m key d" and "i < 256" by (auto simp: filled_def)
  with spec [OF all, of "255 - i"] show "sibs ! i = spec_proof sha m key ! i" by (simp add: spec_proof_def rev_nth)
qed (simp add: filled_def spec_proof_def)

text \<open>No key branches off between two depths: the defaults stay.\<close>

lemma filled_skip:
  assumes "filled sha m key e sibs" and "e \<le> f"
    and "\<And>d x. e \<le> d \<Longrightarrow> d < f \<Longrightarrow> length x = 32 \<Longrightarrow> shares d key x \<Longrightarrow> bit_at x d \<noteq> bit_at key d \<Longrightarrow> m x = None"
  shows "filled sha m key f sibs"
  unfolding filled_def
proof (intro conjI allI impI)
  show "length sibs = 256" using assms(1) by (simp add: filled_def)
  fix d :: nat assume d: "d < 256"
  show "sibs ! (255 - d) = (if d < f then off_path sha m key d else empty_hashes sha (Suc d))"
  proof (cases "e \<le> d \<and> d < f")
    case True
    then have "off_path sha m key d = empty_hashes sha (Suc d)" using off_path_empty [OF d] assms(3) by blast
    then show ?thesis using assms(1) d True by (simp add: filled_def)
  qed (use assms d in \<open>auto simp: filled_def\<close>)
qed

lemma filled_set:
  assumes "filled sha m key f sibs" and "f < 256"
  shows "filled sha m key (Suc f) (sibs[255 - f := off_path sha m key f])"
  using assms by (auto simp: filled_def nth_list_update less_Suc_eq)

lemma on_path_keys:
  assumes "on_path sha key_of m key e t" and "e \<le> d" and "length x = 32" and "shares d key x" and "m x \<noteq> None"
  shows "shares (node_depth t) (node_key t) x"
proof -
  have "m x = node_map t x" using assms shares_le [OF assms(4,2)] by (simp add: on_path_def)
  then show ?thesis using assms(1,5) node_keys [of sha key_of t x] by (auto simp: on_path_def)
qed

lemma on_path_skip:
  assumes at: "on_path sha key_of m key e t" and fill: "filled sha m key e sibs"
    and f: "e \<le> f" "f \<le> node_depth t" "shares f key (node_key t)"
  shows "filled sha m key f sibs"
proof (rule filled_skip [OF fill f(1)])
  fix d x assume x: "e \<le> d" "d < f" "length x = 32" "shares d key x" "bit_at x d \<noteq> bit_at key d"
  show "m x = None"
  proof (rule ccontr)
    assume "m x \<noteq> None"
    from on_path_keys [OF at x(1,3,4) this] have "bit_at (node_key t) d = bit_at x d" using x(2) f(2) by (simp add: shares_def)
    then show False using x(2,5) f(3) by (simp add: shares_def)
  qed
qed

lemma lift_off_path:
  assumes ok: "node_ok sha key_of t" and memo: "memo_ok sha key_of memo" and d: "d < node_depth t"
    and key: "shares d key (node_key t)" "bit_at (node_key t) d \<noteq> bit_at key d"
    and m: "\<And>x. length x = 32 \<Longrightarrow> shares (Suc d) (node_key t) x \<Longrightarrow> m x = node_map t x"
    and run: "lift sha t (d + 1) memo = (c, memo')"
  shows "c = off_path sha m key d \<and> memo_ok sha key_of memo'"
proof -
  have "d < 256" using d node_depth_le [OF ok] by simp
  then have "off_path sha m key d = at_depth sha m (node_key t) (Suc d)" using off_path_at [OF _ key] by simp
  also have "\<dots> = at_depth sha (node_map t) (node_key t) (Suc d)"
    by (rule at_depth_cong) (use \<open>d < 256\<close> m in auto)
  finally show ?thesis using lift_ok [OF ok memo _ run] d by simp
qed

text \<open>The key leaves the subtree: all of it is the last sibling.\<close>

lemma walk_leaves:
  assumes at: "on_path sha key_of m key e t" and fill: "filled sha m key e sibs" and memo: "memo_ok sha key_of memo"
    and key: "length key = 32" and f: "f = first_diff_bit (node_key t) key" "f < node_depth t"
    and run: "lift sha t (f + 1) memo = (c, memo')"
  shows "sibs[255 - f := c] = spec_proof sha m key \<and> memo_ok sha key_of memo'"
proof -
  have ok: "node_ok sha key_of t" and e: "shares e key (node_key t)" "e \<le> node_depth t" using at by (simp_all add: on_path_def)
  note len = node_key_length [OF ok] and le = node_depth_le [OF ok]
  have f256: "f < 256" using f(2) le by simp
  note props = first_diff_bit_props [OF len key, folded f(1)]
  have ef: "e \<le> f" using shares_iff_diff [OF len key, of e] shares_sym [OF e(1)] e(2) le f(1) by simp
  have share: "shares f key (node_key t)" by (rule shares_sym) (rule props(2))
  have diff: "bit_at (node_key t) f \<noteq> bit_at key f" by (rule props(3)) (rule f256)
  have c: "c = off_path sha m key f \<and> memo_ok sha key_of memo'"
  proof (rule lift_off_path [OF ok memo f(2) share diff _ run])
    fix x :: hash32 assume x: "length x = 32" "shares (Suc f) (node_key t) x"
    then have "shares e key x" using shares_trans [OF e(1)] shares_le [OF x(2), of e] ef by simp
    then show "m x = node_map t x" using at x(1) by (simp add: on_path_def)
  qed
  have "filled sha m key (Suc f) (sibs[255 - f := c])"
    using filled_set [OF on_path_skip [OF at fill ef _ share] f256] f(2) c by simp
  then have "filled sha m key 256 (sibs[255 - f := c])"
  proof (rule filled_skip)
    fix d x assume x: "Suc f \<le> d" "length x = 32" "shares d key x"
    show "m x = None"
    proof (rule ccontr)
      assume "m x \<noteq> None"
      then have "shares (node_depth t) (node_key t) x" using on_path_keys [OF at _ x(2,3)] x(1) ef by simp
      then show False using x(1,3) f(2) diff by (simp add: shares_def)
    qed
  qed (use f256 in simp)
  with c show ?thesis by (simp add: filled_done)
qed

text \<open>One step down, to the side \<open>c\<close> of the key, with the other side \<open>s\<close> as a sibling.\<close>

lemma walk_step:
  assumes at: "on_path sha key_of m key e (TBranch d k h l r)" and fill: "filled sha m key e sibs"
    and memo: "memo_ok sha key_of memo" and key: "length key = 32" and diff: "\<not> first_diff_bit k key < d"
    and sides: "(c, s) = (if bit_at key d then (r, l) else (l, r))"
    and run: "lift sha s (d + 1) memo = (x, memo')"
  shows "on_path sha key_of m key (Suc d) c \<and> filled sha m key (Suc d) (sibs[255 - d := x]) \<and> memo_ok sha key_of memo'"
proof -
  let ?t = "TBranch d k h l r"
  have ok: "node_ok sha key_of ?t" and e: "e \<le> d" using at by (simp_all add: on_path_def)
  have d: "d < 256" using ok node_depth_le [of sha key_of l] by auto
  have m: "m y = node_map ?t y" if "length y = 32" "shares d key y" for y
    using at that shares_le [OF that(2) e] by (simp add: on_path_def)
  have c: "shares (Suc d) key (node_key c)"
    by (rule shares_sym) (use path_side [OF ok key diff] sides in \<open>auto split: if_splits\<close>)
  have k: "shares d key (node_key l)"
    using shares_iff_diff [of k key d] ok key diff d node_key_length [of sha key_of l] by (auto intro: shares_sym)
  then have "shares d key (node_key r)" using ok shares_trans [OF k] by auto
  with k have s: "shares d key (node_key s)" "bit_at (node_key s) d \<noteq> bit_at key d" "node_ok sha key_of s" "d < node_depth s"
    using ok sides by (auto split: if_splits)
  have "x = off_path sha m key d \<and> memo_ok sha key_of memo'"
  proof (rule lift_off_path [OF s(3) memo s(4) s(1,2) _ run])
    fix y :: hash32 assume y: "length y = 32" "shares (Suc d) (node_key s) y"
    then have "shares d key y" "bit_at y d \<noteq> bit_at key d" using s shares_trans [OF s(1)] by (auto simp: shares_Suc)
    then show "m y = node_map s y" using m [OF y(1)] sides by (auto split: if_splits)
  qed
  moreover have "filled sha m key d sibs" using on_path_skip [OF at fill e] k ok by simp
  moreover have "on_path sha key_of m key (Suc d) c"
    using c ok sides m by (auto simp: on_path_def shares_Suc split: if_splits)
  ultimately show ?thesis using filled_set d by blast
qed

lemma proof_walk_ok:
  "on_path sha key_of m key e t \<Longrightarrow> filled sha m key e sibs \<Longrightarrow> memo_ok sha key_of memo \<Longrightarrow> length key = 32
   \<Longrightarrow> proof_walk sha key t sibs memo = (sibs', memo') \<Longrightarrow> sibs' = spec_proof sha m key \<and> memo_ok sha key_of memo'"
proof (induction t arbitrary: e sibs memo)
  case (TLeaf k h)
  have k: "length k = 32" using TLeaf.prems(1) by (simp add: on_path_def)
  show ?case
  proof (cases "k = key")
    case True
    have "filled sha m key 256 sibs"
      by (rule on_path_skip [OF TLeaf.prems(1,2)]) (use TLeaf.prems(1) True in \<open>simp_all add: on_path_def\<close>)
    moreover have "first_diff_bit k key = 256" using True k by simp
    ultimately show ?thesis using TLeaf.prems(3,5) by (simp add: filled_done Let_def)
  next
    case False
    then have "first_diff_bit k key < 256"
      using first_diff_bit_props(1) [OF k TLeaf.prems(4)] first_diff_256 [OF k TLeaf.prems(4)] by linarith
    then show ?thesis
      using walk_leaves [OF TLeaf.prems(1-4), of "first_diff_bit k key"] TLeaf.prems(5)
      by (auto simp: Let_def split: prod.splits)
  qed
next
  case (TBranch d k h l r)
  let ?t = "TBranch d k h l r"
  have ok: "node_ok sha key_of ?t" using TBranch.prems(1) by (simp add: on_path_def)
  show ?case
  proof (cases "first_diff_bit k key < d")
    case True
    obtain x memo1 where x: "lift sha ?t (first_diff_bit k key + 1) memo = (x, memo1)" by fastforce
    have "first_diff_bit k key < 256" using True node_depth_le [OF ok] by simp
    then show ?thesis
      using walk_leaves [OF TBranch.prems(1-4) _ _ x] TBranch.prems(5) True x by (simp del: lift.simps)
  next
    case False
    obtain c s where cs: "(c, s) = (if bit_at key d then (r, l) else (l, r))" by metis
    obtain x memo1 where x: "lift sha s (d + 1) memo = (x, memo1)" by fastforce
    note step = walk_step [OF TBranch.prems(1-4) False cs x]
    have "proof_walk sha key c (sibs[255 - d := x]) memo1 = (sibs', memo')"
      using TBranch.prems(5) False cs x by (auto split: if_splits)
    then show ?thesis
      using TBranch.IH(1) [of "Suc d" "sibs[255 - d := x]" memo1] TBranch.IH(2) [of "Suc d" "sibs[255 - d := x]" memo1]
        step TBranch.prems(4) cs by (auto split: if_splits)
  qed
qed

lemma smt_proof_ok:
  assumes "smt_ok sha key_of t" and "memo_ok sha key_of memo" and "length key = 32" and "smt_proof sha t key memo = (sibs, memo')"
  shows "sibs = spec_proof sha (smt_map t) key" and "memo_ok sha key_of memo'"
proof -
  let ?default = "map (\<lambda>i. empty_hashes sha (256 - i)) [0..<256]"
  have start: "filled sha m key 0 ?default" for m
    by (auto simp: filled_def Suc_diff_le simp flip: Suc_diff_le)
  show "sibs = spec_proof sha (smt_map t) key" "memo_ok sha key_of memo'"
  proof (atomize (full), cases "ps_root t")
    case None
    have "filled sha (smt_map t) key 256 ?default" by (rule filled_skip [OF start]) (use None in \<open>simp_all add: smt_map_def\<close>)
    then show "sibs = spec_proof sha (smt_map t) key \<and> memo_ok sha key_of memo'"
      using assms None filled_done by (auto simp: smt_proof_def)
  next
    case (Some n)
    then have "on_path sha key_of (smt_map t) key 0 n" using assms(1) by (simp add: on_path_def smt_ok_def smt_map_def)
    from proof_walk_ok [OF this start assms(2,3)] show "sibs = spec_proof sha (smt_map t) key \<and> memo_ok sha key_of memo'"
      using assms(4) Some by (simp add: smt_proof_def)
  qed
qed

end
