(* ===== verification/Smt_Wire.thy ===== *)
theory Smt_Wire
  imports Smt_Proofs
begin

text \<open>
  Compact proofs and deltas on the wire, what a proof binds, and the properties of the sparse Merkle tree
  as a whole.
\<close>

subsection \<open>Compact proofs\<close>

lemma odd_drop_bit: "drop_bit n (x :: u8) AND 1 \<noteq> 0 \<longleftrightarrow> bit x n"
  by (simp only: and_one_eq bit_iff_odd_drop_bit even_iff_mod_2_eq_zero)

lemma decode_siblings_ok:
  "\<forall>i \<in> set is. bit (bs ! (i div 8)) (i mod 8) = (sib i \<noteq> empty_hashes sha (256 - i)) \<and> length (sib i) = 32
   \<Longrightarrow> drop pos bs = concat (map sib (filter (\<lambda>i. sib i \<noteq> empty_hashes sha (256 - i)) is)) \<Longrightarrow> pos \<le> length bs
   \<Longrightarrow> decode_siblings sha bs is pos = Some (map sib is, length bs)"
proof (induction "is" arbitrary: pos)
  case (Cons i "is")
  show ?case
  proof (cases "sib i = empty_hashes sha (256 - i)")
    case True
    then show ?thesis using Cons by (simp add: odd_drop_bit)
  next
    case False
    let ?rest = "concat (map sib (filter (\<lambda>i. sib i \<noteq> empty_hashes sha (256 - i)) is))"
    have at: "drop pos bs = sib i @ ?rest" "length (sib i) = 32" using Cons.prems(1,2) False by simp_all
    have "length bs - pos = 32 + length ?rest" using arg_cong [OF at(1), of length] at(2) by simp
    then have pos: "pos + 32 \<le> length bs" by linarith
    moreover have "take 32 (drop pos bs) = sib i" using at by simp
    moreover have "drop (pos + 32) bs = drop 32 (drop pos bs)" by (simp add: add.commute)
    then have "drop (pos + 32) bs = ?rest" unfolding at(1) using at(2) by simp
    ultimately show ?thesis using Cons False by (simp add: odd_drop_bit)
  qed
qed simp

lemma same_bit_index: "k div 8 = i div 8 \<Longrightarrow> k mod 8 = i mod 8 \<longleftrightarrow> k = (i :: nat)"
  by (metis div_mult_mod_eq)

lemma encode_fold:
  assumes "k \<le> 256"
  shows "\<exists>bm. length bm = 32 \<and> (\<forall>i < 256. bit (bm ! (i div 8)) (i mod 8) \<longleftrightarrow> i < k \<and> sib i \<noteq> empty_hashes sha (256 - i))
    \<and> foldl (\<lambda>out i. if sib i = empty_hashes sha (256 - i) then out
         else out[i div 8 := out ! (i div 8) OR push_bit (i mod 8) 1] @ sib i) (replicate 32 (0 :: u8)) [0..<k]
      = bm @ concat (map sib (filter (\<lambda>i. sib i \<noteq> empty_hashes sha (256 - i)) [0..<k]))"
  using assms
proof (induction k)
  case 0
  show ?case by (intro exI [of _ "replicate 32 0"]) auto
next
  case (Suc k)
  then obtain bm where bm: "length bm = 32" "\<forall>i < 256. bit (bm ! (i div 8)) (i mod 8) \<longleftrightarrow> i < k \<and> sib i \<noteq> empty_hashes sha (256 - i)"
    "foldl (\<lambda>out i. if sib i = empty_hashes sha (256 - i) then out
         else out[i div 8 := out ! (i div 8) OR push_bit (i mod 8) 1] @ sib i) (replicate 32 (0 :: u8)) [0..<k]
      = bm @ concat (map sib (filter (\<lambda>i. sib i \<noteq> empty_hashes sha (256 - i)) [0..<k]))"
    by auto
  show ?case
  proof (cases "sib k = empty_hashes sha (256 - k)")
    case True
    then show ?thesis using bm by (intro exI [of _ bm]) (auto simp: less_Suc_eq)
  next
    case False
    let ?bm = "bm[k div 8 := bm ! (k div 8) OR push_bit (k mod 8) 1]"
    have k: "k div 8 < 32" using Suc.prems by simp
    have "bit (?bm ! (i div 8)) (i mod 8) \<longleftrightarrow> i < Suc k \<and> sib i \<noteq> empty_hashes sha (256 - i)" if "i < 256" for i
      using bm(1,2) that False k same_bit_index [of k i]
      by (auto simp: nth_list_update bit_or_iff bit_exp_iff possible_bit_word less_Suc_eq)
    then show ?thesis using bm(1,3) False k by (intro exI [of _ ?bm]) (simp add: nth_append list_update_append1)
  qed
qed

lemma compact_proof_round_trip:
  assumes "length sibs = 256" and "\<forall>s \<in> set sibs. length s = 32"
  shows "decode_compact_proof sha (encode_compact_proof sha sibs) = Some sibs"
proof -
  obtain bm where bm: "length bm = 32" "\<forall>i < 256. bit (bm ! (i div 8)) (i mod 8) \<longleftrightarrow> sibs ! i \<noteq> empty_hashes sha (256 - i)"
    "encode_compact_proof sha sibs = bm @ concat (map ((!) sibs) (filter (\<lambda>i. sibs ! i \<noteq> empty_hashes sha (256 - i)) [0..<256]))"
    using encode_fold [of 256 "(!) sibs" sha] assms(1) by (auto simp: encode_compact_proof_def)
  have "decode_siblings sha (encode_compact_proof sha sibs) [0..<256] 32 =
      Some (map ((!) sibs) [0..<256], length (encode_compact_proof sha sibs))"
  proof (rule decode_siblings_ok)
    show "\<forall>i \<in> set [0..<256]. bit (encode_compact_proof sha sibs ! (i div 8)) (i mod 8) = (sibs ! i \<noteq> empty_hashes sha (256 - i))
        \<and> length (sibs ! i) = 32"
      using bm assms by (auto simp: nth_append)
  qed (simp_all add: bm)
  moreover have "map ((!) sibs) [0..<256] = sibs" using map_nth [of sibs] assms(1) by simp
  moreover have "\<not> length (encode_compact_proof sha sibs) < 32" using bm by simp
  ultimately show ?thesis by (simp add: decode_compact_proof_def)
qed

subsection \<open>Deltas\<close>

definition wf_change :: "hash32 \<times> hash32 option \<Rightarrow> bool" where
  "wf_change = (\<lambda>(key, leaf). length key = 32 \<and> (case leaf of None \<Rightarrow> True | Some h \<Rightarrow> length h = 32))"

lemma u8_at_most_1: "\<not> 1 < (x :: u8) \<longleftrightarrow> x = 0 \<or> x = 1"
  by (auto simp: word_less_nat_alt unat_eq_iff)

interpretation c_change: wire_codec wr_smt_change rd_smt_change wf_change
proof
  fix x pre rest assume "wf_change x"
  then show "rd_smt_change (mk_reader pre (wr_smt_change x @ rest)) = Some (x, mk_reader (pre @ wr_smt_change x) rest)"
    by (cases x; cases "snd x") (auto simp: wf_change_def wr_smt_change_def rd_smt_change_def)
next
  fix pre bs x r assume "rd_smt_change (mk_reader pre bs) = Some (x, r)"
  then show "\<exists>rest. wf_change x \<and> bs = wr_smt_change x @ rest \<and> r = mk_reader (pre @ wr_smt_change x) rest"
    by (auto simp: rd_smt_change_def bind_eq_Some_conv wf_change_def wr_smt_change_def u8_at_most_1
        split: if_splits elim!: c_fixed.dec_invE c_u8.dec_invE)
qed

lemma smt_delta_round_trip:
  assumes "\<forall>c \<in> set cs. wf_change c" and "length (encode_smt_delta cs) < 18446744073709551616"
  shows "decode_smt_delta (encode_smt_delta cs) = Some cs"
proof -
  have "length cs \<le> length (concat (map wr_smt_change cs))"
    using assms(1) by (induction cs) (auto simp: wr_smt_change_def wr_u8_def)
  then have "length cs \<le> length (encode_smt_delta cs)" by (simp add: encode_smt_delta_def wr_vec_def)
  then have "length cs \<le> unat (word_of_nat (length (encode_smt_delta cs)) :: u64)"
    by (simp only: unat_of_nat_u64 [OF assms(2)])
  with assms(1) show ?thesis
    using wire_codec.axioms(1) [OF c_change.vec_codec, THEN wire_enc.parse_exact_enc]
    by (simp add: decode_smt_delta_def encode_smt_delta_def)
qed

subsection \<open>What a proof binds\<close>

text \<open>The byte strings hashed on the way up from a leaf, and those hashed to check a proof.\<close>

fun walk_inputs :: "(bytes \<Rightarrow> hash32) \<Rightarrow> hash32 \<Rightarrow> nat \<Rightarrow> hash32 list \<Rightarrow> hash32 \<Rightarrow> bytes list" where
  "walk_inputs sha key i [] cur = []"
| "walk_inputs sha key i (s # ss) cur =
     (let inp = ascii ''SC-SMT-NODE-V0'' @ (if bit_at key (255 - i) then s @ cur else cur @ s)
      in inp # walk_inputs sha key (Suc i) ss (sha inp))"

definition leaf_inputs :: "(bytes \<Rightarrow> hash32) \<Rightarrow> hash32 \<Rightarrow> bytes option \<Rightarrow> bytes list" where
  "leaf_inputs sha key val =
     (case val of None \<Rightarrow> [ascii ''SC-SMT-EMPTY-V0''] | Some v \<Rightarrow> [v, ascii ''SC-SMT-LEAF-V0'' @ key @ sha v])"

definition proof_inputs :: "(bytes \<Rightarrow> hash32) \<Rightarrow> hash32 \<Rightarrow> bytes option \<Rightarrow> hash32 list \<Rightarrow> bytes list" where
  "proof_inputs sha key val sibs =
     leaf_inputs sha key val
     @ walk_inputs sha key 0 sibs (case val of Some v \<Rightarrow> smt_leaf_hash sha key v | None \<Rightarrow> empty_leaf_hash sha)"

lemma walk_binds:
  assumes "\<And>x. length (sha x) = 32"
  shows "length ss = length tt \<Longrightarrow> \<forall>s \<in> set ss. length s = 32 \<Longrightarrow> \<forall>t \<in> set tt. length t = 32
    \<Longrightarrow> length a = 32 \<Longrightarrow> length b = 32 \<Longrightarrow> a \<noteq> b \<Longrightarrow> verify_walk sha key i ss a = verify_walk sha key i tt b
    \<Longrightarrow> \<exists>x \<in> set (walk_inputs sha key i ss a). \<exists>y \<in> set (walk_inputs sha key i tt b). x \<noteq> y \<and> sha x = sha y"
proof (induction ss arbitrary: tt a b i)
  case (Cons s ss)
  then obtain t tt' where tt: "tt = t # tt'" by (cases tt) auto
  define x where "x = ascii ''SC-SMT-NODE-V0'' @ (if bit_at key (255 - i) then s @ a else a @ s)"
  define y where "y = ascii ''SC-SMT-NODE-V0'' @ (if bit_at key (255 - i) then t @ b else b @ t)"
  have inputs: "walk_inputs sha key i (s # ss) a = x # walk_inputs sha key (Suc i) ss (sha x)"
    "walk_inputs sha key i tt b = y # walk_inputs sha key (Suc i) tt' (sha y)"
    by (simp_all add: tt x_def y_def Let_def)
  have "x \<noteq> y" using Cons.prems(2-6) by (auto simp: tt x_def y_def)
  have "verify_walk sha key (Suc i) ss (sha x) = verify_walk sha key (Suc i) tt' (sha y)"
    using Cons.prems(7) by (auto simp: tt x_def y_def smt_node_hash_def split: if_splits)
  show ?case
  proof (cases "sha x = sha y")
    case True
    then show ?thesis using \<open>x \<noteq> y\<close> unfolding inputs by auto
  next
    case False
    with Cons.IH [of tt' "sha x" "sha y" "Suc i"] Cons.prems(1-3) assms
      \<open>verify_walk sha key (Suc i) ss (sha x) = verify_walk sha key (Suc i) tt' (sha y)\<close>
    show ?thesis unfolding inputs by (auto simp: tt)
  qed
qed simp

lemma leaf_binds:
  assumes "v \<noteq> w"
    and "(case v of Some v \<Rightarrow> smt_leaf_hash sha key v | None \<Rightarrow> empty_leaf_hash sha)
      = (case w of Some w \<Rightarrow> smt_leaf_hash sha key w | None \<Rightarrow> empty_leaf_hash sha)"
  shows "\<exists>x \<in> set (leaf_inputs sha key v). \<exists>y \<in> set (leaf_inputs sha key w). x \<noteq> y \<and> sha x = sha y"
proof -
  have tags: "ascii ''SC-SMT-EMPTY-V0'' \<noteq> ascii ''SC-SMT-LEAF-V0'' @ r" for r
    by (simp add: ascii_def)
  show ?thesis
  proof (cases v; cases w)
    fix v' w' assume vw: "v = Some v'" "w = Some w'"
    show ?thesis
    proof (cases "sha v' = sha w'")
      case True
      then show ?thesis using vw assms(1) by (auto simp: leaf_inputs_def)
    next
      case False
      then show ?thesis using vw assms(2)
        by (auto simp: leaf_inputs_def smt_leaf_hash_def Let_def wr_bytes_def wr_bytes_fixed_def)
    qed
  qed (use assms tags tags [symmetric] in
      \<open>auto simp: leaf_inputs_def smt_leaf_hash_def empty_leaf_hash_def hash_tagged_def Let_def wr_bytes_def wr_bytes_fixed_def\<close>)
qed

subsection \<open>Properties\<close>

text \<open>
  C5. The persistent sparse Merkle tree implements a map from keys to leaf hashes. Applying any list of
  changes to a well-formed tree gives a well-formed tree for the map with those changes, later entries
  winning, whose size is the number of keys; its root and its proofs are those of the full binary tree
  of 256 levels over that map, whatever paths the process-wide memo has cached. Leaf hashes are taken to
  determine their keys, as the memo does.
\<close>

theorem persistent_smt_refines_map:
  assumes "smt_ok sha key_of t" and "memo_ok sha key_of memo" and "\<forall>c \<in> set changes. change_ok key_of c"
    and "length key = 32" and "updated sha t changes memo = (t', memo')"
  shows "smt_ok sha key_of t' \<and> memo_ok sha key_of memo'
    \<and> smt_map t' = foldl (\<lambda>m c. m(fst c := snd c)) (smt_map t) changes
    \<and> ps_size t' = card (dom (smt_map t'))
    \<and> fst (smt_root sha t' memo') = spec_root sha (smt_map t')
    \<and> fst (smt_proof sha t' key memo') = spec_proof sha (smt_map t') key"
proof -
  have run: "smt_ok sha key_of t' \<and> memo_ok sha key_of memo'
      \<and> smt_map t' = foldl (\<lambda>m c. m(fst c := snd c)) (smt_map t) changes"
    using smt_commit.run_refines [of sha key_of "(t, trim_memo memo)" changes] assms
    by (cases "changes = []") (auto simp: updated_def)
  then show ?thesis
    using smt_root_ok [of sha key_of t' memo'] smt_proof_ok [of sha key_of t' memo' key] assms(4)
    by (auto simp: smt_ok_def) (metis fst_conv surj_pair)+
qed

definition demo_sha :: "bytes \<Rightarrow> hash32" where
  "demo_sha b = take 32 (drop 14 b @ zero_hash)"

definition demo_key :: hash32 where
  "demo_key = replicate 32 1"

lemma demo_sha_simps: "length (demo_sha b) = 32" "length demo_key = 32" "demo_key \<noteq> zero_hash"
  "length k = 32 \<Longrightarrow> smt_leaf_hash demo_sha k v = k"
  by (simp_all add: demo_sha_def demo_key_def zero_hash_def smt_leaf_hash_def Let_def wr_bytes_def wr_bytes_fixed_def)

theorem persistent_smt_refines_map_witness:
  "let changes = [(zero_hash, Some zero_hash), (demo_key, Some demo_key), (zero_hash, None)];
       (t, memo) = updated demo_sha empty_smt changes []
   in smt_map t = [demo_key \<mapsto> demo_key] \<and> ps_size t = 1 \<and> fst (smt_root demo_sha t memo) = spec_root demo_sha [demo_key \<mapsto> demo_key]"
proof -
  define changes where "changes = [(zero_hash, Some zero_hash), (demo_key, Some demo_key), (zero_hash, None)]"
  obtain t memo where u: "updated demo_sha empty_smt changes [] = (t, memo)" by fastforce
  have "\<forall>c \<in> set changes. change_ok (\<lambda>h. h) c" by (simp add: changes_def change_ok_def demo_sha_simps)
  note this' = persistent_smt_refines_map [OF _ _ this demo_sha_simps(2) u]
  have "smt_map t = [demo_key \<mapsto> demo_key]" "ps_size t = card (dom (smt_map t))"
    "fst (smt_root demo_sha t memo) = spec_root demo_sha (smt_map t)"
    using this' demo_sha_simps(3)
    by (simp_all add: empty_smt_def smt_ok_def smt_map_def changes_def fun_upd_twist)
  then show ?thesis using u by (simp add: changes_def)
qed

lemma length_spec_hash:
  assumes "\<And>x. length (sha x) = 32"
  shows "length (spec_hash sha (leaf_map sha vals) n p) = 32"
  using assms
  by (cases n) (auto simp: leaf_map_def smt_node_hash_def smt_leaf_hash_def empty_leaf_hash_def hash_tagged_def Let_def split: option.splits)

lemma length_spec_proof: "length (spec_proof sha m key) = 256"
  by (simp add: spec_proof_def)

text \<open>
  C6. The three ways to a state root agree. For leaves with distinct keys, the root computed from the list,
  the root of a proof run over the list and the root of the persistent tree built from their leaf hashes
  are the root of the reference tree, and both proofs of a key are the same; the proof is accepted for the
  value the list holds for the key, or for its absence, and survives its compact encoding.
\<close>

theorem smt_implementations_agree:
  assumes "\<forall>x. length (sha x) = 32" and "bound_leaves sha key_of ls" and "distinct (map fst ls)"
    and "memo_ok sha key_of memo" and "length key = 32"
  shows "\<exists>root sibs t memo1 memo2 memo3.
    compute_root_from_leaves sha ls memo = Some (root, memo1)
    \<and> prove_from_leaves sha ls key memo = Some ((root, sibs), memo2)
    \<and> from_leaf_hashes sha (map (\<lambda>(k, v). (k, smt_leaf_hash sha k v)) ls) memo = Some (t, memo3)
    \<and> ps_size t = length ls
    \<and> fst (smt_root sha t memo3) = root
    \<and> fst (smt_proof sha t key memo3) = sibs
    \<and> root = spec_root sha (leaf_map sha (map_of ls))
    \<and> verify_proof sha root key (map_of ls key) sibs
    \<and> decode_compact_proof sha (encode_compact_proof sha sibs) = Some sibs"
proof -
  let ?m = "leaf_map sha (map_of ls)" and ?hashes = "map (\<lambda>(k, v). (k, smt_leaf_hash sha k v)) ls"
  note leaves = sorted_leaves_ok [OF assms(2)]
  obtain memo1 where root: "compute_root_from_leaves sha ls memo = Some (spec_root sha ?m, memo1)"
    using hash_sorted_leaves_ok [OF leaves(1) assms(4), of None] by (auto simp: compute_root_from_leaves_def leaves(2))
  obtain memo2 where prove: "prove_from_leaves sha ls key memo = Some ((spec_root sha ?m, spec_proof sha ?m key), memo2)"
    using hash_sorted_leaves_ok [OF leaves(1) assms(4), of "Some key"] by (auto simp: prove_from_leaves_def leaves(2))
  have "\<forall>l \<in> set ?hashes. length (fst l) = 32 \<and> key_of (snd l) = fst l" using assms(2) by (auto simp: bound_leaves_def)
  then obtain t memo3 where t: "from_leaf_hashes sha ?hashes memo = Some (t, memo3)" "smt_ok sha key_of t"
    "memo_ok sha key_of memo3" "smt_map t = map_of (rev ?hashes)"
    using from_leaf_hashes_ok [OF _ assms(4)] by blast
  have "distinct (map fst ?hashes)" using assms(3) by (simp add: case_prod_beta comp_def)
  then have "map_of (rev ?hashes) = map_of ?hashes" by (subst map_of_inject_set) (simp_all add: rev_map [symmetric])
  then have map: "smt_map t = ?m" using t(4) by (simp add: map_of_leaf_hashes)
  have "dom ?m = fst ` set ls" by (auto simp: leaf_map_def dom_def dom_map_of_conv_image_fst [symmetric])
  then have size: "ps_size t = length ls"
    using t(2) distinct_card [OF assms(3)] by (simp add: smt_ok_def map)
  have "\<forall>s \<in> set (spec_proof sha ?m key). length s = 32"
    using length_spec_hash [of sha] assms(1) by (auto simp: spec_proof_def off_path_def)
  note compact = compact_proof_round_trip [OF length_spec_proof this]
  have "verify_proof sha (spec_root sha ?m) key (map_of ls key) (spec_proof sha ?m key)"
    by (rule spec_proof_verifies) (simp_all add: assms(5) leaf_map_def)
  moreover have "fst (smt_root sha t memo3) = spec_root sha ?m" "fst (smt_proof sha t key memo3) = spec_proof sha ?m key"
    using smt_root_ok(1) [OF t(2,3)] smt_proof_ok(1) [OF t(2,3) assms(5)] map by (metis fst_conv surj_pair)+
  ultimately show ?thesis using root prove t(1) size compact by blast
qed

theorem smt_implementations_agree_witness:
  "\<exists>root sibs memo1 memo2.
     compute_root_from_leaves demo_sha [(zero_hash, [1]), (demo_key, [2])] [] = Some (root, memo1)
     \<and> prove_from_leaves demo_sha [(zero_hash, [1]), (demo_key, [2])] demo_key [] = Some ((root, sibs), memo2)
     \<and> verify_proof demo_sha root demo_key (Some [2]) sibs"
proof -
  have "bound_leaves demo_sha (\<lambda>h. h) [(zero_hash, [1]), (demo_key, [2])]"
    by (simp add: bound_leaves_def demo_sha_simps)
  from smt_implementations_agree [OF _ this _ memo_ok_Nil demo_sha_simps(2)] show ?thesis
    using demo_sha_simps(1,3) by (auto simp: eq_commute [of zero_hash])
qed

text \<open>
  C7. A root commits to at most one value of a key. When two proofs for one root and one key are both
  accepted, one for a value and the other for another value or for absence, two different byte strings
  among those hashed in the two checks have the same hash.
\<close>

theorem smt_proof_binds:
  assumes "\<forall>x. length (sha x) = 32" and "\<forall>s \<in> set sibs \<union> set sibs'. length s = 32"
    and "verify_proof sha root key v sibs" and "verify_proof sha root key w sibs'" and "v \<noteq> w"
  shows "\<exists>x \<in> set (proof_inputs sha key v sibs). \<exists>y \<in> set (proof_inputs sha key w sibs'). x \<noteq> y \<and> sha x = sha y"
proof -
  let ?leaf = "\<lambda>v. case v of Some v \<Rightarrow> smt_leaf_hash sha key v | None \<Rightarrow> empty_leaf_hash sha"
  have len: "length (?leaf v) = 32" for v
    using assms(1) by (auto simp: smt_leaf_hash_def empty_leaf_hash_def hash_tagged_def Let_def split: option.splits)
  have walk: "length sibs = length sibs'" "verify_walk sha key 0 sibs (?leaf v) = verify_walk sha key 0 sibs' (?leaf w)"
    using assms(3,4) by (simp_all add: verify_proof_def)
  show ?thesis
  proof (cases "?leaf v = ?leaf w")
    case True
    from leaf_binds [OF assms(5) this] show ?thesis by (auto simp: proof_inputs_def)
  next
    case False
    have "\<exists>x \<in> set (walk_inputs sha key 0 sibs (?leaf v)). \<exists>y \<in> set (walk_inputs sha key 0 sibs' (?leaf w)). x \<noteq> y \<and> sha x = sha y"
      by (rule walk_binds) (use assms(1,2) walk len False in auto)
    then show ?thesis by (auto simp: proof_inputs_def)
  qed
qed

lemma constant_walk: "verify_walk (\<lambda>_. c) key i ss c = c"
  by (induction ss arbitrary: i) (simp_all add: smt_node_hash_def)

theorem smt_proof_binds_witness:
  "let sha = (\<lambda>_. zero_hash); sibs = replicate 256 zero_hash
   in \<exists>x \<in> set (proof_inputs sha demo_key None sibs). \<exists>y \<in> set (proof_inputs sha demo_key (Some [1]) sibs). x \<noteq> y \<and> sha x = sha y"
proof -
  have "verify_proof (\<lambda>_. zero_hash) zero_hash demo_key v (replicate 256 zero_hash)" for v
    by (cases v)
       (simp_all add: verify_proof_def constant_walk smt_leaf_hash_def empty_leaf_hash_def hash_tagged_def Let_def)
  then show ?thesis
    using smt_proof_binds [of "\<lambda>_. zero_hash" "replicate 256 zero_hash" "replicate 256 zero_hash" zero_hash demo_key None "Some [1]"]
    by (simp add: Let_def)
qed

end
