(* ===== verification/Spec2Isabelle.thy ===== *)
theory Spec2Isabelle
  imports
    Codec
    Wide_Arith
    Network
    Monetary
    Payouts
    Tx_Codec
    Frontier_Codec
    Registry
    Votes
    Tickets
    Committee
    Hardening
    Signing
    Safety_Store
    Agreement
    Vote_Caches
    Smt_Wire
begin

text \<open>
  A verification library for Finalis Core, a blockchain node in C++ (sources under \<^verbatim>\<open>src/src\<close>).

  \<^bold>\<open>The program.\<close> A node keeps a chain of \<^emph>\<open>frontier transitions\<close>, each finalized by a committee in two
  phases: members prevote for a proposed transition, lock and precommit on a quorum of prevotes (a
  polka), and finalize on a quorum of precommits. Committees are drawn per epoch from the validator
  registry and from proof-of-work tickets. Votes are signed over domain-separated hashes, counted in
  trackers, and recorded on disk before they leave the node, so that a restart cannot contradict them.
  Finalized transitions pay rewards by a fixed emission schedule and commit to the state by the root of
  a sparse Merkle tree. Everything on the wire and on disk goes through one byte codec.

  \<^bold>\<open>Conventions.\<close> Fixed-width integers are words of that width and wrap; sizes and indices are naturals. A
  byte array is a list, its length part of the well-formedness predicates. \<^verbatim>\<open>std::map\<close> is a list sorted by
  key (\<^verbatim>\<open>omap_upd\<close>, \<^verbatim>\<open>omap_del\<close>, lookup by \<^verbatim>\<open>map_of\<close>). A failing parser or an absent \<^verbatim>\<open>std::optional\<close> is
  \<open>None\<close>; a rejection with a reason is an \<open>Inl\<close>. Hashes and signature checks are parameters. Code that
  mutates the node returns the new record. Loops are structural recursion or terminate by a measure, except
  the ticket search, a partial function whose result is \<open>None\<close> exactly when the loop runs forever.

  \<^bold>\<open>Foundations.\<close>
  \<^item> \<open>Finalis_Prelude\<close>: machine types, word lemmas, ordered maps and their contract.
  \<^item> \<open>Codec\<close> (\<^verbatim>\<open>codec/varint.cpp\<close>, \<^verbatim>\<open>codec/bytes.cpp\<close>, \<^verbatim>\<open>common/types.cpp\<close>): varints, readers and writers, hex.
    The locale \<open>wire_codec\<close> is the contract of a format: reading what was written, and nothing else
    being read. The formats below interpret it.
  \<^item> \<open>Wide_Arith\<close> (\<^verbatim>\<open>common/wide_arith.hpp\<close>): two-limb 128-bit arithmetic is exact where its range tests say so.
  \<^item> \<open>Network\<close> (\<^verbatim>\<open>common/network.cpp\<close>): the parameters of both networks, round timeouts.

  \<^bold>\<open>Economics.\<close>
  \<^item> \<open>Monetary\<close> (\<^verbatim>\<open>consensus/monetary.cpp\<close>): rewards add up to the supply, the closed form of the emitted supply,
    integer square root, base fee, minimum bond.
  \<^item> \<open>Payouts\<close> (same file): both ways to divide a pool pay out what they should, with the one exception stated.

  \<^bold>\<open>Formats.\<close>
  \<^item> \<open>Tx_Types\<close>, \<open>Tx_Codec\<close>, \<open>Frontier_Codec\<close> (\<^verbatim>\<open>utxo/tx.hpp\<close>, \<^verbatim>\<open>utxo/tx.cpp\<close>): every structure, serializer and
    parser; parsers accept exactly the encodings of well-formed values, and ids bind what they hash.
  \<^item> \<open>Signing\<close> (\<^verbatim>\<open>utxo/validate.cpp\<close>): the messages signed in consensus never coincide before hashing.
  \<^item> \<open>Safety_Store\<close> (\<^verbatim>\<open>node/node_consensus.cpp\<close>, \<^verbatim>\<open>node/node_internal.cpp\<close>, \<^verbatim>\<open>storage/db.cpp\<close>): the sealed record of
    a validator's votes, its mirror, and a durable write that may fail.

  \<^bold>\<open>State commitment.\<close>
  \<^item> \<open>Smt\<close> (\<^verbatim>\<open>crypto/smt.cpp\<close>): roots and proofs from a list of leaves, the persistent compressed trie, the
    memo of leaf paths shared by both, compact proofs and deltas.
  \<^item> \<open>Smt_Refine\<close>: the trie refines a map from keys to leaf hashes; its root is that of the full binary tree of
    256 levels (\<open>spec_hash\<close>) over the map. The locale \<open>committed_map\<close> is the contract: a root depends on the
    map, not on the changes that led to it.
  \<^item> \<open>Smt_Proofs\<close>: the list algorithm and the proofs of both agree with the full tree.
  \<^item> \<open>Smt_Wire\<close>: round trips, what a proof binds, and the properties of the component. That a leaf hash
    determines its key, on which the memo relies, is a hypothesis (\<open>key_of\<close>).

  \<^bold>\<open>Validators and committees.\<close>
  \<^item> \<open>Registry\<close> (\<^verbatim>\<open>consensus/validator_registry.cpp\<close>): every operation with its refusals; invariants over all
    sequences of operations.
  \<^item> \<open>Tickets\<close> (\<^verbatim>\<open>consensus/epoch_tickets.cpp\<close>): difficulty as a bound on the hash; the search for the best ticket.
  \<^item> \<open>Committee\<close> (\<^verbatim>\<open>consensus/finalized_committee.cpp\<close>, \<^verbatim>\<open>epoch_committee.cpp\<close>, \<^verbatim>\<open>committee_schedule.cpp\<close>,
    \<^verbatim>\<open>randomness.cpp\<close>): selection does not depend on the order of its input, and every member leads in turn.

  \<^bold>\<open>Voting.\<close>
  \<^item> \<open>Votes\<close> (\<^verbatim>\<open>consensus/votes.cpp\<close>): the trackers of votes and timeouts, with their limits.
  \<^item> \<open>Hardening\<close> (\<^verbatim>\<open>p2p/hardening.cpp\<close>): bounded caches, and bans that last.
  \<^item> \<open>Node_Consensus\<close> (\<^verbatim>\<open>node/node_consensus.cpp\<close> and parts of \<^verbatim>\<open>node.cpp\<close>, \<^verbatim>\<open>node_state.cpp\<close>, \<^verbatim>\<open>node_network.cpp\<close>): the
    state of a node, its disk, and each critical section: proposals, prevotes, precommits, timeouts, round
    changes, finalization, fail-stop, and the restoration of votes at startup.
  \<^item> \<open>Vote_Laws\<close>: the laws of casting votes and the quorum argument, over what the disks record.
  \<^item> \<open>Node_Safety\<close>, \<open>Node_Steps\<close>, \<open>Node_Restart\<close>: every section, every restart and every fault of a disk keeps
    the invariant of a node, and only votes recorded before are released.
  \<^item> \<open>Agreement\<close>: the steps of a network as an inductive relation, and agreement, one vote per round, and the
    memory of restarts over all its runs.
  \<^item> \<open>Vote_Caches\<close>: what the verification caches, keyed without the signature, allow a peer to do.

  \<^bold>\<open>Hypotheses and bounds of the agreement result.\<close> Less than a third of every committee is faulty and no
  committee has a single member (\<open>net_ok\<close>): a committee of one signs its precommit in
  \<^verbatim>\<open>finalize_if_quorum\<close> without a durable lock. Signatures of honest validators are not forged and the signed
  messages at hand do not collide under the hash (\<open>authentic\<close>). Heights stay 66 below the largest 64-bit
  value, the span that startup scans for lost records. Damage may hit either copy of a vote record; the
  high-water mark, the set of quarantined heights and the finalized tip are read back as written, and the
  operator has not asked for a vote lock to be discarded. A
  durable write is atomic: it reaches the disk entirely or not at all, and its failure may be reported in
  either case.

  \<^bold>\<open>Not modelled.\<close> Execution of a slice and the state derived from it (\<^verbatim>\<open>frontier_execution.cpp\<close>,
  \<^verbatim>\<open>canonical_derivation.cpp\<close> beyond the committee lookups, \<^verbatim>\<open>state_commitment.cpp\<close>) and transaction validation:
  the node model takes their verdict on a transition as a parameter, since consensus safety does not depend
  on it. Confidential transactions, timed encryption, BLS and VRF: they are thin layers over third-party
  curve libraries. Sockets, peers, synchronization, the light server, wallets and applications: input and
  output; the network model lets messages be lost, repeated and reordered instead. The mempool, ingress
  lanes, availability scores and the light client, which use validation or the state above. Of modelled
  files: \<^verbatim>\<open>TokenBucket\<close> (floating point), \<^verbatim>\<open>committee_eligibility_at_checkpoint\<close> (availability state), the methods
  of \<^verbatim>\<open>SparseMerkleTree\<close> over the database, \<^verbatim>\<open>check_and_record_proposer_equivocation\<close>, and the code of the
  \<^verbatim>\<open>FINALIS_CHAOS_BYZANTINE\<close> build. Liveness of the protocol is not claimed beyond the single lemmas on
  leaders, timeouts and bans.
\<close>

end
